(* ===== verification/Prelude.thy ===== *)
theory Prelude
  imports Main "HOL-Library.Word" "HOL-Library.Multiset"
begin

text \<open>
  Shared vocabulary of the libtorrent development: the machine integer types, the
  operations of \<^verbatim>\<open>std::vector\<close> that the sources use, the named collections the
  component theories feed, and the list and word lemmas that several of them need.

  Positions and sizes of vectors are \<^typ>\<open>nat\<close>; an element access outside the vector is
  undefined behaviour in the sources, and the component invariants show that it does not
  happen.
\<close>

named_theorems frame_simps \<open>fields that an operation leaves alone\<close>
named_theorems inv_intros \<open>introduction rules for the component invariants\<close>

type_synonym byte = "8 word"

subsection \<open>Operations of \<^verbatim>\<open>std::vector\<close>\<close>

definition vec_resize :: "'a list \<Rightarrow> nat \<Rightarrow> 'a \<Rightarrow> 'a list" where
  "vec_resize xs n v = take n xs @ replicate (n - length xs) v"

lemma length_vec_resize [simp]: "length (vec_resize xs n v) = n"
  by (simp add: vec_resize_def)

lemma nth_vec_resize:
  "i < n \<Longrightarrow> vec_resize xs n v ! i = (if i < length xs then xs ! i else v)"
  by (auto simp: vec_resize_def nth_append)

lemma vec_resize_grow: "length xs \<le> n \<Longrightarrow> vec_resize xs n v = xs @ replicate (n - length xs) v"
  by (simp add: vec_resize_def)

lemma vec_resize_id [simp]: "vec_resize xs (length xs) v = xs"
  by (simp add: vec_resize_def)

definition vec_erase :: "'a list \<Rightarrow> nat \<Rightarrow> 'a list" where
  "vec_erase xs i = take i xs @ drop (Suc i) xs"

definition vec_insert :: "'a list \<Rightarrow> nat \<Rightarrow> 'a \<Rightarrow> 'a list" where
  "vec_insert xs i v = take i xs @ v # drop i xs"

lemma length_vec_erase: "i < length xs \<Longrightarrow> length (vec_erase xs i) = length xs - 1"
  by (simp add: vec_erase_def)

lemma length_vec_insert [simp]: "length (vec_insert xs i v) = Suc (length xs)"
  by (simp add: vec_insert_def)

lemma set_vec_insert [simp]: "set (vec_insert xs i v) = insert v (set xs)"
proof -
  have "set (vec_insert xs i v) = insert v (set (take i xs @ drop i xs))"
    unfolding vec_insert_def by (auto simp del: append_take_drop_id)
  then show ?thesis by simp
qed

subsection \<open>Lists\<close>

lemma nth_append_length_add [simp]: "(xs @ ys) ! (length xs + i) = ys ! i"
  by (simp add: nth_append)

lemma list_update_append_length_add [simp]:
  "(xs @ ys)[length xs + i := v] = xs @ ys[i := v]"
  by (simp add: list_update_append)

lemma mset_list_update_swap:
  "i < length xs \<Longrightarrow> mset (xs[i := x]) + {#xs ! i#} = mset xs + {#x#}"
  by (simp add: mset_update insert_DiffM2)

lemma all_empty_concat: "\<forall>c \<in> set cs. c = [] \<Longrightarrow> concat cs = []"
  by (induction cs) auto

lemma split_first_nonempty:
  assumes "\<not> (\<forall>c \<in> set cs. c = [])"
  obtains es c rest where "cs = es @ c # rest" "\<forall>e \<in> set es. e = []" "c \<noteq> []"
  using assms split_list_first_prop [of cs "\<lambda>c. c \<noteq> []"] by (metis not_Cons_self2)

end
