(* ===== verification/Bitfield.thy ===== *)
theory Bitfield
  imports Prelude
begin

unbundle bit_operations_syntax

text \<open>
  \<^verbatim>\<open>include/libtorrent/bitfield.hpp\<close>: the packed set of piece indices that peers
  exchange. Bit \<open>i\<close> is bit \<open>7 - i mod 8\<close> of byte \<open>i div 8\<close>. The buffer is the list of the
  bytes that \<^verbatim>\<open>m_bytes\<close> points to (\<open>None\<close> is the null pointer); what \<^verbatim>\<open>malloc\<close> and
  \<^verbatim>\<open>realloc\<close> leave in fresh bytes is the argument \<open>junk\<close> of the operations that
  allocate, so nothing can depend on it by accident.
\<close>

record bitfield =
  bf_bytes :: "byte list option"
  bf_size :: nat
  bf_own :: bool

definition bitfield_empty :: bitfield where
  "bitfield_empty = \<lparr>bf_bytes = None, bf_size = 0, bf_own = False\<rparr>"

abbreviation bytes_of :: "bitfield \<Rightarrow> byte list" where
  "bytes_of b \<equiv> (case bf_bytes b of None \<Rightarrow> [] | Some bs \<Rightarrow> bs)"

subsection \<open>Single bits\<close>

definition bf_mask :: "nat \<Rightarrow> byte" where
  "bf_mask index = drop_bit (index mod 8) 0x80"

definition get_bit :: "bitfield \<Rightarrow> nat \<Rightarrow> bool" where
  "get_bit b index \<longleftrightarrow> (bytes_of b ! (index div 8)) AND bf_mask index \<noteq> 0"

definition clear_bit :: "bitfield \<Rightarrow> nat \<Rightarrow> bitfield" where
  "clear_bit b index = b\<lparr>bf_bytes := map_option
     (\<lambda>bs. bs[index div 8 := (bs ! (index div 8)) AND NOT (bf_mask index)]) (bf_bytes b)\<rparr>"

definition set_bit :: "bitfield \<Rightarrow> nat \<Rightarrow> bitfield" where
  "set_bit b index = b\<lparr>bf_bytes := map_option
     (\<lambda>bs. bs[index div 8 := (bs ! (index div 8)) OR bf_mask index]) (bf_bytes b)\<rparr>"

subsection \<open>Resizing\<close>

definition clear_trailing_bits :: "bitfield \<Rightarrow> bitfield" where
  "clear_trailing_bits b =
     (if bf_size b mod 8 \<noteq> 0
      then b\<lparr>bf_bytes := map_option
        (\<lambda>bs. let k = (bf_size b + 7) div 8 - 1
              in bs[k := (bs ! k) AND push_bit (8 - bf_size b mod 8) 0xff]) (bf_bytes b)\<rparr>
      else b)"

text \<open>\<open>alloc_copy n junk old\<close>: a block of \<open>n\<close> bytes that starts with those of \<open>old\<close>.\<close>

definition alloc_copy :: "nat \<Rightarrow> (nat \<Rightarrow> byte) \<Rightarrow> byte list \<Rightarrow> byte list" where
  "alloc_copy n junk old = take n old @ map junk [length old..<n]"

definition bf_realloc :: "(nat \<Rightarrow> byte) \<Rightarrow> bitfield \<Rightarrow> nat \<Rightarrow> bitfield" where
  "bf_realloc junk b bits =
     (let n = (bits + 7) div 8 in
      case bf_bytes b of
        Some old \<Rightarrow>
          (if bf_own b then b\<lparr>bf_bytes := Some (alloc_copy n junk old), bf_own := True\<rparr>
           else if bits > bf_size b
           then b\<lparr>bf_bytes := Some (alloc_copy n junk (take (min ((bf_size b + 7) div 8) n) old)),
                  bf_own := True\<rparr>
           else b)
      | None \<Rightarrow>
          (if bits > 0 then b\<lparr>bf_bytes := Some (alloc_copy n junk []), bf_own := True\<rparr> else b))"

definition bf_resize :: "(nat \<Rightarrow> byte) \<Rightarrow> bitfield \<Rightarrow> nat \<Rightarrow> bitfield" where
  "bf_resize junk b bits = clear_trailing_bits ((bf_realloc junk b bits)\<lparr>bf_size := bits\<rparr>)"

definition memset :: "byte list \<Rightarrow> nat \<Rightarrow> byte \<Rightarrow> nat \<Rightarrow> byte list" where
  "memset bs off v n = take off bs @ replicate n v @ drop (off + n) bs"

text \<open>
  \<open>grow_bytes s n m v\<close> fills what growing from \<open>s\<close> bits (\<open>n\<close> bytes) to \<open>m\<close> bytes adds: the
  rest of the partial last byte (only when \<open>v\<close> is set) and the new bytes.
\<close>

definition grow_bytes :: "nat \<Rightarrow> nat \<Rightarrow> nat \<Rightarrow> bool \<Rightarrow> byte list \<Rightarrow> byte list" where
  "grow_bytes s n m v bs =
     (let bs1 = (if v \<and> n \<noteq> 0 \<and> s mod 8 \<noteq> 0
                 then bs[n - 1 := (bs ! (n - 1)) OR drop_bit (s mod 8) 0xff] else bs)
      in if n < m then memset bs1 n (if v then 0xff else 0x00) (m - n) else bs1)"

definition bf_resize_val :: "(nat \<Rightarrow> byte) \<Rightarrow> bitfield \<Rightarrow> nat \<Rightarrow> bool \<Rightarrow> bitfield" where
  "bf_resize_val junk b bits v =
     (let s = bf_size b; r = bf_resize junk b bits in
      if s \<ge> bf_size r then r
      else
        let old_size_bytes = (s + 7) div 8; new_size_bytes = (bf_size r + 7) div 8;
            g = r\<lparr>bf_bytes := map_option (grow_bytes s old_size_bytes new_size_bytes v) (bf_bytes r)\<rparr>
        in if v then clear_trailing_bits g else g)"

definition bf_assign :: "(nat \<Rightarrow> byte) \<Rightarrow> bitfield \<Rightarrow> byte list \<Rightarrow> nat \<Rightarrow> bitfield" where
  "bf_assign junk b src bits =
     (let r = bf_resize junk b bits; n = (bits + 7) div 8
      in clear_trailing_bits
           (r\<lparr>bf_bytes := map_option (\<lambda>bs. take n src @ drop n bs) (bf_bytes r)\<rparr>))"

definition set_all :: "bitfield \<Rightarrow> bitfield" where
  "set_all b = clear_trailing_bits
     (b\<lparr>bf_bytes := map_option (\<lambda>bs. memset bs 0 0xff ((bf_size b + 7) div 8)) (bf_bytes b)\<rparr>)"

definition clear_all :: "bitfield \<Rightarrow> bitfield" where
  "clear_all b =
     b\<lparr>bf_bytes := map_option (\<lambda>bs. memset bs 0 0x00 ((bf_size b + 7) div 8)) (bf_bytes b)\<rparr>"

subsection \<open>Counting\<close>

definition num_bits :: "nat list" where
  "num_bits = [0, 1, 1, 2, 1, 2, 2, 3, 1, 2, 2, 3, 2, 3, 3, 4]"

definition bf_count :: "bitfield \<Rightarrow> nat" where
  "bf_count b =
     (let num_bytes = bf_size b div 8; rest = bf_size b - num_bytes * 8; bs = bytes_of b in
      sum_list (map (\<lambda>i. num_bits ! unat (bs ! i AND 0xf) + num_bits ! unat (drop_bit 4 (bs ! i)))
                  [0..<num_bytes])
      + sum_list (map (\<lambda>i. unat ((drop_bit (7 - i) (bs ! num_bytes)) AND 1)) [0..<rest]))"

subsection \<open>Iteration\<close>

text \<open>
  A \<^verbatim>\<open>const_iterator\<close> is a byte position and a one-bit mask;
  \<open>bf_traverse\<close> is the loop \<^verbatim>\<open>for (i = begin(); i != end(); ++i)\<close> collecting \<^verbatim>\<open>*i\<close>,
  where \<open>fuel\<close> bounds the iterations (the number of bits is enough).
\<close>

record bf_iterator =
  it_byte :: nat
  it_bit :: byte

definition bf_begin :: "bitfield \<Rightarrow> bf_iterator" where
  "bf_begin b = \<lparr>it_byte = 0, it_bit = drop_bit 0 0x80\<rparr>"

definition bf_end :: "bitfield \<Rightarrow> bf_iterator" where
  "bf_end b = \<lparr>it_byte = bf_size b div 8, it_bit = drop_bit (bf_size b mod 8) 0x80\<rparr>"

definition it_inc :: "bf_iterator \<Rightarrow> bf_iterator" where
  "it_inc it = (if it_bit it = 0x01 then it\<lparr>it_bit := 0x80, it_byte := Suc (it_byte it)\<rparr>
                else it\<lparr>it_bit := drop_bit 1 (it_bit it)\<rparr>)"

definition it_deref :: "bitfield \<Rightarrow> bf_iterator \<Rightarrow> bool" where
  "it_deref b it \<longleftrightarrow> (bytes_of b ! it_byte it) AND it_bit it \<noteq> 0"

fun bf_traverse :: "nat \<Rightarrow> bitfield \<Rightarrow> bf_iterator \<Rightarrow> bool list option" where
  "bf_traverse fuel b it =
     (if it = bf_end b then Some []
      else case fuel of 0 \<Rightarrow> None
           | Suc fuel' \<Rightarrow> map_option (Cons (it_deref b it)) (bf_traverse fuel' b (it_inc it)))"

declare bf_traverse.simps [simp del]

text \<open>The abstraction: the sequence of bits a bitfield stands for.\<close>

definition bits_of :: "bitfield \<Rightarrow> bool list" where
  "bits_of b = map (get_bit b) [0..<bf_size b]"

definition bf_wf :: "bitfield \<Rightarrow> bool" where
  "bf_wf b \<longleftrightarrow>
     (bf_size b > 0 \<longrightarrow> bf_bytes b \<noteq> None) \<and>
     (bf_size b + 7) div 8 \<le> length (bytes_of b) \<and>
     (bf_size b mod 8 \<noteq> 0 \<longrightarrow>
        (\<forall>i \<in> {bf_size b ..< 8 * ((bf_size b + 7) div 8)}. \<not> get_bit b i))"


subsection \<open>Bits of the buffer\<close>

lemma less_8_cases: "(k::nat) < 8 \<Longrightarrow> k = 0 \<or> k = 1 \<or> k = 2 \<or> k = 3 \<or> k = 4 \<or> k = 5 \<or> k = 6 \<or> k = 7"
  by arith

lemma bf_mask_push: "bf_mask i = push_bit (7 - i mod 8) 1"
proof -
  have "i mod 8 < 8" by simp
  then show ?thesis using less_8_cases [of "i mod 8"] by (auto simp: bf_mask_def)
qed

lemma get_bit_iff: "get_bit b i \<longleftrightarrow> bit (bytes_of b ! (i div 8)) (7 - i mod 8)"
  by (simp add: get_bit_def bf_mask_push bit_iff_and_push_bit_not_eq_0)

lemma bf_mask_iff: "bit (bf_mask i) n \<longleftrightarrow> n = 7 - i mod 8"
  by (auto simp: bf_mask_push bit_simps)

lemma same_bit_position: "i div 8 = j div 8 \<Longrightarrow> (7 - j mod 8 = 7 - i mod 8) = (j = i)" for i j :: nat
proof -
  assume d: "i div 8 = j div 8"
  have "i = 8 * (i div 8) + i mod 8" "j = 8 * (j div 8) + j mod 8" by simp_all
  moreover have "i mod 8 < 8" "j mod 8 < 8" by simp_all
  ultimately show ?thesis using d by linarith
qed

lemma bytes_of_update [simp]:
  "bytes_of (b\<lparr>bf_bytes := map_option f (bf_bytes b)\<rparr>) = (case bf_bytes b of None \<Rightarrow> [] | Some bs \<Rightarrow> f bs)"
  by (simp split: option.split)

lemma wf_byte_index:
  "bf_wf b \<Longrightarrow> i < bf_size b \<Longrightarrow> i div 8 < length (bytes_of b)"
  unfolding bf_wf_def by linarith

lemma wf_bytes_Some: "bf_wf b \<Longrightarrow> i < bf_size b \<Longrightarrow> \<exists>bs. bf_bytes b = Some bs"
  unfolding bf_wf_def by auto

lemma get_set_bit:
  assumes "i div 8 < length (bytes_of b)"
  shows "get_bit (set_bit b i) j \<longleftrightarrow> j = i \<or> get_bit b j"
proof (cases "bf_bytes b")
  case (Some bs)
  with assms show ?thesis
    using same_bit_position [of i j]
    by (auto simp: get_bit_iff set_bit_def bit_or_iff bf_mask_iff nth_list_update)
qed (use assms in simp)

lemma get_clear_bit:
  assumes "i div 8 < length (bytes_of b)"
  shows "get_bit (clear_bit b i) j \<longleftrightarrow> j \<noteq> i \<and> get_bit b j"
proof (cases "bf_bytes b")
  case (Some bs)
  with assms show ?thesis
    using same_bit_position [of i j]
    by (auto simp: get_bit_iff clear_bit_def bit_and_iff bit_not_iff bf_mask_iff nth_list_update)
qed (use assms in simp)

lemma size_set_clear [simp]:
  "bf_size (set_bit b i) = bf_size b" "bf_size (clear_bit b i) = bf_size b"
  by (simp_all add: set_bit_def clear_bit_def)

lemma length_set_clear [simp]:
  "length (bytes_of (set_bit b i)) = length (bytes_of b)"
  "length (bytes_of (clear_bit b i)) = length (bytes_of b)"
  "(bf_bytes (set_bit b i) = None) = (bf_bytes b = None)"
  "(bf_bytes (clear_bit b i) = None) = (bf_bytes b = None)"
  by (auto simp: set_bit_def clear_bit_def split: option.split)

lemma set_bit_wf: "bf_wf b \<Longrightarrow> i < bf_size b \<Longrightarrow> bf_wf (set_bit b i)"
  using wf_byte_index [of b i] by (auto simp: bf_wf_def get_set_bit)

lemma clear_bit_wf: "bf_wf b \<Longrightarrow> i < bf_size b \<Longrightarrow> bf_wf (clear_bit b i)"
  using wf_byte_index [of b i] by (auto simp: bf_wf_def get_clear_bit)

lemma length_bits_of [simp]: "length (bits_of b) = bf_size b"
  by (simp add: bits_of_def)

lemma nth_bits_of: "i < bf_size b \<Longrightarrow> bits_of b ! i = get_bit b i"
  by (simp add: bits_of_def)

lemma bits_of_set_bit: "bf_wf b \<Longrightarrow> i < bf_size b \<Longrightarrow> bits_of (set_bit b i) = (bits_of b)[i := True]"
  by (rule nth_equalityI)
     (auto simp: nth_bits_of get_set_bit wf_byte_index nth_list_update)

lemma bits_of_clear_bit: "bf_wf b \<Longrightarrow> i < bf_size b \<Longrightarrow> bits_of (clear_bit b i) = (bits_of b)[i := False]"
  by (rule nth_equalityI)
     (auto simp: nth_bits_of get_clear_bit wf_byte_index nth_list_update)

subsection \<open>Counting\<close>

definition byte_bits :: "byte \<Rightarrow> bool list" where
  "byte_bits w = map (\<lambda>k. bit w (7 - k)) [0..<8]"

lemma num_bits_nth: "n < 16 \<Longrightarrow>
  num_bits ! n = of_bool (odd n) + of_bool (odd (n div 2)) + of_bool (odd (n div 4)) + of_bool (odd (n div 8))"
proof -
  assume "n < 16"
  then have "n \<in> set [0..<16]" by simp
  moreover have "\<forall>n \<in> set [0..<16]. num_bits ! n =
     of_bool (odd n) + of_bool (odd (n div 2)) + of_bool (odd (n div 4)) + of_bool (odd (n div 8))"
    unfolding num_bits_def by code_simp
  ultimately show ?thesis by blast
qed

lemma num_bits_word:
  assumes "unat (v :: byte) < 16"
  shows "num_bits ! unat v = of_bool (bit v 0) + of_bool (bit v 1) + of_bool (bit v 2) + of_bool (bit v 3)"
proof -
  have "bit v k \<longleftrightarrow> odd (unat v div 2 ^ k)" for k
    using bit_iff_odd [of "unat v" k] by (auto simp: bit_unsigned_iff dest: bit_imp_le_length)
  from this [of 0] this [of 1] this [of 2] this [of 3] show ?thesis
    using num_bits_nth [OF assms] by simp
qed

lemma length_filter_byte_bits:
  "length (filter (\<lambda>v. v) (byte_bits w)) =
     num_bits ! unat (w AND 0xf) + num_bits ! unat (drop_bit 4 w)"
proof -
  have f: "(0xf :: byte) = mask 4" by (simp add: mask_eq_exp_minus_1)
  have lo: "unat (w AND 0xf) < 16"
    unfolding f take_bit_eq_mask [symmetric]
    by (simp add: take_bit_eq_mod unat_mod)
  have hi: "unat (drop_bit 4 w) < 16"
   
    using unsigned_less [of w, where ?'a = nat] by (auto simp: drop_bit_eq_div unat_div)
  have bl: "bit (w AND 0xf) k = bit w k" if "k < 4" for k
    unfolding f using that by (simp add: bit_and_iff bit_mask_iff)
  show ?thesis
    unfolding num_bits_word [OF lo] num_bits_word [OF hi]
    by (simp add: byte_bits_def bl bit_drop_bit_eq upt_rec numeral_eq_Suc)
qed

lemma filter_byte_part:
  assumes "r \<le> 8"
  shows "length (filter (get_bit b) [8 * n..<8 * n + r]) =
     length (filter (\<lambda>i. bit (bytes_of b ! n) (7 - i)) [0..<r])"
proof -
  have "[8 * n..<8 * n + r] = map (\<lambda>k. k + 8 * n) [0..<r]"
    by (simp add: map_add_upt add.commute)
  moreover have "get_bit b (k + 8 * n) = bit (bytes_of b ! n) (7 - k)" if "k < r" for k
    using that assms by (simp add: get_bit_iff)
  then have "filter (\<lambda>k. get_bit b (k + 8 * n)) [0..<r] = filter (\<lambda>k. bit (bytes_of b ! n) (7 - k)) [0..<r]"
    by (intro filter_cong) auto
  ultimately show ?thesis by (simp add: filter_map comp_def)
qed

lemma filter_whole_bytes:
  "length (filter (get_bit b) [0..<8 * n]) =
     sum_list (map (\<lambda>i. length (filter (\<lambda>v. v) (byte_bits (bytes_of b ! i)))) [0..<n])"
proof (induction n)
  case (Suc n)
  have "[0..<8 * Suc n] = [0..<8 * n] @ [8 * n..<8 * n + 8]"
    using upt_add_eq_append [of 0 "8 * n" 8] by (simp add: add.commute)
  moreover have "length (filter (get_bit b) [8 * n..<8 * n + 8]) =
     length (filter (\<lambda>v. v) (byte_bits (bytes_of b ! n)))"
    using filter_byte_part [of 8 b n] by (simp add: filter_map comp_def byte_bits_def)
  ultimately show ?case using Suc.IH by simp
qed simp

lemma sum_rest_bits:
  assumes "r \<le> 8"
  shows "sum_list (map (\<lambda>i. unat ((drop_bit (7 - i) w) AND 1)) [0..<r]) =
     length (filter (\<lambda>i. bit (w :: byte) (7 - i)) [0..<r])"
proof -
  have "unat ((drop_bit (7 - i) w) AND 1) = of_bool (bit w (7 - i))" for i
    by (simp add: and_one_eq bit_iff_odd_drop_bit odd_iff_mod_2_eq_one)
  then show ?thesis by (induction r) simp_all
qed

lemma count_correct: "bf_count b = length (filter (\<lambda>v. v) (bits_of b))"
proof -
  let ?n = "bf_size b div 8" and ?r = "bf_size b - bf_size b div 8 * 8"
  have r: "?r \<le> 8" and sz: "bf_size b = 8 * ?n + ?r"
    by (simp_all add: mult.commute flip: minus_mult_div_eq_mod)
  have "[0..<bf_size b] = [0..<8 * ?n] @ [8 * ?n..<8 * ?n + ?r]"
    using upt_add_eq_append [of 0 "8 * ?n" ?r] sz by simp
  then have "length (filter (\<lambda>v. v) (bits_of b)) =
      length (filter (get_bit b) [0..<8 * ?n]) + length (filter (get_bit b) [8 * ?n..<8 * ?n + ?r])"
    by (simp add: bits_of_def filter_map comp_def)
  also have "length (filter (get_bit b) [8 * ?n..<8 * ?n + ?r]) =
      length (filter (\<lambda>i. bit (bytes_of b ! ?n) (7 - i)) [0..<?r])"
    by (rule filter_byte_part [OF r])
  finally show ?thesis
    unfolding bf_count_def Let_def filter_whole_bytes length_filter_byte_bits
    using sum_rest_bits [OF r] by simp
qed

subsection \<open>Iteration visits every bit in order\<close>

abbreviation bf_iter_at :: "nat \<Rightarrow> bf_iterator" where
  "bf_iter_at i \<equiv> \<lparr>it_byte = i div 8, it_bit = bf_mask i\<rparr>"

lemma it_inc_at: "it_inc (bf_iter_at i) = bf_iter_at (Suc i)"
proof -
  have "i mod 8 < 8" by simp
  then show ?thesis
    using less_8_cases [of "i mod 8"]
    by (auto simp: it_inc_def bf_mask_def mod_Suc div_Suc)
qed

lemma bf_iter_at_inj: "bf_iter_at i = bf_iter_at j \<longleftrightarrow> i = j"
proof
  assume eq: "bf_iter_at i = bf_iter_at j"
  then have d: "i div 8 = j div 8" and m: "bf_mask i = bf_mask j" by simp_all
  from m have "bit (bf_mask j) (7 - i mod 8)" using bf_mask_iff [of i "7 - i mod 8"] by simp
  then show "i = j" using same_bit_position [OF d] by (auto simp: bf_mask_iff)
qed simp

lemma bf_traverse_from:
  "i + fuel = bf_size b \<Longrightarrow> bf_traverse fuel b (bf_iter_at i) = Some (map (get_bit b) [i..<bf_size b])"
proof (induction fuel arbitrary: i)
  case 0
  then show ?case by (simp add: bf_traverse.simps bf_end_def bf_mask_def)
next
  case (Suc fuel)
  have ne: "bf_iter_at i \<noteq> bf_end b"
    using Suc.prems bf_iter_at_inj [of i "bf_size b"] by (simp add: bf_end_def bf_mask_def)
  have "[i..<bf_size b] = i # [Suc i..<bf_size b]"
    using Suc.prems by (simp add: upt_conv_Cons)
  moreover have "it_deref b (bf_iter_at i) = get_bit b i"
    by (simp add: it_deref_def get_bit_def)
  ultimately show ?case
    using Suc ne by (subst bf_traverse.simps) (simp add: it_inc_at)
qed

lemma bf_traverse_bits: "bf_traverse (bf_size b) b (bf_begin b) = Some (bits_of b)"
  using bf_traverse_from [of 0 "bf_size b" b] by (simp add: bits_of_def bf_begin_def bf_mask_def)


subsection \<open>Resizing keeps the old bits\<close>

lemma bytes_needed: "i < n \<Longrightarrow> i div 8 < (n + 7) div 8" for i n :: nat
  by linarith

lemma bit_position_less [simp]: "7 - k < (8 :: nat)"
  by linarith

lemma partial_byte:
  fixes s :: nat
  assumes "s mod 8 \<noteq> 0"
  shows "(s + 7) div 8 - 1 = s div 8"
proof -
  obtain q r where s: "s = 8 * q + r" "r < 8" by (metis mult_div_mod_eq mod_less_divisor zero_less_numeral)
  with assms have "0 < r" by simp
  then have "(s + 7) div 8 = q + 1" using s by (intro div_nat_eqI) simp_all
  then show ?thesis using s by simp
qed

lemma whole_bytes:
  fixes s i :: nat
  assumes "i div 8 < (s + 7) div 8" "s \<le> i"
  shows "s mod 8 \<noteq> 0" "i < 8 * ((s + 7) div 8)"
proof
  show "i < 8 * ((s + 7) div 8)" using assms(1) by (simp add: less_mult_imp_div_less div_less_iff_less_mult mult.commute)
  assume "s mod 8 = 0"
  then obtain q where q: "s = 8 * q" by (metis mod_0_imp_dvd dvd_def)
  then have "(s + 7) div 8 = q" by (intro div_nat_eqI) simp_all
  with assms q show False by (simp add: div_less_iff_less_mult mult.commute)
qed

lemma bit_0xff_iff [simp]: "bit (255 :: int) n \<longleftrightarrow> n < 8"
  using bit_mask_iff [where 'a = int, of 8 n] by (simp add: mask_eq_exp_minus_1)

text \<open>Clearing the tail byte is bit-wise: every bit from the size on becomes zero.\<close>

lemma get_clear_trailing:
  assumes "i div 8 < (bf_size b + 7) div 8" "(bf_size b + 7) div 8 \<le> length (bytes_of b)"
  shows "get_bit (clear_trailing_bits b) i \<longleftrightarrow> i < bf_size b \<and> get_bit b i"
proof (cases "bf_size b mod 8 = 0")
  case True
  with assms(1) have "i < bf_size b" using whole_bytes(1) by force
  with True show ?thesis by (simp add: clear_trailing_bits_def)
next
  case False
  let ?k = "(bf_size b + 7) div 8 - 1" and ?m = "bf_size b mod 8"
  from assms False obtain bs where bs: "bf_bytes b = Some bs" "?k < length bs"
    by (cases "bf_bytes b") auto
  have k: "?k = bf_size b div 8" using False by (rule partial_byte)
  have ff: "bit (push_bit (8 - ?m) (0xff :: byte)) n \<longleftrightarrow> 8 - ?m \<le> n \<and> n < 8" for n
    by (auto simp: bit_push_bit_iff bit_0xff_iff)
  show ?thesis
  proof (cases "i div 8 = ?k")
    case True
    have "8 - ?m \<le> 7 - i mod 8 \<longleftrightarrow> i < bf_size b"
    proof -
      have "i = 8 * (bf_size b div 8) + i mod 8" using True k by (metis mult_div_mod_eq)
      moreover have "bf_size b = 8 * (bf_size b div 8) + ?m" "i mod 8 < 8" "?m < 8" by simp_all
      ultimately show ?thesis by linarith
    qed
    moreover have "7 - i mod 8 < (8 :: nat)" by simp
    ultimately show ?thesis
      using True bs False by (auto simp: get_bit_iff clear_trailing_bits_def Let_def bit_and_iff ff)
  next
    case f: False
    then have "i < bf_size b" using assms(1) k by linarith
    with f bs False show ?thesis by (simp add: get_bit_iff clear_trailing_bits_def Let_def)
  qed
qed

lemma clear_trailing_fields [simp]:
  "bf_size (clear_trailing_bits b) = bf_size b"
  "length (bytes_of (clear_trailing_bits b)) = length (bytes_of b)"
  "(bf_bytes (clear_trailing_bits b) = None) = (bf_bytes b = None)"
  by (auto simp: clear_trailing_bits_def Let_def split: option.split)

lemma clear_trailing_wf:
  "(bf_size b > 0 \<longrightarrow> bf_bytes b \<noteq> None) \<Longrightarrow> (bf_size b + 7) div 8 \<le> length (bytes_of b) \<Longrightarrow>
   bf_wf (clear_trailing_bits b)"
  unfolding bf_wf_def using get_clear_trailing [of _ b] by auto

lemma length_alloc_copy [simp]: "length (alloc_copy n junk old) = n"
  by (simp add: alloc_copy_def)

lemma nth_alloc_copy: "i < length old \<Longrightarrow> i < n \<Longrightarrow> alloc_copy n junk old ! i = old ! i"
  by (simp add: alloc_copy_def nth_append)

lemma bf_realloc_room:
  assumes "bf_wf b"
  shows "(bits + 7) div 8 \<le> length (bytes_of (bf_realloc junk b bits))"
    and "bits > 0 \<Longrightarrow> bf_bytes (bf_realloc junk b bits) \<noteq> None"
  using assms div_le_mono [of "bits + 7" "bf_size b + 7" 8]
  by (auto simp: bf_realloc_def Let_def bf_wf_def split: option.splits)

lemma bf_realloc_bytes:
  assumes "bf_wf b" "j < (bf_size b + 7) div 8" "j < (bits + 7) div 8"
  shows "bytes_of (bf_realloc junk b bits) ! j = bytes_of b ! j"
proof -
  obtain bs where bs: "bf_bytes b = Some bs" "j < length bs"
    using assms(1,2) by (cases "bf_bytes b") (auto simp: bf_wf_def)
  with assms show ?thesis by (simp add: bf_realloc_def Let_def nth_alloc_copy)
qed

lemma bf_resize_size [simp]: "bf_size (bf_resize junk b bits) = bits"
  by (simp add: bf_resize_def)

lemma bf_resize_wf: "bf_wf b \<Longrightarrow> bf_wf (bf_resize junk b bits)"
  unfolding bf_resize_def using bf_realloc_room [of b bits junk]
  by (intro clear_trailing_wf) auto

lemma bf_resize_get:
  assumes "bf_wf b" "i div 8 < (bf_size b + 7) div 8" "i < bits"
  shows "get_bit (bf_resize junk b bits) i = get_bit b i"
proof -
  have "get_bit (bf_resize junk b bits) i = get_bit ((bf_realloc junk b bits)\<lparr>bf_size := bits\<rparr>) i"
    unfolding bf_resize_def
    using get_clear_trailing [of i "(bf_realloc junk b bits)\<lparr>bf_size := bits\<rparr>"] assms(3)
      bf_realloc_room(1) [OF assms(1), of bits junk] by (simp add: bytes_needed)
  then show ?thesis
    using bf_realloc_bytes [OF assms(1,2)] assms(3) by (simp add: get_bit_iff bytes_needed)
qed

lemma wf_tail_clear:
  assumes "bf_wf b" "bf_size b \<le> i" "i div 8 < (bf_size b + 7) div 8"
  shows "\<not> get_bit b i"
proof -
  have "bf_size b mod 8 \<noteq> 0" "i < 8 * ((bf_size b + 7) div 8)"
    using whole_bytes [OF assms(3,2)] by simp_all
  with assms(1,2) show ?thesis by (auto simp: bf_wf_def)
qed

lemma nth_memset:
  "off + n \<le> length bs \<Longrightarrow> k < length bs \<Longrightarrow>
   memset bs off v n ! k = (if off \<le> k \<and> k < off + n then v else bs ! k)"
  by (auto simp: memset_def nth_append min_def)

lemma length_memset [simp]: "off + n \<le> length bs \<Longrightarrow> length (memset bs off v n) = length bs"
  by (simp add: memset_def)

lemma grow_bytes_bit:
  assumes "s \<le> 8 * n" "n = (s + 7) div 8" "n \<le> m" "m \<le> length bs" "i div 8 < m"
    and "\<not> v \<longrightarrow> (\<forall>i. s \<le> i \<longrightarrow> i div 8 < n \<longrightarrow> \<not> bit (bs ! (i div 8)) (7 - i mod 8))"
  shows "bit (grow_bytes s n m v bs ! (i div 8)) (7 - i mod 8) \<longleftrightarrow>
     (if i < s then bit (bs ! (i div 8)) (7 - i mod 8) else v)"
proof (cases "i div 8 < n")
  case True
  have dff: "bit (drop_bit (s mod 8) (0xff :: byte)) k \<longleftrightarrow> k + s mod 8 < 8" for k
    by (auto simp: bit_drop_bit_eq add.commute)
  show ?thesis
  proof (cases "v \<and> s mod 8 \<noteq> 0 \<and> i div 8 = n - 1")
    case t: True
    have "7 - i mod 8 + s mod 8 < 8 \<longleftrightarrow> \<not> i < s"
    proof -
      have "i div 8 = s div 8" using t assms(2) partial_byte [of s] by simp
      then have "i = 8 * (s div 8) + i mod 8" by (metis mult_div_mod_eq)
      moreover have "s = 8 * (s div 8) + s mod 8" "i mod 8 < 8" "s mod 8 < 8" by simp_all
      ultimately show ?thesis by linarith
    qed
    then show ?thesis
      using t True assms(3-5) by (simp add: grow_bytes_def Let_def nth_memset bit_or_iff dff)
  next
    case f: False
    have "i < s" if v: "v"
    proof (cases "s mod 8 = 0")
      case True
      with \<open>i div 8 < n\<close> show ?thesis using whole_bytes(1) [of i s] assms(2) by force
    next
      case False
      with f v \<open>i div 8 < n\<close> have "i div 8 + 1 < (s + 7) div 8" using assms(2) by simp
      then show ?thesis by linarith
    qed
    with f True assms(3-6) show ?thesis
      by (cases v) (auto simp: grow_bytes_def Let_def nth_memset)
  qed
next
  case False
  with assms(2) have "\<not> i < s" using bytes_needed [of i s] by auto
  with False assms(3-5) show ?thesis
    by (simp add: grow_bytes_def Let_def nth_memset)
qed

lemma length_grow_bytes [simp]:
  "n \<le> m \<Longrightarrow> m \<le> length bs \<Longrightarrow> length (grow_bytes s n m v bs) = length bs"
  by (simp add: grow_bytes_def Let_def)

lemma bf_grown:
  assumes "bf_wf b" "bf_size b < bits"
  defines "r \<equiv> \<lambda>junk. bf_resize junk b bits"
  defines "g \<equiv> \<lambda>junk v. r junk\<lparr>bf_bytes := map_option
      (grow_bytes (bf_size b) ((bf_size b + 7) div 8) ((bits + 7) div 8) v) (bf_bytes (r junk))\<rparr>"
  shows "(bits + 7) div 8 \<le> length (bytes_of (g junk v))" "bf_bytes (g junk v) \<noteq> None"
    and "i div 8 < (bits + 7) div 8 \<Longrightarrow>
         get_bit (g junk v) i = (if i < bf_size b then get_bit b i else v)"
proof -
  have rwf: "bf_wf (r junk)" unfolding r_def by (rule bf_resize_wf [OF assms(1)])
  then obtain bs where bs: "bf_bytes (r junk) = Some bs" "(bits + 7) div 8 \<le> length bs"
    using assms(2) by (cases "bf_bytes (r junk)") (auto simp: bf_wf_def r_def)
  have le: "(bf_size b + 7) div 8 \<le> (bits + 7) div 8"
    using assms(2) by (simp add: div_le_mono)
  show "(bits + 7) div 8 \<le> length (bytes_of (g junk v))" "bf_bytes (g junk v) \<noteq> None"
    using bs le by (simp_all add: g_def)
  assume i: "i div 8 < (bits + 7) div 8"
  have old: "bit (bs ! (j div 8)) (7 - j mod 8) = get_bit b j" if "j div 8 < (bf_size b + 7) div 8" "j < bits" for j
    using bf_resize_get [OF assms(1) that, of junk] bs by (simp add: get_bit_iff r_def)
  have tail: "\<not> bit (bs ! (j div 8)) (7 - j mod 8)"
    if "bf_size b \<le> j" "j div 8 < (bf_size b + 7) div 8" for j
  proof (cases "j < bits")
    case True
    then show ?thesis using old [OF that(2)] wf_tail_clear [OF assms(1) that] by simp
  next
    case False
    then show ?thesis
      using wf_tail_clear [OF rwf, of j] that(2) le bs by (simp add: r_def get_bit_iff)
  qed
  have "get_bit (g junk v) i \<longleftrightarrow> (if i < bf_size b then bit (bs ! (i div 8)) (7 - i mod 8) else v)"
    using grow_bytes_bit [of "bf_size b" "(bf_size b + 7) div 8" "(bits + 7) div 8" bs i v] bs le i tail
    by (simp add: get_bit_iff g_def)
  then show "get_bit (g junk v) i = (if i < bf_size b then get_bit b i else v)"
    using old [of i] assms(2) bytes_needed [of i "bf_size b"] by simp
qed

lemma bf_resize_val_size [simp]: "bf_size (bf_resize_val junk b bits v) = bits"
  by (simp add: bf_resize_val_def Let_def)

lemma bf_resize_val_bits:
  assumes "bf_wf b"
  shows "bits_of (bf_resize_val junk b bits v) = vec_resize (bits_of b) bits v"
proof (rule nth_equalityI)
  fix i assume "i < length (bits_of (bf_resize_val junk b bits v))"
  then have i: "i < bits" by simp
  show "bits_of (bf_resize_val junk b bits v) ! i = vec_resize (bits_of b) bits v ! i"
  proof (cases "bf_size b < bits")
    case True
    then show ?thesis
      using i bf_grown(1,2) [OF assms True, of v junk] bf_grown(3) [OF assms True, of i v junk] bytes_needed [OF i]
      by (auto simp: nth_bits_of nth_vec_resize bf_resize_val_def Let_def get_clear_trailing)
  next
    case False
    then show ?thesis
      using i bf_resize_get [OF assms, of i bits junk] bytes_needed [of i "bf_size b"]
      by (simp add: nth_bits_of nth_vec_resize bf_resize_val_def)
  qed
qed simp

lemma bf_resize_val_wf:
  assumes "bf_wf b"
  shows "bf_wf (bf_resize_val junk b bits v)"
proof (cases "bf_size b < bits")
  case True
  note g = bf_grown(1,2) [OF assms True, of v junk] bf_grown(3) [OF assms True, of _ v junk]
  show ?thesis
  proof (cases v)
    case t: True
    with True g show ?thesis
      by (auto simp: bf_resize_val_def Let_def intro!: clear_trailing_wf)
  next
    case False
    with True g show ?thesis
      by (auto simp: bf_resize_val_def Let_def bf_wf_def)
  qed
next
  case False
  with bf_resize_wf [OF assms] show ?thesis by (simp add: bf_resize_val_def)
qed
lemma bitfield_empty_wf: "bf_wf bitfield_empty"
  by (simp add: bf_wf_def bitfield_empty_def)

subsection \<open>The interface the clients rely on\<close>

text \<open>
  A packed set of indices, as the piece picker and the peer connections use it: the bit
  sequence of a value, updates of one position, and growth.
\<close>

locale bit_sequence =
  fixes bits :: "'b \<Rightarrow> bool list"
    and invar :: "'b \<Rightarrow> bool"
    and setb :: "'b \<Rightarrow> nat \<Rightarrow> 'b"
    and clrb :: "'b \<Rightarrow> nat \<Rightarrow> 'b"
    and resize :: "'b \<Rightarrow> nat \<Rightarrow> bool \<Rightarrow> 'b"
  assumes bits_setb: "invar b \<Longrightarrow> i < length (bits b) \<Longrightarrow> bits (setb b i) = (bits b)[i := True]"
    and bits_clrb: "invar b \<Longrightarrow> i < length (bits b) \<Longrightarrow> bits (clrb b i) = (bits b)[i := False]"
    and bits_resize: "invar b \<Longrightarrow> bits (resize b n v) = vec_resize (bits b) n v"
    and invar_setb: "invar b \<Longrightarrow> i < length (bits b) \<Longrightarrow> invar (setb b i)"
    and invar_clrb: "invar b \<Longrightarrow> i < length (bits b) \<Longrightarrow> invar (clrb b i)"
    and invar_resize: "invar b \<Longrightarrow> invar (resize b n v)"
begin

lemma bits_fold_setb:
  "invar b \<Longrightarrow> \<forall>i \<in> set is. i < length (bits b) \<Longrightarrow>
   invar (foldl setb b is) \<and>
   bits (foldl setb b is) = map (\<lambda>i. bits b ! i \<or> i \<in> set is) [0..<length (bits b)]"
proof (induction "is" arbitrary: b)
  case Nil
  then show ?case by (simp add: map_nth)
next
  case (Cons i is')
  then have i: "i < length (bits b)" and "invar (setb b i)" "length (bits (setb b i)) = length (bits b)"
    by (simp_all add: invar_setb bits_setb)
  with Cons show ?case
    by (auto simp: bits_setb nth_list_update)
qed

lemma bits_set_clear:
  "invar b \<Longrightarrow> i < length (bits b) \<Longrightarrow> \<not> bits b ! i \<Longrightarrow> bits (clrb (setb b i) i) = bits b"
  by (simp add: bits_clrb bits_setb invar_setb) (metis list_update_id)

lemma bits_grow_shrink:
  "invar b \<Longrightarrow> length (bits b) \<le> n \<Longrightarrow> bits (resize (resize b n v) (length (bits b)) w) = bits b"
  by (simp add: bits_resize invar_resize vec_resize_def)

end

interpretation bfs: bit_sequence bits_of bf_wf set_bit clear_bit "bf_resize_val junk"
  by unfold_locales
     (simp_all add: bits_of_set_bit bits_of_clear_bit bf_resize_val_bits set_bit_wf clear_bit_wf
       bf_resize_val_wf)

end
