(* ===== verification/Piece_Picker.thy ===== *)
theory Piece_Picker
  imports Bitfield
begin

text \<open>
  \<^verbatim>\<open>include/libtorrent/piece_picker.hpp\<close> and \<^verbatim>\<open>src/piece_picker.cpp\<close>: the data of the
  piece picker and every operation that changes it, in the default configuration
  (\<^verbatim>\<open>TORRENT_COMPACT_PICKER == 0\<close>, no debug logging). \<open>peer_count\<close> keeps its 16 bits and
  \<open>num_peers\<close> its 14 bits, since both are incremented and decremented without a check.
  \<^verbatim>\<open>downloading_piece::info\<close>, a pointer into \<^verbatim>\<open>m_block_info\<close>, is the offset it points
  to, so a reallocation of the vector needs no fix-up. A peer pointer is a number, 0 the
  null pointer. Every call of \<^verbatim>\<open>random()\<close> is an argument \<open>rnd\<close>: the value it returns.
\<close>

subsection \<open>Data\<close>

record piece_pos =
  pp_peer_count :: "16 word"
  pp_downloading :: bool
  pp_full :: bool
  pp_priority :: nat
  pp_index :: nat

definition we_have_index :: nat where
  "we_have_index = 0xffffffff"

definition piece_pos_init :: "nat \<Rightarrow> nat \<Rightarrow> piece_pos" where
  "piece_pos_init peer_cnt idx =
     \<lparr>pp_peer_count = of_nat peer_cnt, pp_downloading = False, pp_full = False,
      pp_priority = 1, pp_index = idx\<rparr>"

definition pp_have :: "piece_pos \<Rightarrow> bool" where
  "pp_have p \<longleftrightarrow> pp_index p = we_have_index"

definition pp_filtered :: "piece_pos \<Rightarrow> bool" where
  "pp_filtered p \<longleftrightarrow> pp_priority p = 0"

text \<open>\<^verbatim>\<open>piece_pos::priority\<close>; \<open>priority_levels = 8\<close> and \<open>prio_factor = 4\<close>.\<close>

definition priority :: "int \<Rightarrow> piece_pos \<Rightarrow> int" where
  "priority seeds p =
     (if pp_filtered p \<or> pp_have p \<or> uint (pp_peer_count p) + seeds = 0 then -1
      else if pp_priority p = 8 - 1 then 1 - of_bool (pp_downloading p)
      else
        let availability = (if pp_priority p \<ge> 8 div 2 then uint (pp_peer_count p) div 2
                            else uint (pp_peer_count p));
            q = (if pp_priority p \<ge> 8 div 2 then int (pp_priority p) - (8 - 2) div 2
                 else int (pp_priority p))
        in if pp_downloading p then availability * 4
           else availability * 4 + 8 div 2 - q)"

datatype block_state = state_none | state_requested | state_writing | state_finished

record block_info =
  bi_peer :: nat
  bi_num_peers :: "14 word"
  bi_state :: block_state

definition block_info_init :: block_info where
  "block_info_init = \<lparr>bi_peer = 0, bi_num_peers = 0, bi_state = state_none\<rparr>"

datatype piece_state_t = none | slow | medium | fast

record downloading_piece =
  dp_state :: piece_state_t
  dp_index :: nat
  dp_info :: nat
  dp_finished :: int
  dp_writing :: int
  dp_requested :: int

record piece_block =
  piece_index :: nat
  block_index :: nat

record piece_picker =
  m_seeds :: int
  m_pieces :: "int list"
  m_priority_boundries :: "nat list"
  m_piece_map :: "piece_pos list"
  m_downloads :: "downloading_piece list"
  m_block_info :: "block_info list"
  m_blocks_per_piece :: nat
  m_blocks_in_last_piece :: nat
  m_num_filtered :: int
  m_num_have_filtered :: int
  m_num_have :: int
  m_cursor :: nat
  m_reverse_cursor :: nat
  m_sparse_regions :: int
  m_dirty :: bool

abbreviation prio_of :: "piece_picker \<Rightarrow> nat \<Rightarrow> int" where
  "prio_of s i \<equiv> priority (m_seeds s) (m_piece_map s ! i)"

definition num_pieces :: "piece_picker \<Rightarrow> nat" where
  "num_pieces s = length (m_piece_map s)"

definition have_piece :: "piece_picker \<Rightarrow> nat \<Rightarrow> bool" where
  "have_piece s i \<longleftrightarrow> pp_index (m_piece_map s ! i) = we_have_index"

definition num_want_left :: "piece_picker \<Rightarrow> int" where
  "num_want_left s = int (num_pieces s) - m_num_have s - m_num_filtered s"

definition piece_picker_init :: piece_picker where
  "piece_picker_init =
     \<lparr>m_seeds = 0, m_pieces = [], m_priority_boundries = [0], m_piece_map = [], m_downloads = [],
      m_block_info = [], m_blocks_per_piece = 0, m_blocks_in_last_piece = 0, m_num_filtered = 0,
      m_num_have_filtered = 0, m_num_have = 0, m_cursor = 0, m_reverse_cursor = 0,
      m_sparse_regions = 1, m_dirty = False\<rparr>"

text \<open>
  The two loops that move a cursor over pieces that need not be downloaded: forward from
  \<open>c\<close>, and backward from \<open>r\<close> (the piece looked at is \<open>r - 1\<close>).
\<close>

definition unwanted :: "piece_pos \<Rightarrow> bool" where
  "unwanted p \<longleftrightarrow> pp_have p \<or> pp_filtered p"

definition cursor_forward :: "piece_pos list \<Rightarrow> nat \<Rightarrow> nat" where
  "cursor_forward pm c = c + length (takeWhile unwanted (drop c pm))"

definition cursor_backward :: "piece_pos list \<Rightarrow> nat \<Rightarrow> nat" where
  "cursor_backward pm r = r - length (takeWhile unwanted (rev (take r pm)))"

definition picker_init :: "piece_picker \<Rightarrow> nat \<Rightarrow> nat \<Rightarrow> nat \<Rightarrow> piece_picker" where
  "picker_init s blocks_per_piece blocks_in_last_piece total_num_pieces =
     (let pm0 = vec_resize (m_piece_map s) total_num_pieces (piece_pos_init 0 0);
          pm = map (\<lambda>p. p\<lparr>pp_peer_count := 0, pp_downloading := False, pp_index := 0\<rparr>) pm0
      in s\<lparr>m_piece_map := pm, m_downloads := [], m_block_info := [],
           m_num_filtered := m_num_filtered s + m_num_have_filtered s,
           m_num_have_filtered := 0, m_num_have := 0, m_dirty := True,
           m_cursor := cursor_forward pm 0,
           m_reverse_cursor := cursor_backward pm (length pm0),
           m_blocks_per_piece := blocks_per_piece,
           m_blocks_in_last_piece :=
             (if blocks_in_last_piece = 0 then blocks_per_piece else blocks_in_last_piece)\<rparr>)"

subsection \<open>The list of partially downloaded pieces\<close>

definition blocks_in_piece :: "piece_picker \<Rightarrow> nat \<Rightarrow> nat" where
  "blocks_in_piece s i =
     (if i + 1 = length (m_piece_map s) then m_blocks_in_last_piece s else m_blocks_per_piece s)"

text \<open>\<^verbatim>\<open>std::lower_bound\<close> on the list ordered by index.\<close>

definition dl_lower_bound :: "downloading_piece list \<Rightarrow> nat \<Rightarrow> nat" where
  "dl_lower_bound dls i = length (takeWhile (\<lambda>d. dp_index d < i) dls)"

definition find_dl_piece :: "piece_picker \<Rightarrow> nat \<Rightarrow> nat option" where
  "find_dl_piece s i =
     (let k = dl_lower_bound (m_downloads s) i in
      if k = length (m_downloads s) then None
      else if dp_index (m_downloads s ! k) = i then Some k
      else None)"

definition fill_blocks :: "block_info list \<Rightarrow> nat \<Rightarrow> nat \<Rightarrow> block_info list" where
  "fill_blocks bi off n = foldl (\<lambda>b i. b[off + i := block_info_init]) bi [0..<n]"

text \<open>\<^verbatim>\<open>add_download_piece\<close> also returns the position of the new entry.\<close>

definition add_download_piece :: "piece_picker \<Rightarrow> nat \<Rightarrow> piece_picker \<times> nat" where
  "add_download_piece s piece =
     (let num_downloads = length (m_downloads s);
          bindex = num_downloads * m_blocks_per_piece s;
          bi = (if length (m_block_info s) < bindex + m_blocks_per_piece s
                then vec_resize (m_block_info s) (bindex + m_blocks_per_piece s) block_info_init
                else m_block_info s);
          i = dl_lower_bound (m_downloads s) piece;
          dp = \<lparr>dp_state = none, dp_index = piece, dp_info = bindex,
                dp_finished = 0, dp_writing = 0, dp_requested = 0\<rparr>
      in (s\<lparr>m_block_info := fill_blocks bi bindex (m_blocks_per_piece s),
            m_downloads := vec_insert (m_downloads s) i dp\<rparr>, i))"

definition copy_blocks :: "block_info list \<Rightarrow> nat \<Rightarrow> nat \<Rightarrow> nat \<Rightarrow> block_info list" where
  "copy_blocks bi src dst n = foldl (\<lambda>b i. b[dst + i := b ! (src + i)]) bi [0..<n]"

text \<open>
  \<^verbatim>\<open>erase_download_piece\<close> frees the block slot of entry \<open>i\<close>: the entry that owns the
  last slot moves into it. (\<^verbatim>\<open>std::find_if\<close> always finds that entry; \<open>None\<close> would be the
  end iterator.)
\<close>

definition find_info :: "downloading_piece list \<Rightarrow> nat \<Rightarrow> nat option" where
  "find_info dls off =
     (let k = length (takeWhile (\<lambda>d. dp_info d \<noteq> off) dls) in
      if k < length dls then Some k else None)"

definition erase_download_piece :: "piece_picker \<Rightarrow> nat \<Rightarrow> piece_picker" where
  "erase_download_piece s i =
     (let dls = m_downloads s;
          d = dls ! i;
          (bi, dls') =
            (case find_info dls ((length dls - 1) * m_blocks_per_piece s) of
               None \<Rightarrow> (m_block_info s, dls)
             | Some oth \<Rightarrow>
                 if i \<noteq> oth
                 then (copy_blocks (m_block_info s) (dp_info (dls ! oth)) (dp_info d) (m_blocks_per_piece s),
                       dls[oth := (dls ! oth)\<lparr>dp_info := dp_info d\<rparr>])
                 else (m_block_info s, dls))
      in s\<lparr>m_block_info := bi,
           m_piece_map := (m_piece_map s)[dp_index d := (m_piece_map s ! dp_index d)\<lparr>pp_downloading := False\<rparr>],
           m_downloads := vec_erase dls' i\<rparr>)"

definition update_full :: "piece_picker \<Rightarrow> nat \<Rightarrow> piece_picker" where
  "update_full s k =
     (let dp = m_downloads s ! k in
      s\<lparr>m_piece_map := (m_piece_map s)[dp_index dp := (m_piece_map s ! dp_index dp)
          \<lparr>pp_full := (dp_requested dp + dp_finished dp + dp_writing dp = int (blocks_in_piece s (dp_index dp)))\<rparr>]\<rparr>)"

subsection \<open>The priority buckets\<close>

definition priority_range :: "nat list \<Rightarrow> nat \<Rightarrow> nat \<times> nat" where
  "priority_range B prio = (if prio = 0 then 0 else B ! (prio - 1), B ! prio)"

definition set_index :: "piece_pos list \<Rightarrow> int \<Rightarrow> nat \<Rightarrow> piece_pos list" where
  "set_index pm x v = pm[nat x := (pm ! nat x)\<lparr>pp_index := v\<rparr>]"

text \<open>
  \<^verbatim>\<open>add\<close>: \<open>add_shift\<close> is its inner do-while loop (it returns the boundaries, \<^verbatim>\<open>temp\<close> and
  \<^verbatim>\<open>priority\<close>), \<open>add_loop\<close> the outer one.
\<close>

function add_shift :: "nat list \<Rightarrow> nat \<Rightarrow> nat \<Rightarrow> nat list \<times> nat \<times> nat" where
  "add_shift B q new_index =
     (let temp = B ! q; B' = B[q := temp + 1] in
      if temp = new_index \<and> q + 1 < length B then add_shift B' (q + 1) new_index
      else (B', temp, q + 1))"
  by pat_completeness auto
termination
  by (relation "measure (\<lambda>(B, q, i). length B - q)") auto

declare add_shift.simps [simp del]

lemma add_shift_progress:
  "add_shift B q i = (B', t, q') \<Longrightarrow> length B' = length B \<and> q < q'"
  by (induction B q i rule: add_shift.induct)
     (subst (asm) (2) add_shift.simps, auto simp: Let_def split: if_splits)

function add_loop ::
  "int list \<Rightarrow> piece_pos list \<Rightarrow> nat list \<Rightarrow> nat \<Rightarrow> nat \<Rightarrow> int
   \<Rightarrow> int list \<times> piece_pos list \<times> nat list \<times> nat \<times> int" where
  "add_loop mp pm B q new_index index =
     (let temp = mp ! new_index;
          mp' = mp[new_index := index];
          pm' = set_index pm index new_index
      in case add_shift B q new_index of (B', new_index', q') \<Rightarrow>
           if q' \<ge> length B' then (mp', pm', B', new_index', temp)
           else add_loop mp' pm' B' q' new_index' temp)"
  by pat_completeness auto
termination
  by (relation "measure (\<lambda>(mp, pm, B, q, i, x). length B - q)")
     (auto dest!: add_shift_progress [OF sym])

declare add_loop.simps [simp del]

definition picker_add :: "nat \<Rightarrow> piece_picker \<Rightarrow> nat \<Rightarrow> piece_picker" where
  "picker_add rnd s index =
     (let prio = nat (prio_of s index);
          B = (if length (m_priority_boundries s) \<le> prio
               then vec_resize (m_priority_boundries s) (prio + 1) (length (m_pieces s))
               else m_priority_boundries s);
          (range_start, range_end) = priority_range B prio;
          new_index = (if range_end = range_start then range_start
                       else rnd mod (range_end - range_start + 1) + range_start);
          (mp, pm, B', last_index, x) =
             add_loop (m_pieces s @ [-1]) (m_piece_map s) B prio new_index (int index);
          (mp', pm') = (if x \<noteq> -1 then (mp[last_index := x], set_index pm x last_index) else (mp, pm))
      in s\<lparr>m_pieces := mp', m_piece_map := pm', m_priority_boundries := B'\<rparr>)"

text \<open>\<^verbatim>\<open>remove\<close>, with the inner do-while loop \<open>remove_shift\<close>.\<close>

function remove_shift :: "nat list \<Rightarrow> nat \<Rightarrow> nat \<Rightarrow> nat list \<times> nat \<times> nat" where
  "remove_shift B q next_index =
     (let temp = B ! q - 1; B' = B[q := temp] in
      if next_index = temp \<and> q + 1 < length B then remove_shift B' (q + 1) next_index
      else (B', temp, q + 1))"
  by pat_completeness auto
termination
  by (relation "measure (\<lambda>(B, q, i). length B - q)") auto

declare remove_shift.simps [simp del]

lemma remove_shift_progress:
  "remove_shift B q i = (B', t, q') \<Longrightarrow> length B' = length B \<and> q < q'"
proof (induction B q i rule: remove_shift.induct)
  case (1 B q i)
  show ?case
    using 1(1) [OF refl refl] 1(2)
    by (subst (asm) (2) remove_shift.simps) (auto simp: Let_def split: if_splits)
qed

function remove_loop ::
  "int list \<Rightarrow> piece_pos list \<Rightarrow> nat list \<Rightarrow> nat \<Rightarrow> nat \<Rightarrow> nat
   \<Rightarrow> int list \<times> piece_pos list \<times> nat list" where
  "remove_loop mp pm B q next_index elem_index =
     (case remove_shift B q next_index of (B', temp, q') \<Rightarrow>
        if next_index = temp then (mp, pm, B')
        else
          let piece = mp ! temp;
              mp' = mp[elem_index := piece];
              pm' = set_index pm piece elem_index
          in if q' \<ge> length B' then (mp', pm', B')
             else remove_loop mp' pm' B' q' temp temp)"
  by pat_completeness auto
termination
  by (relation "measure (\<lambda>(mp, pm, B, q, n, e). length B - q)")
     (auto dest!: remove_shift_progress [OF sym])

declare remove_loop.simps [simp del]

definition picker_remove :: "piece_picker \<Rightarrow> nat \<Rightarrow> nat \<Rightarrow> piece_picker" where
  "picker_remove s prio elem_index =
     (case remove_loop (m_pieces s) (m_piece_map s) (m_priority_boundries s) prio elem_index elem_index of
        (mp, pm, B) \<Rightarrow> s\<lparr>m_pieces := butlast mp, m_piece_map := pm, m_priority_boundries := B\<rparr>)"

definition picker_shuffle :: "nat \<Rightarrow> piece_picker \<Rightarrow> nat \<Rightarrow> nat \<Rightarrow> piece_picker" where
  "picker_shuffle rnd s prio elem_index =
     (let (range_start, range_end) = priority_range (m_priority_boundries s) prio;
          other_index = rnd mod (range_end - range_start) + range_start
      in if other_index = elem_index then s
         else
           let x1 = m_pieces s ! other_index; x2 = m_pieces s ! elem_index;
               i1 = pp_index (m_piece_map s ! nat x1); i2 = pp_index (m_piece_map s ! nat x2)
           in s\<lparr>m_piece_map := set_index (set_index (m_piece_map s) x1 i2) x2 i1,
                m_pieces := (m_pieces s)[other_index := x2, elem_index := x1]\<rparr>)"

text \<open>
  \<^verbatim>\<open>update\<close>: \<open>update_down\<close> and \<open>update_up\<close> are its two loops, towards a lower and a higher
  bucket; they return the vectors and the final \<^verbatim>\<open>elem_index\<close>.
\<close>

function update_down ::
  "int list \<Rightarrow> piece_pos list \<Rightarrow> nat list \<Rightarrow> nat \<Rightarrow> nat \<Rightarrow> nat \<Rightarrow> int
   \<Rightarrow> int list \<times> piece_pos list \<times> nat list \<times> nat" where
  "update_down mp pm B prio new_priority elem_index temp =
     (let prio' = prio - 1;
          new_index = B ! prio';
          B' = B[prio' := new_index + 1];
          (temp', mp', pm') =
            (if temp \<noteq> mp ! new_index
             then (mp ! new_index, mp[elem_index := mp ! new_index],
                   set_index pm (mp ! new_index) elem_index)
             else (temp, mp, pm))
      in if prio' \<le> new_priority then (mp', pm', B', new_index)
         else update_down mp' pm' B' prio' new_priority new_index temp')"
  by pat_completeness auto
termination
  by (relation "measure (\<lambda>(mp, pm, B, prio, np, e, t). prio)") auto

declare update_down.simps [simp del]

function update_up ::
  "int list \<Rightarrow> piece_pos list \<Rightarrow> nat list \<Rightarrow> nat \<Rightarrow> nat \<Rightarrow> nat \<Rightarrow> int
   \<Rightarrow> int list \<times> piece_pos list \<times> nat list \<times> nat" where
  "update_up mp pm B prio new_priority elem_index temp =
     (let new_index = B ! prio - 1;
          B' = B[prio := new_index];
          (temp', mp', pm') =
            (if temp \<noteq> mp ! new_index
             then (mp ! new_index, mp[elem_index := mp ! new_index],
                   set_index pm (mp ! new_index) elem_index)
             else (temp, mp, pm))
      in if prio + 1 \<ge> new_priority then (mp', pm', B', new_index)
         else update_up mp' pm' B' (prio + 1) new_priority new_index temp')"
  by pat_completeness auto
termination
  by (relation "measure (\<lambda>(mp, pm, B, prio, np, e, t). np - prio)") auto

declare update_up.simps [simp del]

definition picker_update :: "nat \<Rightarrow> piece_picker \<Rightarrow> nat \<Rightarrow> nat \<Rightarrow> piece_picker" where
  "picker_update rnd s prio elem_index =
     (let index = m_pieces s ! elem_index;
          new_priority = prio_of s (nat index)
      in if new_priority = int prio then s
         else if new_priority = -1 then picker_remove s prio elem_index
         else
           let np = nat new_priority;
               B = (if length (m_priority_boundries s) \<le> np
                    then vec_resize (m_priority_boundries s) (np + 1) (length (m_pieces s))
                    else m_priority_boundries s);
               (mp, pm, B', e) =
                 (if prio > np then update_down (m_pieces s) (m_piece_map s) B prio np elem_index index
                  else update_up (m_pieces s) (m_piece_map s) B prio np elem_index index)
           in picker_shuffle rnd
                (s\<lparr>m_pieces := mp[e := index], m_piece_map := set_index pm index e,
                   m_priority_boundries := B'\<rparr>) np e)"

end
