(* ===== verification/Picker_Loops.thy ===== *)
theory Picker_Loops
  imports Piece_Picker
begin

text \<open>
  The order of \<^verbatim>\<open>m_pieces\<close>. A state of the vectors \<^verbatim>\<open>m_pieces\<close> and
  \<^verbatim>\<open>m_priority_boundries\<close> is a list of buckets: \<open>m_pieces\<close> is their concatenation and
  the boundaries are the positions where they end. The loops of \<^verbatim>\<open>add\<close>, \<^verbatim>\<open>remove\<close> and
  \<^verbatim>\<open>update\<close> turn one list of buckets into another, moving one element of each bucket they
  pass, and keep \<^verbatim>\<open>piece_pos::index\<close> pointing at the right position.
\<close>

subsection \<open>Buckets\<close>

fun bounds :: "nat \<Rightarrow> 'a list list \<Rightarrow> nat list" where
  "bounds off [] = []"
| "bounds off (b # bs) = (off + length b) # bounds (off + length b) bs"

lemma length_bounds [simp]: "length (bounds off bs) = length bs"
  by (induction bs arbitrary: off) auto

lemma bounds_append: "bounds off (bs @ cs) = bounds off bs @ bounds (off + length (concat bs)) cs"
  by (induction bs arbitrary: off) (auto simp: add.assoc)

lemma bounds_empties: "\<forall>e \<in> set es. e = [] \<Longrightarrow> bounds off es = replicate (length es) off"
  by (induction es) auto

lemma bounds_cong_length: "map length bs = map length cs \<Longrightarrow> bounds off bs = bounds off cs"
  by (induction bs arbitrary: cs off) auto

lemma bounds_rotate1 [simp]: "bounds off (map rotate1 bs) = bounds off bs"
  by (rule bounds_cong_length) simp

lemma bounds_Nil_iff [simp]: "bounds off bs = [] \<longleftrightarrow> bs = []"
  by (cases bs) auto

lemma last_bounds: "bs \<noteq> [] \<Longrightarrow> last (bounds off bs) = off + length (concat bs)"
  by (induction bs arbitrary: off) (auto simp: add.assoc)

lemma nth_bounds:
  "k < length bs \<Longrightarrow> bounds off bs ! k = off + length (concat (take (Suc k) bs))"
proof (induction bs arbitrary: off k)
  case (Cons b bs)
  then show ?case by (cases k) (auto simp: add.assoc)
qed simp

lemma rotate1_empties: "\<forall>e \<in> set es. e = [] \<Longrightarrow> map rotate1 es = es"
  by (induction es) auto

subsection \<open>Positions\<close>

definition idx_at :: "piece_pos list \<Rightarrow> int list \<Rightarrow> nat \<Rightarrow> bool" where
  "idx_at pm xs off \<longleftrightarrow> (\<forall>j < length xs. pp_index (pm ! nat (xs ! j)) = off + j)"

definition in_map :: "piece_pos list \<Rightarrow> int list \<Rightarrow> bool" where
  "in_map pm xs \<longleftrightarrow> (\<forall>x \<in> set xs. 0 \<le> x \<and> nat x < length pm)"

text \<open>\<open>pm'\<close> differs from \<open>pm\<close> at most in the \<open>index\<close> of the pieces in \<open>S\<close>.\<close>

definition reindexed :: "piece_pos list \<Rightarrow> piece_pos list \<Rightarrow> int set \<Rightarrow> bool" where
  "reindexed pm pm' S \<longleftrightarrow> length pm' = length pm \<and>
     (\<forall>k < length pm. pm' ! k = (pm ! k)\<lparr>pp_index := pp_index (pm' ! k)\<rparr> \<and>
        (int k \<notin> S \<longrightarrow> pm' ! k = pm ! k))"

lemma length_set_index [simp]: "length (set_index pm x v) = length pm"
  by (simp add: set_index_def)

lemma nth_set_index:
  "k < length pm \<Longrightarrow>
   set_index pm x v ! k = (if k = nat x then (pm ! k)\<lparr>pp_index := v\<rparr> else pm ! k)"
  by (auto simp: set_index_def nth_list_update)

lemma in_map_simps [simp]:
  "in_map pm []"
  "in_map pm (x # xs) \<longleftrightarrow> 0 \<le> x \<and> nat x < length pm \<and> in_map pm xs"
  "in_map pm (xs @ ys) \<longleftrightarrow> in_map pm xs \<and> in_map pm ys"
  "in_map (set_index pm z v) xs = in_map pm xs"
  by (auto simp: in_map_def)

lemma idx_at_simps [simp]:
  "idx_at pm [] off"
  "idx_at pm (x # xs) off \<longleftrightarrow> pp_index (pm ! nat x) = off \<and> idx_at pm xs (Suc off)"
proof -
  show "idx_at pm [] off" by (simp add: idx_at_def)
  have "(\<forall>j < Suc (length xs). pp_index (pm ! nat ((x # xs) ! j)) = off + j) \<longleftrightarrow>
     pp_index (pm ! nat x) = off \<and> (\<forall>j < length xs. pp_index (pm ! nat (xs ! j)) = Suc off + j)"
    by (auto simp: less_Suc_eq_0_disj)
  then show "idx_at pm (x # xs) off \<longleftrightarrow> pp_index (pm ! nat x) = off \<and> idx_at pm xs (Suc off)"
    by (simp add: idx_at_def)
qed

lemma idx_at_append [simp]:
  "idx_at pm (xs @ ys) off \<longleftrightarrow> idx_at pm xs off \<and> idx_at pm ys (off + length xs)"
  by (induction xs arbitrary: off) auto

lemma idx_at_set_index:
  "x \<notin> set xs \<Longrightarrow> 0 \<le> x \<Longrightarrow> in_map pm xs \<Longrightarrow> idx_at (set_index pm x v) xs off = idx_at pm xs off"
proof (induction xs arbitrary: off)
  case (Cons y ys)
  then have "nat y \<noteq> nat x" by auto
  with Cons show ?case by (simp add: nth_set_index)
qed simp

lemma reindexed_refl [simp]: "reindexed pm pm S"
  by (simp add: reindexed_def)

lemma reindexed_set_index:
  assumes "reindexed pm pm' S" "x \<in> S" "0 \<le> x"
  shows "reindexed pm (set_index pm' x v) S"
  unfolding reindexed_def
proof (intro conjI allI impI)
  show "length (set_index pm' x v) = length pm" using assms by (simp add: reindexed_def)
next
  fix k assume k: "k < length pm"
  have a: "pm' ! k = (pm ! k)\<lparr>pp_index := pp_index (pm' ! k)\<rparr>" and l: "length pm' = length pm"
    using assms k unfolding reindexed_def by auto
  show "set_index pm' x v ! k = (pm ! k)\<lparr>pp_index := pp_index (set_index pm' x v ! k)\<rparr>"
    using k l by (subst nth_set_index, simp, subst (1 2) a) (simp add: nth_set_index a [symmetric])
  show "set_index pm' x v ! k = pm ! k" if "int k \<notin> S"
    using assms k l that unfolding reindexed_def by (auto simp: nth_set_index)
qed

lemma reindexed_trans:
  assumes "reindexed pm pm' S" "reindexed pm' pm'' S"
  shows "reindexed pm pm'' S"
  unfolding reindexed_def
proof (intro conjI allI impI)
  show "length pm'' = length pm" using assms by (simp add: reindexed_def)
next
  fix k assume k: "k < length pm"
  have a: "pm' ! k = (pm ! k)\<lparr>pp_index := pp_index (pm' ! k)\<rparr>"
    "pm'' ! k = (pm' ! k)\<lparr>pp_index := pp_index (pm'' ! k)\<rparr>"
    using assms k unfolding reindexed_def by auto
  show "pm'' ! k = (pm ! k)\<lparr>pp_index := pp_index (pm'' ! k)\<rparr>"
    by (subst a(2), subst a(1)) simp
  show "pm'' ! k = pm ! k" if "int k \<notin> S"
    using assms k that unfolding reindexed_def by auto
qed

lemma reindexed_mono: "reindexed pm pm' S \<Longrightarrow> S \<subseteq> T \<Longrightarrow> reindexed pm pm' T"
  unfolding reindexed_def by blast

lemma reindexed_length: "reindexed pm pm' S \<Longrightarrow> length pm' = length pm"
  by (simp add: reindexed_def)

lemma reindexed_in_map: "reindexed pm pm' S \<Longrightarrow> in_map pm' xs = in_map pm xs"
  by (simp add: in_map_def reindexed_length)

subsection \<open>The loop of \<^verbatim>\<open>add\<close>\<close>

lemma add_shift_nonempty:
  assumes "\<forall>e \<in> set es. e = []" "c \<noteq> []"
  shows "add_shift (P @ bounds i (es @ c # cs)) (length P) i =
    (P @ replicate (length es) (Suc i) @ Suc (i + length c) # bounds (i + length c) cs,
     i + length c, Suc (length P + length es))"
  using assms
proof (induction es arbitrary: P)
  case Nil
  then show ?case by (simp add: add_shift.simps Let_def)
next
  case (Cons e es)
  have "add_shift (P @ bounds i ((e # es) @ c # cs)) (length P) i =
    add_shift ((P @ [Suc i]) @ bounds i (es @ c # cs)) (length (P @ [Suc i])) i"
    using Cons.prems by (subst add_shift.simps) (simp add: Let_def)
  also have "\<dots> = ((P @ [Suc i]) @ replicate (length es) (Suc i) @ Suc (i + length c) # bounds (i + length c) cs,
     i + length c, Suc (length (P @ [Suc i]) + length es))"
    using Cons by (intro Cons.IH) simp_all
  finally show ?case by simp
qed

lemma add_shift_empty:
  assumes "\<forall>e \<in> set es. e = []" "es \<noteq> []"
  shows "add_shift (P @ bounds i es) (length P) i =
    (P @ replicate (length es) (Suc i), i, length P + length es)"
  using assms
proof (induction es arbitrary: P)
  case (Cons e es)
  show ?case
  proof (cases "es = []")
    case True
    with Cons.prems show ?thesis by (simp add: add_shift.simps Let_def)
  next
    case False
    have "add_shift (P @ bounds i (e # es)) (length P) i =
      add_shift ((P @ [Suc i]) @ bounds i es) (length (P @ [Suc i])) i"
      using Cons.prems False by (subst add_shift.simps) (simp add: Let_def)
    also have "\<dots> = ((P @ [Suc i]) @ replicate (length es) (Suc i), i, length (P @ [Suc i]) + length es)"
      using Cons False by (intro Cons.IH) simp_all
    finally show ?thesis by simp
  qed
qed simp

definition add_finish :: "int list \<times> piece_pos list \<times> nat list \<times> nat \<times> int \<Rightarrow> int list \<times> piece_pos list \<times> nat list" where
  "add_finish r = (case r of (mp, pm, B, i, x) \<Rightarrow>
     if x \<noteq> -1 then (mp[i := x], set_index pm x i, B) else (mp, pm, B))"

text \<open>
  Placing \<open>x\<close> at the first position of the buckets \<open>cs\<close> moves the first element of each of
  them to its end.
\<close>

lemma add_loop_rotate:
  assumes "cs \<noteq> []" "distinct (P @ x # concat cs)" "in_map pm (P @ x # concat cs)"
    and "idx_at pm P 0" "idx_at pm (concat cs) (length P)"
  shows "\<exists>pm'. add_finish (add_loop (P @ concat cs @ [-1]) pm (Bp @ bounds (length P) cs) (length Bp) (length P) x)
       = (P @ x # concat (map rotate1 cs), pm', Bp @ bounds (Suc (length P)) cs)
     \<and> idx_at pm' (P @ x # concat (map rotate1 cs)) 0
     \<and> reindexed pm pm' (set (x # concat cs))"
  using assms
proof (induction cs arbitrary: P x pm Bp rule: length_induct)
  case (1 cs)
  let ?i = "length P"
  show ?case
  proof (cases "\<forall>c \<in> set cs. c = []")
    case True
    then have ces: "concat cs = []" "map rotate1 cs = cs" by (simp_all add: rotate1_empties)
    have "add_loop (P @ concat cs @ [-1]) pm (Bp @ bounds ?i cs) (length Bp) ?i x =
        (P @ [x], set_index pm x ?i, Bp @ replicate (length cs) (Suc ?i), ?i, -1)"
      unfolding ces(1) using 1(2) by (subst add_loop.simps) (simp add: Let_def add_shift_empty [OF True])
    moreover have "idx_at (set_index pm x ?i) (P @ [x]) 0"
      using 1(3-5) by (simp add: idx_at_set_index nth_set_index)
    moreover have "reindexed pm (set_index pm x ?i) (set (x # concat cs))"
      using 1(4) by (intro reindexed_set_index) auto
    ultimately show ?thesis
      unfolding ces using True by (simp add: add_finish_def bounds_empties)
  next
    case False
    then obtain es z c rest where cs: "cs = es @ (z # c) # rest" and es: "\<forall>e \<in> set es. e = []"
      by (metis split_first_nonempty neq_Nil_conv)
    have ces: "concat es = []" "map rotate1 es = es" using es by (simp_all add: rotate1_empties)
    let ?B = "Bp @ replicate (length es) (Suc ?i) @ [Suc (?i + Suc (length c))]"
    let ?P = "P @ x # c" and ?pm = "set_index pm x ?i"
    have sh: "add_shift (Bp @ bounds ?i cs) (length Bp) ?i =
        (?B @ bounds (length ?P) rest, length ?P, length ?B)"
      unfolding cs by (subst add_shift_nonempty [OF es]) simp_all
    have bd: "Bp @ bounds (Suc ?i) cs = ?B @ bounds (Suc (length ?P)) rest"
      unfolding cs bounds_append using es by (simp add: bounds_empties ces)
    have z: "z \<noteq> -1" "z \<noteq> x" and nx: "nat x < length pm" "0 \<le> x" "nat z < length pm" "0 \<le> z"
      using 1(3,4) unfolding cs by auto
    have idP: "idx_at ?pm ?P 0" and idr: "idx_at ?pm (concat rest) (length ?P)"
      using 1(3-6) nx unfolding cs by (simp_all add: ces nth_set_index idx_at_set_index)
    have loop: "add_loop (P @ concat cs @ [-1]) pm (Bp @ bounds ?i cs) (length Bp) ?i x =
       (if rest = [] then (?P @ [-1], ?pm, ?B, length ?P, z)
        else add_loop (?P @ concat rest @ [-1]) ?pm (?B @ bounds (length ?P) rest) (length ?B) (length ?P) z)"
      by (subst add_loop.simps) (simp add: Let_def sh, simp add: cs ces)
    have S: "reindexed pm ?pm (set (x # concat cs))"
      using nx by (auto intro: reindexed_set_index)
    show ?thesis
    proof (cases "rest = []")
      case True
      have "add_finish (add_loop (P @ concat cs @ [-1]) pm (Bp @ bounds ?i cs) (length Bp) ?i x)
         = (P @ x # concat (map rotate1 cs), set_index ?pm z (length ?P), Bp @ bounds (Suc ?i) cs)"
        unfolding loop bd using True z(1) by (simp add: add_finish_def cs ces list_update_append)
      moreover have "reindexed pm (set_index ?pm z (length ?P)) (set (x # concat cs))"
        using S nx by (intro reindexed_set_index) (auto simp: cs)
      moreover have "idx_at (set_index ?pm z (length ?P)) (P @ x # concat (map rotate1 cs)) 0"
        using idP 1(3,4) nx z(2) unfolding cs by (simp add: True ces idx_at_set_index nth_set_index)
      ultimately show ?thesis by blast
    next
      case False
      have "length rest < length cs" by (simp add: cs)
      moreover have "distinct (?P @ z # concat rest)" "in_map ?pm (?P @ z # concat rest)"
        using 1(3,4) unfolding cs by (auto simp: ces)
      ultimately obtain pm' where pm':
        "add_finish (add_loop (?P @ concat rest @ [-1]) ?pm (?B @ bounds (length ?P) rest) (length ?B) (length ?P) z)
           = (?P @ z # concat (map rotate1 rest), pm', ?B @ bounds (Suc (length ?P)) rest)"
        "idx_at pm' (?P @ z # concat (map rotate1 rest)) 0"
        "reindexed ?pm pm' (set (z # concat rest))"
        using 1(1) False idP idr by blast
      have eq: "P @ x # concat (map rotate1 cs) = ?P @ z # concat (map rotate1 rest)"
        by (simp add: cs ces)
      have "reindexed pm pm' (set (x # concat cs))"
        using reindexed_trans [OF S reindexed_mono [OF pm'(3)]] by (auto simp: cs)
      with pm'(1,2) False show ?thesis unfolding loop bd eq by auto
    qed
  qed
qed

subsection \<open>The loop of \<^verbatim>\<open>remove\<close>\<close>

definition rotr :: "'a list \<Rightarrow> 'a list" where
  "rotr c = (if c = [] then [] else last c # butlast c)"

lemma rotr_simps [simp]: "rotr [] = []" "rotr (c @ [z]) = z # c"
  by (simp_all add: rotr_def)

lemma length_rotr [simp]: "length (rotr c) = length c"
  by (simp add: rotr_def)

lemma set_rotr [simp]: "set (rotr c) = set c"
  by (cases c rule: rev_cases) auto

lemma mset_rotr [simp]: "mset (rotr c) = mset c"
  by (cases c rule: rev_cases) auto

lemma distinct_rotr [simp]: "distinct (rotr c) = distinct c"
  by (cases c rule: rev_cases) auto

lemma in_map_rotate [simp]: "in_map pm (rotr c) = in_map pm c" "in_map pm (rotate1 c) = in_map pm c"
  by (simp_all add: in_map_def)

lemma bounds_rotr [simp]: "bounds off (map rotr bs) = bounds off bs"
  by (rule bounds_cong_length) simp

lemma rotr_empties: "\<forall>e \<in> set es. e = [] \<Longrightarrow> map rotr es = es"
  by (induction es) auto

lemma remove_shift_nonempty:
  assumes "\<forall>e \<in> set es. e = []" "c \<noteq> []"
  shows "remove_shift (P @ bounds (Suc i) (es @ c # cs)) (length P) i =
    (P @ replicate (length es) i @ (i + length c) # bounds (Suc (i + length c)) cs,
     i + length c, Suc (length P + length es))"
  using assms
proof (induction es arbitrary: P)
  case Nil
  then show ?case by (simp add: remove_shift.simps Let_def)
next
  case (Cons e es)
  have "remove_shift (P @ bounds (Suc i) ((e # es) @ c # cs)) (length P) i =
    remove_shift ((P @ [i]) @ bounds (Suc i) (es @ c # cs)) (length (P @ [i])) i"
    using Cons.prems by (subst remove_shift.simps) (simp add: Let_def)
  also have "\<dots> = ((P @ [i]) @ replicate (length es) i @ (i + length c) # bounds (Suc (i + length c)) cs,
     i + length c, Suc (length (P @ [i]) + length es))"
    using Cons by (intro Cons.IH) simp_all
  finally show ?case by simp
qed

lemma remove_shift_empty:
  assumes "\<forall>e \<in> set es. e = []" "es \<noteq> []"
  shows "remove_shift (P @ bounds (Suc i) es) (length P) i =
    (P @ replicate (length es) i, i, length P + length es)"
  using assms
proof (induction es arbitrary: P)
  case (Cons e es)
  show ?case
  proof (cases "es = []")
    case True
    with Cons.prems show ?thesis by (simp add: remove_shift.simps Let_def)
  next
    case False
    have "remove_shift (P @ bounds (Suc i) (e # es)) (length P) i =
      remove_shift ((P @ [i]) @ bounds (Suc i) es) (length (P @ [i])) i"
      using Cons.prems False by (subst remove_shift.simps) (simp add: Let_def)
    also have "\<dots> = ((P @ [i]) @ replicate (length es) i, i, length (P @ [i]) + length es)"
      using Cons False by (intro Cons.IH) simp_all
    finally show ?thesis by simp
  qed
qed simp

text \<open>
  With a hole at the position before the buckets \<open>cs\<close>, the last element of each bucket moves
  to its front and the hole ends up behind them all.
\<close>

lemma remove_loop_rotr:
  assumes "cs \<noteq> []" "distinct (P @ concat cs)" "in_map pm (P @ concat cs)"
    and "idx_at pm P 0" "idx_at pm (concat cs) (Suc (length P))"
  shows "\<exists>pm' h'. remove_loop (P @ h # concat cs) pm (Bp @ bounds (Suc (length P)) cs)
         (length Bp) (length P) (length P)
       = (P @ concat (map rotr cs) @ [h'], pm', Bp @ bounds (length P) cs)
     \<and> idx_at pm' (P @ concat (map rotr cs)) 0
     \<and> reindexed pm pm' (set (concat cs))"
  using assms
proof (induction cs arbitrary: P h pm Bp rule: length_induct)
  case (1 cs)
  let ?i = "length P"
  show ?case
  proof (cases "\<forall>c \<in> set cs. c = []")
    case True
    then have ces: "concat cs = []" "map rotr cs = cs" by (simp_all add: rotr_empties)
    have "remove_loop (P @ h # concat cs) pm (Bp @ bounds (Suc ?i) cs) (length Bp) ?i ?i =
        (P @ [h], pm, Bp @ replicate (length cs) ?i)"
      unfolding ces(1) using 1(2) by (subst remove_loop.simps) (simp add: Let_def remove_shift_empty [OF True])
    then show ?thesis
      unfolding ces using True 1(5) by (simp add: bounds_empties)
  next
    case False
    then obtain es c z rest where cs: "cs = es @ (c @ [z]) # rest" and es: "\<forall>e \<in> set es. e = []"
      by (metis split_first_nonempty rev_exhaust)
    have ces: "concat es = []" "map rotr es = es" using es by (simp_all add: rotr_empties)
    let ?B = "Bp @ replicate (length es) ?i @ [?i + Suc (length c)]"
    let ?P = "P @ z # c" and ?pm = "set_index pm z ?i"
    have sh: "remove_shift (Bp @ bounds (Suc ?i) cs) (length Bp) ?i =
        (?B @ bounds (Suc (length ?P)) rest, length ?P, length ?B)"
      unfolding cs by (subst remove_shift_nonempty [OF es]) simp_all
    have bd: "Bp @ bounds ?i cs = ?B @ bounds (length ?P) rest"
      unfolding cs bounds_append using es by (simp add: bounds_empties ces)
    have nz: "nat z < length pm" "0 \<le> z"
      using 1(4) unfolding cs by auto
    have idP: "idx_at ?pm ?P 0" and idr: "idx_at ?pm (concat rest) (Suc (length ?P))"
      using 1(3-6) nz unfolding cs by (simp_all add: ces nth_set_index idx_at_set_index)
    have loop: "remove_loop (P @ h # concat cs) pm (Bp @ bounds (Suc ?i) cs) (length Bp) ?i ?i =
       (if rest = [] then (?P @ [z], ?pm, ?B)
        else remove_loop (?P @ z # concat rest) ?pm (?B @ bounds (Suc (length ?P)) rest) (length ?B) (length ?P) (length ?P))"
      by (subst remove_loop.simps) (simp add: Let_def sh, simp add: cs ces nth_append list_update_append)
    have S: "reindexed pm ?pm (set (concat cs))"
      using nz by (auto intro: reindexed_set_index simp: cs)
    show ?thesis
    proof (cases "rest = []")
      case True
      then have "P @ concat (map rotr cs) = ?P" by (simp add: cs ces)
      with True S idP show ?thesis unfolding loop bd by auto
    next
      case False
      have "length rest < length cs" by (simp add: cs)
      moreover have "distinct (?P @ concat rest)" "in_map ?pm (?P @ concat rest)"
        using 1(3,4) unfolding cs by (auto simp: ces)
      ultimately obtain pm' h' where pm':
        "remove_loop (?P @ z # concat rest) ?pm (?B @ bounds (Suc (length ?P)) rest) (length ?B) (length ?P) (length ?P)
           = (?P @ concat (map rotr rest) @ [h'], pm', ?B @ bounds (length ?P) rest)"
        "idx_at pm' (?P @ concat (map rotr rest)) 0"
        "reindexed ?pm pm' (set (concat rest))"
        using 1(1) False idP idr by blast
      have eq: "P @ concat (map rotr cs) = ?P @ concat (map rotr rest)"
        by (simp add: cs ces)
      have "reindexed pm pm' (set (concat cs))"
        using reindexed_trans [OF S reindexed_mono [OF pm'(3)]] by (auto simp: cs)
      with pm'(1,2) False show ?thesis unfolding loop bd using eq by auto
    qed
  qed
qed

subsection \<open>The loops of \<^verbatim>\<open>update\<close>\<close>

text \<open>Upwards: the hole passes the buckets \<open>cs\<close>; \<open>h\<close> is the stale value in it.\<close>

lemma update_up_rotr:
  assumes "cs \<noteq> []" "distinct (P @ concat cs)" "h \<notin> set (concat cs)" "in_map pm (P @ concat cs)"
    and "idx_at pm P 0" "idx_at pm (concat cs) (Suc (length P))"
    and "length cs = np - length Bp"
  shows "\<exists>pm' h'. update_up (P @ h # concat cs @ R) pm (Bp @ bounds (Suc (length P)) cs @ BR)
         (length Bp) np (length P) h
       = (P @ concat (map rotr cs) @ h' # R, pm', Bp @ bounds (length P) cs @ BR, length (P @ concat cs))
     \<and> idx_at pm' (P @ concat (map rotr cs)) 0
     \<and> reindexed pm pm' (set (concat cs))"
  using assms
proof (induction cs arbitrary: P h pm Bp)
  case (Cons c cs)
  let ?i = "length P"
  define P' where "P' = P @ rotr c"
  define pm1 where "pm1 = (if c = [] then pm else set_index pm (last c) ?i)"
  define h1 where "h1 = (if c = [] then h else last c)"
  have z: "c \<noteq> [] \<Longrightarrow> 0 \<le> last c \<and> nat (last c) < length pm \<and> last c \<noteq> h \<and> last c \<in> set c
      \<and> last c \<notin> set (butlast c) \<and> last c \<notin> set P \<and> last c \<notin> set (concat cs)"
    using Cons.prems(2-4) by (cases c rule: rev_cases) auto
  have len: "length P' = ?i + length c" by (simp add: P'_def)
  have ni: "(P @ h # concat (c # cs) @ R) ! (?i + length c) = h1"
    by (cases c rule: rev_cases) (simp_all add: h1_def nth_append)
  have mv: "(if h \<noteq> h1 then (h1, (P @ h # concat (c # cs) @ R)[?i := h1], set_index pm h1 ?i)
       else (h, P @ h # concat (c # cs) @ R, pm)) = (h1, P' @ h1 # concat cs @ R, pm1)"
    using z by (cases c rule: rev_cases) (auto simp: h1_def P'_def pm1_def)
  have Bi: "(Bp @ bounds (Suc ?i) (c # cs) @ BR) ! length Bp - 1 = ?i + length c"
    by simp
  have Bu: "(Bp @ bounds (Suc ?i) (c # cs) @ BR)[length Bp := ?i + length c] =
      (Bp @ [?i + length c]) @ bounds (Suc (length P')) cs @ BR"
    using len by simp
  have S: "reindexed pm pm1 (set (concat (c # cs)))"
    using z by (auto simp: pm1_def intro: reindexed_set_index)
  have idP: "idx_at pm1 P' 0" and idr: "idx_at pm1 (concat cs) (Suc (length P'))"
    using Cons.prems(3-6) z
    by (cases c rule: rev_cases; simp add: P'_def pm1_def nth_set_index idx_at_set_index)+
  have step: "update_up (P @ h # concat (c # cs) @ R) pm (Bp @ bounds (Suc ?i) (c # cs) @ BR) (length Bp) np ?i h =
     (if cs = [] then (P' @ h1 # R, pm1, Bp @ (?i + length c) # BR, length P')
      else update_up (P' @ h1 # concat cs @ R) pm1 ((Bp @ [?i + length c]) @ bounds (Suc (length P')) cs @ BR)
             (length (Bp @ [?i + length c])) np (length P') h1)"
  proof -
    have "length Bp + 1 \<ge> np \<longleftrightarrow> cs = []" using Cons.prems(7) by (cases cs) auto
    then show ?thesis
      by (subst update_up.simps) (simp only: Let_def Bi Bu ni mv prod.case, simp add: len)
  qed
  show ?case
  proof (cases "cs = []")
    case True
    with step len S idP show ?thesis by (simp add: P'_def)
  next
    case False
    have "\<exists>pm' h'. update_up (P' @ h1 # concat cs @ R) pm1 ((Bp @ [?i + length c]) @ bounds (Suc (length P')) cs @ BR)
             (length (Bp @ [?i + length c])) np (length P') h1 =
        (P' @ concat (map rotr cs) @ h' # R, pm', (Bp @ [?i + length c]) @ bounds (length P') cs @ BR, length (P' @ concat cs))
       \<and> idx_at pm' (P' @ concat (map rotr cs)) 0 \<and> reindexed pm1 pm' (set (concat cs))"
      using Cons.prems z False idP idr S
      by (intro Cons.IH) (auto simp: P'_def h1_def reindexed_in_map [OF S])
    then obtain pm' h' where r: "update_up (P' @ h1 # concat cs @ R) pm1 ((Bp @ [?i + length c]) @ bounds (Suc (length P')) cs @ BR)
             (length (Bp @ [?i + length c])) np (length P') h1 =
        (P' @ concat (map rotr cs) @ h' # R, pm', (Bp @ [?i + length c]) @ bounds (length P') cs @ BR, length (P' @ concat cs))"
       "idx_at pm' (P' @ concat (map rotr cs)) 0" "reindexed pm1 pm' (set (concat cs))"
      by blast
    have "reindexed pm pm' (set (concat (c # cs)))"
      using reindexed_trans [OF S reindexed_mono [OF r(3)]] by auto
    with r step False show ?thesis by (simp add: P'_def add.assoc)
  qed
qed simp

text \<open>Downwards: \<open>starts\<close> are the boundaries in front of each bucket.\<close>

fun starts :: "nat \<Rightarrow> 'a list list \<Rightarrow> nat list" where
  "starts off [] = []"
| "starts off (b # bs) = off # starts (off + length b) bs"

lemma length_starts [simp]: "length (starts off bs) = length bs"
  by (induction bs arbitrary: off) auto

lemma starts_append: "starts off (bs @ cs) = starts off bs @ starts (off + length (concat bs)) cs"
  by (induction bs arbitrary: off) (auto simp: add.assoc)

lemma bounds_starts: "bounds off (b # bs) = starts (off + length b) bs @ [off + length (concat (b # bs))]"
proof (induction bs arbitrary: off b)
  case (Cons c bs)
  have "bounds off (b # c # bs) = (off + length b) # bounds (off + length b) (c # bs)" by simp
  also have "bounds (off + length b) (c # bs) =
      starts (off + length b + length c) bs @ [off + length b + length (concat (c # bs))]"
    by (rule Cons.IH)
  finally show ?case by (simp add: add.assoc)
qed simp

lemma idx_at_reindexed:
  assumes "reindexed pm pm' S" "set xs \<inter> S = {}" "in_map pm xs"
  shows "idx_at pm' xs off = idx_at pm xs off"
  using assms(2,3)
proof (induction xs arbitrary: off)
  case (Cons x xs)
  then have "pm' ! nat x = pm ! nat x" using assms(1) unfolding reindexed_def by auto
  with Cons show ?case by simp
qed simp

lemma update_down_rotate1:
  assumes "cs \<noteq> []" "distinct (concat cs)" "h \<notin> set (concat cs)" "in_map pm (concat cs)"
    and "idx_at pm (concat cs) (length L)"
  shows "\<exists>pm' h'. update_down (L @ concat cs @ h # R) pm (Bp @ starts (length L) cs @ BR)
         (length Bp + length cs) (length Bp) (length (L @ concat cs)) h
       = (L @ h' # concat (map rotate1 cs) @ R, pm', Bp @ starts (Suc (length L)) cs @ BR, length L)
     \<and> idx_at pm' (concat (map rotate1 cs)) (Suc (length L))
     \<and> reindexed pm pm' (set (concat cs))"
  using assms
proof (induction cs arbitrary: h R BR pm rule: rev_induct)
  case (snoc c cs)
  let ?ni = "length (L @ concat cs)"
  define h1 where "h1 = (if c = [] then h else hd c)"
  define pm1 where "pm1 = (if c = [] then pm else set_index pm h1 (?ni + length c))"
  have z: "c \<noteq> [] \<Longrightarrow> 0 \<le> h1 \<and> nat h1 < length pm \<and> h1 \<noteq> h \<and> h1 \<in> set c
      \<and> h1 \<notin> set (tl c) \<and> h1 \<notin> set (concat cs)"
    using snoc.prems(2-4) by (cases c) (auto simp: h1_def)
  have ni: "(L @ concat (cs @ [c]) @ h # R) ! ?ni = h1"
    by (cases c) (simp_all add: h1_def nth_append)
  have mv: "(if h \<noteq> h1 then (h1, (L @ concat (cs @ [c]) @ h # R)[length (L @ concat (cs @ [c])) := h1],
         set_index pm h1 (length (L @ concat (cs @ [c]))))
       else (h, L @ concat (cs @ [c]) @ h # R, pm)) = (h1, L @ concat cs @ h1 # (rotate1 c @ R), pm1)"
    using z by (cases c) (auto simp: h1_def pm1_def list_update_append add.assoc)
  have Bi: "(Bp @ starts (length L) (cs @ [c]) @ BR) ! (length Bp + length (cs @ [c]) - 1) = ?ni"
    by (simp add: starts_append nth_append)
  have Bu: "(Bp @ starts (length L) (cs @ [c]) @ BR)[length Bp + length (cs @ [c]) - 1 := ?ni + 1] =
      Bp @ starts (length L) cs @ Suc ?ni # BR"
    by (simp add: starts_append list_update_append)
  have S: "reindexed pm pm1 (set (concat (cs @ [c])))"
    using z by (auto simp: pm1_def intro: reindexed_set_index)
  have idc: "idx_at pm1 (rotate1 c) (Suc ?ni)" and ids: "idx_at pm1 (concat cs) (length L)"
    using snoc.prems(3-5) z
    by (cases c; simp add: pm1_def nth_set_index idx_at_set_index h1_def)+
  have step: "update_down (L @ concat (cs @ [c]) @ h # R) pm (Bp @ starts (length L) (cs @ [c]) @ BR)
       (length Bp + length (cs @ [c])) (length Bp) (length (L @ concat (cs @ [c]))) h =
     (if cs = [] then (L @ h1 # rotate1 c @ R, pm1, Bp @ Suc ?ni # BR, ?ni)
      else update_down (L @ concat cs @ h1 # (rotate1 c @ R)) pm1 (Bp @ starts (length L) cs @ Suc ?ni # BR)
             (length Bp + length cs) (length Bp) ?ni h1)"
  proof -
    have "length Bp + length (cs @ [c]) - 1 \<le> length Bp \<longleftrightarrow> cs = []" by auto
    then show ?thesis
      by (subst update_down.simps) (simp only: Let_def Bi Bu ni mv prod.case, simp)
  qed
  show ?case
  proof (cases "cs = []")
    case True
    with step S idc show ?thesis by simp
  next
    case False
    have "\<exists>pm' h'. update_down (L @ concat cs @ h1 # (rotate1 c @ R)) pm1 (Bp @ starts (length L) cs @ Suc ?ni # BR)
             (length Bp + length cs) (length Bp) (length (L @ concat cs)) h1 =
        (L @ h' # concat (map rotate1 cs) @ rotate1 c @ R, pm', Bp @ starts (Suc (length L)) cs @ Suc ?ni # BR, length L)
       \<and> idx_at pm' (concat (map rotate1 cs)) (Suc (length L)) \<and> reindexed pm1 pm' (set (concat cs))"
      using snoc.prems z False ids
      by (intro snoc.IH) (auto simp: h1_def reindexed_in_map [OF S])
    then obtain pm' h' where r: "update_down (L @ concat cs @ h1 # (rotate1 c @ R)) pm1 (Bp @ starts (length L) cs @ Suc ?ni # BR)
             (length Bp + length cs) (length Bp) (length (L @ concat cs)) h1 =
        (L @ h' # concat (map rotate1 cs) @ rotate1 c @ R, pm', Bp @ starts (Suc (length L)) cs @ Suc ?ni # BR, length L)"
       "idx_at pm' (concat (map rotate1 cs)) (Suc (length L))" "reindexed pm1 pm' (set (concat cs))"
      by blast
    have "reindexed pm pm' (set (concat (cs @ [c])))"
      using reindexed_trans [OF S reindexed_mono [OF r(3)]] by auto
    moreover have "idx_at pm' (rotate1 c) (Suc ?ni)"
      using idc snoc.prems(2,4)
      by (subst idx_at_reindexed [OF r(3)]) (auto simp: reindexed_in_map [OF S])
    ultimately show ?thesis using r step False by (simp add: starts_append length_concat comp_def)
  qed
qed simp

end
