(* ===== verification/Picker_Buckets.thy ===== *)
theory Picker_Buckets
  imports Picker_Loops
begin

text \<open>
  The invariant of \<^verbatim>\<open>m_pieces\<close>, \<^verbatim>\<open>m_priority_boundries\<close> and the positions in
  \<^verbatim>\<open>m_piece_map\<close>, and that \<^verbatim>\<open>add\<close>, \<^verbatim>\<open>remove\<close>, \<^verbatim>\<open>shuffle\<close> and \<^verbatim>\<open>update\<close> restore it
  after the priority of one piece has changed.
\<close>

subsection \<open>The invariant of the buckets\<close>

fun bkts_ok :: "(nat \<Rightarrow> int) \<Rightarrow> nat \<Rightarrow> int list list \<Rightarrow> bool" where
  "bkts_ok pf k [] = True"
| "bkts_ok pf k (b # bs) = ((\<forall>x \<in> set b. pf (nat x) = int k) \<and> bkts_ok pf (Suc k) bs)"

text \<open>
  \<open>bucketed pf pm mp B\<close>: the pieces of \<open>mp\<close> are exactly the pieces with a priority of at
  least 0 under \<open>pf\<close>, each once, grouped by priority as the boundaries \<open>B\<close> say, and the
  piece map points back at their positions.
\<close>

definition bucketed :: "(nat \<Rightarrow> int) \<Rightarrow> piece_pos list \<Rightarrow> int list \<Rightarrow> nat list \<Rightarrow> bool" where
  "bucketed pf pm mp B \<longleftrightarrow>
     (\<exists>bs. bs \<noteq> [] \<and> mp = concat bs \<and> B = bounds 0 bs \<and> bkts_ok pf 0 bs) \<and>
     distinct mp \<and> in_map pm mp \<and> idx_at pm mp 0 \<and>
     (\<forall>i < length pm. 0 \<le> pf i \<longrightarrow> int i \<in> set mp)"

lemma bkts_ok_append [simp]:
  "bkts_ok pf k (bs @ cs) \<longleftrightarrow> bkts_ok pf k bs \<and> bkts_ok pf (k + length bs) cs"
  by (induction bs arbitrary: k) auto

lemma bkts_ok_map:
  "(\<And>b. set (f b) = set b) \<Longrightarrow> bkts_ok pf k (map f bs) = bkts_ok pf k bs"
  by (induction bs arbitrary: k) auto

lemma bkts_ok_rotate [simp]:
  "bkts_ok pf k (map rotate1 bs) = bkts_ok pf k bs" "bkts_ok pf k (map rotr bs) = bkts_ok pf k bs"
  by (simp_all add: bkts_ok_map)

lemma bkts_ok_empties [simp]: "bkts_ok pf k (replicate n [])"
  by (induction n arbitrary: k) auto

lemma bkts_ok_nth: "bkts_ok pf k bs \<Longrightarrow> j < length bs \<Longrightarrow> x \<in> set (bs ! j) \<Longrightarrow> pf (nat x) = int (k + j)"
proof (induction bs arbitrary: k j)
  case (Cons b bs)
  then show ?case by (cases j) fastforce+
qed simp

lemma bkts_ok_cong:
  "\<forall>x \<in> set (concat bs). pf (nat x) = pf' (nat x) \<Longrightarrow> bkts_ok pf k bs = bkts_ok pf' k bs"
  by (induction bs arbitrary: k) auto

lemma bkts_ok_nonneg:
  assumes "bkts_ok pf k bs" "x \<in> set (concat bs)"
  shows "0 \<le> pf (nat x) \<and> pf (nat x) < int (k + length bs)"
  using assms by (induction bs arbitrary: k) fastforce+

lemma concat_empties [simp]: "concat (replicate n []) = []"
  by (induction n) auto

lemma bounds_replicate_empty: "bounds off (replicate n []) = replicate n off"
  by (induction n) auto

lemma mset_rotate1 [simp]: "mset (rotate1 xs) = mset xs"
  by (cases xs) auto

lemma mset_concat_map:
  "(\<And>x. mset (f x) = mset x) \<Longrightarrow> mset (concat (map f xs)) = mset (concat xs)"
  by (induction xs) auto

lemma mset_concat_rotate [simp]:
  "mset (concat (map rotate1 xs)) = mset (concat xs)" "mset (concat (map rotr xs)) = mset (concat xs)"
  by (simp_all add: mset_concat_map)

lemma bucketed_extend:
  assumes "bucketed pf pm mp B" "length B \<le> n"
  shows "bucketed pf pm mp (vec_resize B n (length mp))"
proof -
  from assms(1) obtain bs where bs: "bs \<noteq> []" "mp = concat bs" "B = bounds 0 bs" "bkts_ok pf 0 bs"
    unfolding bucketed_def by blast
  let ?cs = "bs @ replicate (n - length bs) []"
  have "vec_resize B n (length mp) = bounds 0 ?cs"
    using assms(2) bs by (simp add: vec_resize_grow bounds_append bounds_replicate_empty)
  moreover have "?cs \<noteq> []" "mp = concat ?cs" "bkts_ok pf 0 ?cs" using bs by simp_all
  ultimately show ?thesis using assms(1) unfolding bucketed_def by blast
qed

lemma length_vec_resize_gt: "n < length (if length B \<le> n then vec_resize B (n + 1) v else B)"
  by simp

lemma bucketed_grow:
  "bucketed pf pm mp B \<Longrightarrow>
   bucketed pf pm mp (if length B \<le> n then vec_resize B (n + 1) (length mp) else B)"
  by (simp add: bucketed_extend)

lemma priority_range_bounds:
  assumes "length pre = k"
  shows "priority_range (bounds 0 (pre @ b # post)) k = (length (concat pre), length (concat pre) + length b)"
  using assms by (cases k) (auto simp: priority_range_def nth_bounds)

lemma split_at_bucket:
  assumes "k < length bs"
  obtains pre b post where "bs = pre @ b # post" "length pre = k"
  using assms id_take_nth_drop [of k bs] by (metis length_take min.absorb4)

text \<open>
  What an operation that only rearranges the vectors keeps: everything but the positions of
  the pieces that are in \<^verbatim>\<open>m_pieces\<close> afterwards.
\<close>

definition only_moves :: "piece_picker \<Rightarrow> piece_picker \<Rightarrow> bool" where
  "only_moves s s' \<longleftrightarrow>
     s' = s\<lparr>m_pieces := m_pieces s', m_piece_map := m_piece_map s',
            m_priority_boundries := m_priority_boundries s'\<rparr> \<and>
     reindexed (m_piece_map s) (m_piece_map s') (set (m_pieces s'))"

lemma bucketedI:
  assumes "bs \<noteq> []" "bkts_ok pf 0 bs" "distinct (concat bs)" "in_map pm (concat bs)" "idx_at pm (concat bs) 0"
    and "\<And>i. i < length pm \<Longrightarrow> 0 \<le> pf i \<Longrightarrow> int i \<in> set (concat bs)"
  shows "bucketed pf pm (concat bs) (bounds 0 bs)"
  using assms unfolding bucketed_def by blast

lemma bkts_ok_fun_upd:
  assumes "bkts_ok pf k bs" "int i \<notin> set (concat bs)" "in_map pm (concat bs)"
  shows "bkts_ok (pf(i := v)) k bs"
proof -
  have "\<forall>x \<in> set (concat bs). (pf(i := v)) (nat x) = pf (nat x)"
    using assms(2,3) unfolding in_map_def by (metis fun_upd_apply int_nat_eq)
  then show ?thesis using assms(1) bkts_ok_cong by blast
qed

lemma picker_add_bucketed:
  fixes rnd :: nat
  assumes inv: "bucketed pf (m_piece_map s) (m_pieces s) (m_priority_boundries s)"
    and i: "i < length (m_piece_map s)" "int i \<notin> set (m_pieces s)" "0 \<le> prio_of s i"
  defines "s' \<equiv> picker_add rnd s i"
  shows "bucketed (pf(i := prio_of s i)) (m_piece_map s') (m_pieces s') (m_priority_boundries s')"
    and "only_moves s s'" and "set (m_pieces s') = insert (int i) (set (m_pieces s))"
proof -
  let ?k = "nat (prio_of s i)" and ?mp = "m_pieces s" and ?pm = "m_piece_map s"
  let ?B = "if length (m_priority_boundries s) \<le> ?k
     then vec_resize (m_priority_boundries s) (?k + 1) (length ?mp) else m_priority_boundries s"
  have binv: "bucketed pf ?pm ?mp ?B" using inv by (rule bucketed_grow)
  then obtain bs where bs: "?mp = concat bs" "?B = bounds 0 bs" "bkts_ok pf 0 bs"
    unfolding bucketed_def by blast
  have "?k < length ?B" by (rule length_vec_resize_gt)
  then have "?k < length bs" unfolding bs(2) by simp
  then obtain pre b post where sp: "bs = pre @ b # post" and lp: "length pre = ?k"
    by (rule split_at_bucket)
  define r where "r = (if b = [] then 0 else rnd mod (length b + 1))"
  have r: "r \<le> length b" unfolding r_def by (simp add: less_Suc_eq_le [symmetric])
  let ?P = "concat pre @ take r b" and ?cs = "drop r b # post"
  let ?bs' = "pre @ (take r b @ int i # rotate1 (drop r b)) # map rotate1 post"
  have lP: "length ?P = length (concat pre) + r" using r by simp
  have mp: "?mp = ?P @ concat ?cs" using bs(1) sp by simp
  have B: "bounds 0 bs = bounds 0 pre @ bounds (length ?P) ?cs"
    unfolding sp bounds_append using r by simp
  have pr: "priority_range (bounds 0 bs) ?k = (length (concat pre), length (concat pre) + length b)"
    unfolding sp by (rule priority_range_bounds [OF lp])
  have facts: "distinct (?P @ int i # concat ?cs)" "in_map ?pm (?P @ int i # concat ?cs)"
    "idx_at ?pm ?P 0" "idx_at ?pm (concat ?cs) (length ?P)"
    using binv i(1,2) unfolding bucketed_def mp by auto
  obtain pm' where l: "add_finish (add_loop (?P @ concat ?cs @ [-1]) ?pm (bounds 0 pre @ bounds (length ?P) ?cs)
        (length (bounds 0 pre)) (length ?P) (int i))
      = (?P @ int i # concat (map rotate1 ?cs), pm', bounds 0 pre @ bounds (Suc (length ?P)) ?cs)"
    and id': "idx_at pm' (?P @ int i # concat (map rotate1 ?cs)) 0"
    and re: "reindexed ?pm pm' (set (int i # concat ?cs))"
    using add_loop_rotate [OF _ facts, of "bounds 0 pre"] by blast
  have mp': "?P @ int i # concat (map rotate1 ?cs) = concat ?bs'" by simp
  have B': "bounds 0 pre @ bounds (Suc (length ?P)) ?cs = bounds 0 ?bs'"
    unfolding bounds_append using r by simp
  have s': "s' = s\<lparr>m_pieces := concat ?bs', m_piece_map := pm', m_priority_boundries := bounds 0 ?bs'\<rparr>"
  proof -
    have ni: "(if length (concat pre) + length b = length (concat pre) then length (concat pre)
       else rnd mod (length (concat pre) + length b - length (concat pre) + 1) + length (concat pre)) = length ?P"
      using lP by (simp add: r_def)
    have "s' = (case add_finish (add_loop (?mp @ [-1]) ?pm (bounds 0 bs) ?k (length ?P) (int i)) of
        (mp, pm, B) \<Rightarrow> s\<lparr>m_pieces := mp, m_piece_map := pm, m_priority_boundries := B\<rparr>)"
      unfolding s'_def picker_add_def Let_def bs(2) pr prod.case ni add_finish_def
      by (simp split: prod.split)
    moreover have "add_loop (?mp @ [-1]) ?pm (bounds 0 bs) ?k (length ?P) (int i) =
       add_loop (?P @ concat ?cs @ [-1]) ?pm (bounds 0 pre @ bounds (length ?P) ?cs)
        (length (bounds 0 pre)) (length ?P) (int i)"
      unfolding mp B by (simp add: lp)
    ultimately show ?thesis by (simp only: l [unfolded mp' B'] prod.case)
  qed
  have sets: "set (concat ?bs') = insert (int i) (set ?mp)"
    unfolding bs(1) sp using set_append [of "take r b" "drop r b"] by auto
  have ms: "mset (concat ?bs') = add_mset (int i) (mset ?mp)"
    unfolding bs(1) sp using mset_append [of "take r b" "drop r b"]
    by (simp del: mset_append) simp
  show "set (m_pieces s') = insert (int i) (set ?mp)" using sets s' by simp
  show "only_moves s s'"
    using re sets unfolding only_moves_def s' by (auto simp: mp intro: reindexed_mono)
  have np: "int i \<notin> set (concat bs)" "in_map ?pm (concat bs)" using i(2) binv bs(1) by (auto simp: bucketed_def)
  have "bkts_ok (pf(i := prio_of s i)) 0 bs" using bkts_ok_fun_upd [OF bs(3) np] .
  then have "bkts_ok (pf(i := prio_of s i)) 0 ?bs'"
    using i(3) unfolding sp by (auto simp del: fun_upd_apply simp: fun_upd_same lp dest: in_set_takeD in_set_dropD)
  moreover have "distinct (concat ?bs')"
    using mset_eq_imp_distinct_iff [of "concat ?bs'" "int i # ?mp"] i(2) inv ms
    by (simp add: bucketed_def)
  moreover have "in_map pm' (concat ?bs')"
    using i(1) inv unfolding reindexed_in_map [OF re] unfolding in_map_def sets bucketed_def by simp
  moreover have "idx_at pm' (concat ?bs') 0" using id' unfolding mp' .
  moreover have "int j \<in> set (concat ?bs')" if "j < length pm'" "0 \<le> (pf(i := prio_of s i)) j" for j
    using that inv reindexed_length [OF re] unfolding sets bucketed_def by (auto split: if_splits)
  ultimately have "bucketed (pf(i := prio_of s i)) pm' (concat ?bs') (bounds 0 ?bs')"
    by (intro bucketedI) blast+
  then show "bucketed (pf(i := prio_of s i)) (m_piece_map s') (m_pieces s') (m_priority_boundries s')"
    by (simp add: s')
qed


text \<open>A piece in \<^verbatim>\<open>m_pieces\<close>, found in its bucket.\<close>

lemma bucketed_at:
  assumes "bucketed pf pm mp B" "e < length mp" "pf (nat (mp ! e)) = int prio"
  obtains pre b1 x b2 post where "mp = concat (pre @ (b1 @ x # b2) # post)" "x = mp ! e"
    "B = bounds 0 (pre @ (b1 @ x # b2) # post)" "bkts_ok pf 0 (pre @ (b1 @ x # b2) # post)"
    "length pre = prio" "e = length (concat pre @ b1)"
proof -
  from assms(1) obtain bs where bs: "mp = concat bs" "B = bounds 0 bs" "bkts_ok pf 0 bs" and d: "distinct mp"
    unfolding bucketed_def by blast
  have m: "mp ! e \<in> set (concat bs)" using assms(2) bs(1) nth_mem by metis
  have "0 \<le> pf (nat (mp ! e)) \<and> pf (nat (mp ! e)) < int (0 + length bs)" by (rule bkts_ok_nonneg [OF bs(3) m])
  then have "prio < length bs" using assms(3) by simp
  then obtain pre b post where sp: "bs = pre @ b # post" and lp: "length pre = prio" by (rule split_at_bucket)
  have "mp ! e \<notin> set (concat pre)"
  proof
    assume "mp ! e \<in> set (concat pre)"
    with bkts_ok_nonneg [of pf 0 pre "mp ! e"] bs(3) sp lp assms(3) show False by simp
  qed
  moreover have "mp ! e \<notin> set (concat post)"
  proof
    assume a: "mp ! e \<in> set (concat post)"
    have "bkts_ok pf (Suc prio) post" using bs(3) sp lp by simp
    then have "int (Suc prio) \<le> pf (nat (mp ! e))"
      using a
    proof (induction post arbitrary: prio)
      case (Cons q post)
      then show ?case using Cons.IH [of "Suc prio"] by fastforce
    qed simp
    with assms(3) show False by simp
  qed
  ultimately have "mp ! e \<in> set b" using m sp by auto
  then obtain b1 b2 where b: "b = b1 @ mp ! e # b2" by (meson split_list)
  have "mp ! length (concat pre @ b1) = mp ! e"
    unfolding bs(1) sp by (subst b) (simp add: nth_append bs(1) sp)
  moreover have "length (concat pre @ b1) < length mp" unfolding bs(1) sp by (subst b) simp
  ultimately have el: "e = length (concat pre @ b1)" using d assms(2) nth_eq_iff_index_eq by metis
  have eq: "bs = pre @ (b1 @ mp ! e # b2) # post" using sp b by simp
  show ?thesis by (rule that [OF bs(1) [unfolded eq] refl bs(2,3) [unfolded eq] lp el])
qed

text \<open>
  \<^verbatim>\<open>remove\<close> may be called when the removed piece has lost its position already (\<^verbatim>\<open>we_have\<close>).
\<close>

lemma picker_remove_bucketed:
  assumes inv: "bucketed pf pm0 (m_pieces s) (m_priority_boundries s)"
    and pm0: "reindexed pm0 (m_piece_map s) {m_pieces s ! e}"
    and e: "e < length (m_pieces s)" "pf (nat (m_pieces s ! e)) = int prio"
  defines "s' \<equiv> picker_remove s prio e"
  shows "bucketed (pf(nat (m_pieces s ! e) := -1)) (m_piece_map s') (m_pieces s') (m_priority_boundries s')"
    and "only_moves s s'" and "set (m_pieces s') = set (m_pieces s) - {m_pieces s ! e}"
proof -
  let ?mp = "m_pieces s" and ?pm = "m_piece_map s"
  obtain pre b1 x b2 post where sp: "?mp = concat (pre @ (b1 @ x # b2) # post)" "x = ?mp ! e"
    "m_priority_boundries s = bounds 0 (pre @ (b1 @ x # b2) # post)" "bkts_ok pf 0 (pre @ (b1 @ x # b2) # post)"
    "length pre = prio" "e = length (concat pre @ b1)"
    using bucketed_at [OF inv e] by metis
  let ?P = "concat pre @ b1" and ?cs = "b2 # post" and ?bs' = "pre @ (b1 @ rotr b2) # map rotr post"
  have d: "distinct ?mp" "in_map ?pm ?mp" "in_map pm0 ?mp" "idx_at pm0 ?mp 0"
    using inv by (simp_all add: bucketed_def reindexed_in_map [OF pm0])
  have facts: "distinct (?P @ concat ?cs)" "in_map ?pm (?P @ concat ?cs)" "idx_at ?pm ?P 0"
    "idx_at ?pm (concat ?cs) (Suc (length ?P))"
  proof -
    show f: "distinct (?P @ concat ?cs)" "in_map ?pm (?P @ concat ?cs)" using d unfolding sp(1) by auto
    have "set (?P @ concat ?cs) \<inter> {?mp ! e} = {}" using d(1) unfolding sp(2) [symmetric] unfolding sp(1) by auto
    then have k: "set ?P \<inter> {?mp ! e} = {}" "set (concat ?cs) \<inter> {?mp ! e} = {}" "in_map pm0 ?P" "in_map pm0 (concat ?cs)"
      using f(2) unfolding reindexed_in_map [OF pm0] by auto
    have "idx_at pm0 ?P 0" "idx_at pm0 (concat ?cs) (Suc (length ?P))" using d(4) unfolding sp(1) by auto
    then show "idx_at ?pm ?P 0" "idx_at ?pm (concat ?cs) (Suc (length ?P))"
      using idx_at_reindexed [OF pm0] k by blast+
  qed
  obtain pm' h' where l: "remove_loop (?P @ x # concat ?cs) ?pm (bounds 0 pre @ bounds (Suc (length ?P)) ?cs)
      (length (bounds 0 pre)) (length ?P) (length ?P) =
      (?P @ concat (map rotr ?cs) @ [h'], pm', bounds 0 pre @ bounds (length ?P) ?cs)"
    and id': "idx_at pm' (?P @ concat (map rotr ?cs)) 0" and re: "reindexed ?pm pm' (set (concat ?cs))"
    using remove_loop_rotr [OF _ facts, of x "bounds 0 pre"] by blast
  have mp': "?P @ concat (map rotr ?cs) = concat ?bs'" by simp
  have s': "s' = s\<lparr>m_pieces := concat ?bs', m_piece_map := pm', m_priority_boundries := bounds 0 ?bs'\<rparr>"
  proof -
    have "remove_loop ?mp ?pm (m_priority_boundries s) prio e e =
      remove_loop (?P @ x # concat ?cs) ?pm (bounds 0 pre @ bounds (Suc (length ?P)) ?cs)
      (length (bounds 0 pre)) (length ?P) (length ?P)"
      unfolding sp(1,3) bounds_append using sp(5,6) by (simp add: add.assoc)
    moreover have "bounds 0 pre @ bounds (length ?P) ?cs = bounds 0 ?bs'" by (simp add: bounds_append add.assoc)
    ultimately show ?thesis unfolding s'_def picker_remove_def l by (simp add: butlast_append)
  qed
  have ms: "mset ?mp = add_mset x (mset (concat ?bs'))" unfolding sp(1) by simp
  have dis: "distinct (x # concat ?bs')"
    using mset_eq_imp_distinct_iff [of ?mp "x # concat ?bs'"] ms d(1) by simp
  have sets: "set ?mp = insert x (set (concat ?bs'))" using arg_cong [OF ms, of set_mset] by simp
  have x: "x = int (nat x)" using d(2) sets unfolding in_map_def by simp
  show "set (m_pieces s') = set ?mp - {?mp ! e}"
    using dis sets sp(2) s' by simp
  show "only_moves s s'" unfolding only_moves_def
    using reindexed_mono [OF re, of "set (m_pieces s')"] unfolding s' by auto
  have "bkts_ok (pf(nat x := -1)) 0 ?bs'"
    using sp(4) dis x sets d(2) by (intro bkts_ok_fun_upd [where pm = ?pm]) (auto simp: in_map_def)
  moreover have "in_map pm' (concat ?bs')" using d(2) sets unfolding reindexed_in_map [OF re] unfolding in_map_def by blast
  moreover have "int j \<in> set (concat ?bs')" if "j < length pm'" "0 \<le> (pf(nat x := -1)) j" for j
  proof -
    have "int j \<in> set ?mp" "int j \<noteq> x"
      using that inv reindexed_length [OF re] reindexed_length [OF pm0] unfolding bucketed_def by (auto split: if_splits)
    then show ?thesis using sets by blast
  qed
  ultimately have "bucketed (pf(nat x := -1)) pm' (concat ?bs') (bounds 0 ?bs')"
    using dis id' unfolding mp' by (intro bucketedI) simp_all
  then show "bucketed (pf(nat (?mp ! e) := -1)) (m_piece_map s') (m_pieces s') (m_priority_boundries s')"
    by (simp add: s' sp(2))
qed


lemma idx_at_nth: "idx_at pm xs off \<Longrightarrow> j < length xs \<Longrightarrow> pp_index (pm ! nat (xs ! j)) = off + j"
  by (simp add: idx_at_def)

lemma idx_at_swap:
  assumes "idx_at pm xs 0" "distinct xs" "in_map pm xs" "i < length xs" "j < length xs"
  shows "idx_at (set_index (set_index pm (xs ! i) j) (xs ! j) i) (xs[i := xs ! j, j := xs ! i]) 0"
  unfolding idx_at_def
proof (intro allI impI)
  fix k assume "k < length (xs[i := xs ! j, j := xs ! i])"
  then have k: "k < length xs" by simp
  have inj: "nat (xs ! a) = nat (xs ! b) \<longleftrightarrow> a = b" if "a < length xs" "b < length xs" for a b
    using assms(2,3) that unfolding in_map_def by (metis eq_nat_nat_iff nth_eq_iff_index_eq nth_mem)
  have lt: "nat (xs ! a) < length pm" if "a < length xs" for a
    using assms(3) that unfolding in_map_def by simp
  show "pp_index (set_index (set_index pm (xs ! i) j) (xs ! j) i ! nat (xs[i := xs ! j, j := xs ! i] ! k)) = 0 + k"
    using assms(4,5) k idx_at_nth [OF assms(1)]
    by (auto simp: nth_list_update nth_set_index lt inj)
qed

lemma picker_shuffle_bucketed:
  fixes rnd :: nat
  assumes inv: "bucketed pf (m_piece_map s) (m_pieces s) (m_priority_boundries s)"
    and e: "e < length (m_pieces s)" "pf (nat (m_pieces s ! e)) = int prio"
  defines "s' \<equiv> picker_shuffle rnd s prio e"
  shows "bucketed pf (m_piece_map s') (m_pieces s') (m_priority_boundries s')"
    and "only_moves s s'" and "set (m_pieces s') = set (m_pieces s)"
proof -
  let ?mp = "m_pieces s" and ?pm = "m_piece_map s"
  obtain pre b1 x b2 post where sp: "?mp = concat (pre @ (b1 @ x # b2) # post)" "x = ?mp ! e"
    "m_priority_boundries s = bounds 0 (pre @ (b1 @ x # b2) # post)" "bkts_ok pf 0 (pre @ (b1 @ x # b2) # post)"
    "length pre = prio" "e = length (concat pre @ b1)"
    using bucketed_at [OF inv e] by metis
  define b where "b = b1 @ x # b2"
  define o' where "o' = rnd mod length b"
  define o1 where "o1 = o' + length (concat pre)"
  have o': "o' < length b" unfolding o'_def by (simp add: b_def)
  have d: "distinct ?mp" "in_map ?pm ?mp" "idx_at ?pm ?mp 0" using inv by (simp_all add: bucketed_def)
  have mp: "?mp = concat pre @ b @ concat post" using sp(1) by (simp add: b_def)
  have o1: "o1 < length ?mp" "?mp ! o1 = b ! o'" using o' unfolding mp o1_def by (simp_all add: nth_append)
  have s': "s' = (if o1 = e then s else s\<lparr>m_piece_map := set_index (set_index ?pm (?mp ! o1) e) (?mp ! e) o1,
      m_pieces := ?mp[o1 := ?mp ! e, e := ?mp ! o1]\<rparr>)"
    unfolding s'_def picker_shuffle_def sp(3) priority_range_bounds [OF sp(5)] Let_def prod.case
    using idx_at_nth [OF d(3) e(1)] idx_at_nth [OF d(3) o1(1)]
    by (simp add: o1_def o'_def b_def [symmetric] del: length_append)
  show "set (m_pieces s') = set ?mp" using e(1) o1(1) by (simp add: s' set_swap)
  show "only_moves s s'"
    using e(1) o1(1) d(2) unfolding only_moves_def s' 
    by (auto intro!: reindexed_set_index simp: in_map_def)
  show "bucketed pf (m_piece_map s') (m_pieces s') (m_priority_boundries s')"
  proof (cases "o1 = e")
    case False
    let ?b' = "b[o' := b ! length b1, length b1 := b ! o']"
    have xe: "b ! length b1 = ?mp ! e" unfolding sp(2) [symmetric] by (simp add: b_def)
    have lb: "length b1 < length b" by (simp add: b_def)
    have up: "?mp[o1 := ?mp ! e, e := ?mp ! o1] = concat (pre @ ?b' # post)"
      using o' lb unfolding o1(2) xe [symmetric] sp(6) o1_def add.commute [of o'] length_append
      by (subst (1 2 3) mp) (simp add: list_update_append1 nth_append)
    have sb: "set ?b' = set b" "length ?b' = length b" using o' lb by (simp_all add: set_swap)
    have B: "bounds 0 (pre @ ?b' # post) = m_priority_boundries s"
      unfolding sp(3) b_def [symmetric] by (rule bounds_cong_length) simp
    have sm: "set (concat (pre @ ?b' # post)) = set ?mp" unfolding up [symmetric] using e(1) o1(1) by (simp add: set_swap)
    have "bkts_ok pf 0 (pre @ ?b' # post)" using sp(4) sb unfolding b_def [symmetric] by simp
    moreover have "distinct (concat (pre @ ?b' # post))"
      unfolding up [symmetric] using e(1) o1(1) d(1) by (simp add: distinct_swap)
    moreover have "in_map (set_index (set_index ?pm (?mp ! o1) e) (?mp ! e) o1) (concat (pre @ ?b' # post))"
      using d(2) sm by (simp only: in_map_simps(4)) (simp only: in_map_def)
    moreover have "idx_at (set_index (set_index ?pm (?mp ! o1) e) (?mp ! e) o1) (concat (pre @ ?b' # post)) 0"
      unfolding up [symmetric] by (rule idx_at_swap) (use d e(1) o1(1) in simp_all)
    moreover have "int j \<in> set (concat (pre @ ?b' # post))" if "j < length ?pm" "0 \<le> pf j" for j
      using inv that unfolding sm bucketed_def by blast
    ultimately have "bucketed pf (set_index (set_index ?pm (?mp ! o1) e) (?mp ! e) o1) (concat (pre @ ?b' # post))
        (bounds 0 (pre @ ?b' # post))"
      by (intro bucketedI) simp_all
    then show ?thesis using False unfolding B up [symmetric] s' by simp
  qed (use inv in \<open>simp add: s'\<close>)
qed


lemma bucketed_move:
  assumes inv: "bucketed pf pm mp B" and x: "x \<in> set mp" and re: "reindexed pm pm' (set mp)"
    and ms: "mset (concat bs) = mset mp" and ok: "bkts_ok (pf(nat x := v)) 0 bs" "bs \<noteq> []"
    and idx: "idx_at pm' (concat bs) 0"
  shows "bucketed (pf(nat x := v)) pm' (concat bs) (bounds 0 bs)"
proof -
  have sets: "set (concat bs) = set mp" by (rule mset_eq_setD [OF ms])
  have "distinct (concat bs)" using mset_eq_imp_distinct_iff [OF ms] inv by (simp add: bucketed_def)
  moreover have "in_map pm' (concat bs)"
    using inv unfolding reindexed_in_map [OF re] unfolding in_map_def sets bucketed_def by blast
  moreover have "int j \<in> set (concat bs)" if "j < length pm'" "0 \<le> (pf(nat x := v)) j" for j
  proof (cases "j = nat x")
    case True
    have "0 \<le> x" using inv x unfolding bucketed_def in_map_def by blast
    with True x show ?thesis unfolding sets by simp
  next
    case False
    with that inv reindexed_length [OF re] show ?thesis unfolding sets bucketed_def by simp
  qed
  ultimately show ?thesis using ok idx by (intro bucketedI) blast+
qed

lemma split_mset_facts:
  assumes "mset mp = mset (X @ x # R)" "distinct mp" "in_map pm mp" "S \<subseteq> set X"
  shows "x \<notin> set X" "in_map pm X" "x \<notin> set R" "in_map pm R" "set R \<inter> S = {}"
proof -
  have "distinct (X @ x # R)" "in_map pm (X @ x # R)"
    using assms(2,3) mset_eq_imp_distinct_iff [OF assms(1)] mset_eq_setD [OF assms(1)]
    unfolding in_map_def by simp_all
  with assms(4) show "x \<notin> set X" "in_map pm X" "x \<notin> set R" "in_map pm R" "set R \<inter> S = {}" by auto
qed

lemma update_up_bucketed:
  assumes inv: "bucketed pf pm mp B" and e: "e < length mp" "pf (nat (mp ! e)) = int prio"
    and np: "prio < np" "np < length B"
  shows "\<exists>mp' pm' B' e'. update_up mp pm B prio np e (mp ! e) = (mp', pm', B', e') \<and> e' < length mp' \<and>
     bucketed (pf(nat (mp ! e) := int np)) (set_index pm' (mp ! e) e') (mp'[e' := mp ! e]) B' \<and>
     reindexed pm (set_index pm' (mp ! e) e') (set mp) \<and> mset (mp'[e' := mp ! e]) = mset mp"
proof -
  obtain pre b1 x b2 post' where sp: "mp = concat (pre @ (b1 @ x # b2) # post')" "x = mp ! e"
    "B = bounds 0 (pre @ (b1 @ x # b2) # post')" "bkts_ok pf 0 (pre @ (b1 @ x # b2) # post')"
    "length pre = prio" "e = length (concat pre @ b1)"
    using bucketed_at [OF inv e] by metis
  have "np - Suc prio < length post'" using np sp(3,5) by simp
  then obtain mid c post where p: "post' = mid @ c # post" and lm: "length mid = np - Suc prio"
    by (rule split_at_bucket)
  let ?P = "concat pre @ b1" and ?cs = "b2 # mid" and ?bs = "pre @ (b1 @ rotr b2) # map rotr mid @ (x # c) # post"
  let ?R = "c @ concat post" and ?BR = "bounds (Suc (length (?P @ concat ?cs))) (c # post)"
  have d: "distinct mp" "in_map pm mp" "idx_at pm mp 0" using inv by (simp_all add: bucketed_def)
  have facts: "distinct (?P @ concat ?cs)" "x \<notin> set (concat ?cs)" "in_map pm (?P @ concat ?cs)" "idx_at pm ?P 0"
    "idx_at pm (concat ?cs) (Suc (length ?P))"
    using d unfolding sp(1) p by (auto simp del: set_concat)
  have lcs: "length ?cs = np - length (bounds 0 pre)" using lm np sp(5) by simp
  obtain pm' h' where l: "update_up (?P @ x # concat ?cs @ ?R) pm (bounds 0 pre @ bounds (Suc (length ?P)) ?cs @ ?BR)
      (length (bounds 0 pre)) np (length ?P) x =
      (?P @ concat (map rotr ?cs) @ h' # ?R, pm', bounds 0 pre @ bounds (length ?P) ?cs @ ?BR, length (?P @ concat ?cs))"
    and id': "idx_at pm' (?P @ concat (map rotr ?cs)) 0" and re: "reindexed pm pm' (set (concat ?cs))"
    using update_up_rotr [OF _ facts lcs, of ?R ?BR] by blast
  let ?e = "length (?P @ concat ?cs)" and ?mp' = "?P @ concat (map rotr ?cs) @ h' # ?R"
  have le: "length (?P @ concat (map rotr ?cs)) = ?e" by (simp add: length_concat comp_def)
  have mp': "?mp'[?e := x] = concat ?bs"
    unfolding le [symmetric] append.assoc [symmetric] list_update_length by simp
  have eq: "update_up mp pm B prio np e x = (?mp', pm', bounds 0 ?bs, ?e)"
    using l sp(5) unfolding sp(1,3,6) p by (simp add: bounds_append add.assoc length_concat comp_def)
  have ms: "mset (concat ?bs) = mset mp" unfolding sp(1) p by simp
  have x: "0 \<le> x" "nat x < length pm" "x \<in> set mp" using d(2) unfolding sp(1) by auto
  have re': "reindexed pm (set_index pm' x ?e) (set mp)"
    using x reindexed_mono [OF re, of "set mp"] unfolding sp(1) p by (intro reindexed_set_index) auto
  have "idx_at (set_index pm' x ?e) (concat ?bs) 0"
  proof -
    have m0: "mset mp = mset ((?P @ concat (map rotr ?cs)) @ x # ?R)" unfolding sp(1) p by simp
    have m1: "set (concat ?cs) \<subseteq> set (?P @ concat (map rotr ?cs))" by auto
    note a = split_mset_facts [OF m0 d(1,2) m1, folded reindexed_in_map [OF re]]
    have "idx_at pm ?R (Suc ?e)" using d(3) unfolding sp(1) p by (simp add: add.assoc)
    then have "idx_at pm' ?R (Suc ?e)" using a(4,5) by (simp only: idx_at_reindexed [OF re] reindexed_in_map [OF re])
    then show ?thesis
      using id' a x unfolding mp' [symmetric] le [symmetric] append.assoc [symmetric] list_update_length
      unfolding idx_at_append idx_at_simps by (simp add: idx_at_set_index nth_set_index reindexed_length [OF re])
  qed
  moreover have "bkts_ok (pf(nat x := int np)) 0 ?bs"
  proof -
    have "bkts_ok (pf(nat x := int np)) 0 (pre @ (b1 @ b2) # mid @ c # post)"
      using sp(4) d x unfolding sp(1) p by (intro bkts_ok_fun_upd [where pm = pm]) (auto simp: in_map_def)
    moreover have "Suc (length pre + length mid) = np" using lm np sp(5) by simp
    ultimately show ?thesis by (simp add: fun_upd_same del: fun_upd_apply)
  qed
  ultimately have "bucketed (pf(nat x := int np)) (set_index pm' x ?e) (concat ?bs) (bounds 0 ?bs)"
    by (intro bucketed_move [OF inv x(3) re' ms]) blast+
  then show ?thesis using eq re' ms le unfolding sp(2) [symmetric] mp' [symmetric] by auto
qed

lemma bounds_starts_append:
  "bounds off (c # mid @ ds) = starts (off + length c) (mid @ [b]) @ bounds (off + length (concat (c # mid))) ds"
  using bounds_starts [of off c mid] bounds_append [of off "c # mid" ds]
  by (simp add: starts_append add.assoc)

lemma update_down_bucketed:
  assumes inv: "bucketed pf pm mp B" and e: "e < length mp" "pf (nat (mp ! e)) = int prio"
    and np: "np < prio"
  shows "\<exists>mp' pm' B' e'. update_down mp pm B prio np e (mp ! e) = (mp', pm', B', e') \<and> e' < length mp' \<and>
     bucketed (pf(nat (mp ! e) := int np)) (set_index pm' (mp ! e) e') (mp'[e' := mp ! e]) B' \<and>
     reindexed pm (set_index pm' (mp ! e) e') (set mp) \<and> mset (mp'[e' := mp ! e]) = mset mp"
proof -
  obtain pre' b1 x b2 post where sp: "mp = concat (pre' @ (b1 @ x # b2) # post)" "x = mp ! e"
    "B = bounds 0 (pre' @ (b1 @ x # b2) # post)" "bkts_ok pf 0 (pre' @ (b1 @ x # b2) # post)"
    "length pre' = prio" "e = length (concat pre' @ b1)"
    using bucketed_at [OF inv e] by metis
  have "np < length pre'" using np sp(5) by simp
  then obtain pre c mid where p: "pre' = pre @ c # mid" and lp: "length pre = np"
    by (rule split_at_bucket)
  let ?L = "concat pre @ c" and ?cs = "mid @ [b1]" and ?bs = "pre @ (c @ [x]) # map rotate1 mid @ (rotate1 b1 @ b2) # post"
  let ?R = "b2 @ concat post" and ?BR = "bounds (length (?L @ concat ?cs @ [x])) (b2 # post)"
  have d: "distinct mp" "in_map pm mp" "idx_at pm mp 0" using inv by (simp_all add: bucketed_def)
  have facts: "distinct (concat ?cs)" "x \<notin> set (concat ?cs)" "in_map pm (concat ?cs)"
    "idx_at pm (concat ?cs) (length ?L)"
    using d unfolding sp(1) p by (auto simp del: set_concat)
  obtain pm' h' where l: "update_down (?L @ concat ?cs @ x # ?R) pm (bounds 0 pre @ starts (length ?L) ?cs @ ?BR)
      (length (bounds 0 pre) + length ?cs) (length (bounds 0 pre)) (length (?L @ concat ?cs)) x =
      (?L @ h' # concat (map rotate1 ?cs) @ ?R, pm', bounds 0 pre @ starts (Suc (length ?L)) ?cs @ ?BR, length ?L)"
    and id': "idx_at pm' (concat (map rotate1 ?cs)) (Suc (length ?L))" and re: "reindexed pm pm' (set (concat ?cs))"
    using update_down_rotate1 [OF _ facts, of ?R "bounds 0 pre" ?BR] by blast
  let ?mp' = "?L @ h' # concat (map rotate1 ?cs) @ ?R"
  have mp': "?mp'[length ?L := x] = concat ?bs" by simp
  have st: "bounds (length (concat pre)) (c # mid @ (b1 @ x # b2) # post) = starts (length ?L) ?cs @ ?BR"
    "bounds (length (concat pre)) ((c @ [x]) # map rotate1 mid @ (rotate1 b1 @ b2) # post) =
       starts (Suc (length ?L)) ?cs @ ?BR"
  proof -
    show "bounds (length (concat pre)) (c # mid @ (b1 @ x # b2) # post) = starts (length ?L) ?cs @ ?BR"
      by (subst bounds_starts_append [where b = b1]) (simp add: add.assoc)
    have "bounds (length (concat pre)) ((c @ [x]) # map rotate1 mid @ (rotate1 b1 @ b2) # post) =
      bounds (length (concat pre)) ((c @ [x]) # mid @ (b1 @ b2) # post)"
      by (rule bounds_cong_length) simp
    also have "\<dots> = starts (Suc (length ?L)) ?cs @ ?BR"
      by (subst bounds_starts_append [where b = b1]) (simp add: add.assoc)
    finally show "bounds (length (concat pre)) ((c @ [x]) # map rotate1 mid @ (rotate1 b1 @ b2) # post) =
       starts (Suc (length ?L)) ?cs @ ?BR" .
  qed
  have eq: "update_down mp pm B prio np e x = (?mp', pm', bounds 0 ?bs, length ?L)"
  proof -
    have "bounds 0 ?bs = bounds 0 pre @ starts (Suc (length ?L)) ?cs @ ?BR"
      using st(2) by (simp add: bounds_append)
    moreover have "B = bounds 0 pre @ starts (length ?L) ?cs @ ?BR"
      using st(1) unfolding sp(3) p by (simp add: bounds_append)
    moreover have "prio = length (bounds 0 pre) + length ?cs" "np = length (bounds 0 pre)" using sp(5) lp p by simp_all
    moreover have "mp = ?L @ concat ?cs @ x # ?R" "e = length (?L @ concat ?cs)"
      unfolding sp(6) unfolding sp(1) p by simp_all
    ultimately show ?thesis using l by (simp only:)
  qed
  have ms: "mset (concat ?bs) = mset mp" unfolding sp(1) p by simp
  have x: "0 \<le> x" "nat x < length pm" "x \<in> set mp" using d(2) unfolding sp(1) by auto
  have re': "reindexed pm (set_index pm' x (length ?L)) (set mp)"
    using x reindexed_mono [OF re, of "set mp"] unfolding sp(1) p by (intro reindexed_set_index) auto
  have "idx_at (set_index pm' x (length ?L)) (concat ?bs) 0"
  proof -
    let ?C = "concat (map rotate1 ?cs)"
    have m0: "mset mp = mset (?C @ x # (?L @ ?R))" unfolding sp(1) p by simp
    have m1: "set (concat ?cs) \<subseteq> set ?C" by auto
    note a = split_mset_facts [OF m0 d(1,2) m1, folded reindexed_in_map [OF re]]
    have "length ?C = length (concat ?cs)" by (simp add: length_concat comp_def)
    then have "idx_at pm ?L 0" "idx_at pm ?R (Suc (length ?L) + length ?C)"
      using d(3) unfolding sp(1) p by (simp_all add: add.assoc)
    then have "idx_at pm' ?L 0" "idx_at pm' ?R (Suc (length ?L) + length ?C)"
      using a(4,5) idx_at_reindexed [OF re, of ?L] idx_at_reindexed [OF re, of ?R]
      unfolding reindexed_in_map [OF re] in_map_simps(3) set_append Int_Un_distrib2 by blast+
    then have "idx_at (set_index pm' x (length ?L)) (?L @ x # ?C @ ?R) 0"
      using id' a x unfolding idx_at_append idx_at_simps
      by (simp add: idx_at_set_index nth_set_index reindexed_length [OF re])
    then show ?thesis by simp
  qed
  moreover have "bkts_ok (pf(nat x := int np)) 0 ?bs"
  proof -
    have "bkts_ok (pf(nat x := int np)) 0 (pre @ c # mid @ (b1 @ b2) # post)"
      using sp(4) d x unfolding sp(1) p by (intro bkts_ok_fun_upd [where pm = pm]) (auto simp: in_map_def)
    then show ?thesis using lp by (simp add: fun_upd_same del: fun_upd_apply)
  qed
  ultimately have "bucketed (pf(nat x := int np)) (set_index pm' x (length ?L)) (concat ?bs) (bounds 0 ?bs)"
    by (intro bucketed_move [OF inv x(3) re' ms]) blast+
  then show ?thesis using eq re' ms unfolding sp(2) [symmetric] mp' [symmetric] by auto
qed

lemma only_moves_trans:
  assumes "only_moves s s'" "only_moves s' s''" "set (m_pieces s') \<subseteq> set (m_pieces s'')"
  shows "only_moves s s''"
proof -
  let ?S = "set (m_pieces s'')"
  obtain p m b where a: "s' = s\<lparr>m_pieces := p, m_piece_map := m, m_priority_boundries := b\<rparr>"
    using assms(1) unfolding only_moves_def by blast
  obtain p' m' b' where a': "s'' = s'\<lparr>m_pieces := p', m_piece_map := m', m_priority_boundries := b'\<rparr>"
    using assms(2) unfolding only_moves_def by blast
  have "s'' = s\<lparr>m_pieces := m_pieces s'', m_piece_map := m_piece_map s'',
      m_priority_boundries := m_priority_boundries s''\<rparr>"
    unfolding a' a by simp
  moreover have "reindexed (m_piece_map s) (m_piece_map s'') ?S"
  proof (rule reindexed_trans)
    show "reindexed (m_piece_map s) (m_piece_map s') ?S"
      using assms(1,3) unfolding only_moves_def by (elim conjE reindexed_mono) blast
    show "reindexed (m_piece_map s') (m_piece_map s'') ?S"
      using assms(2,3) unfolding only_moves_def by (elim conjE reindexed_mono) blast
  qed
  ultimately show ?thesis by (simp add: only_moves_def)
qed

text \<open>
  \<^verbatim>\<open>update\<close> on the piece at position \<open>e\<close>, which was filed under \<open>prio\<close>: whatever its priority
  is now, the vectors are in order for it, and the pieces are the same ones unless its
  priority has become -1, which removes it.
\<close>

lemma picker_update_bucketed:
  fixes rnd :: nat
  assumes inv: "bucketed pf (m_piece_map s) (m_pieces s) (m_priority_boundries s)"
    and e: "e < length (m_pieces s)" "pf (nat (m_pieces s ! e)) = int prio"
  defines "s' \<equiv> picker_update rnd s prio e" and "i \<equiv> nat (m_pieces s ! e)"
  assumes pr: "-1 \<le> prio_of s i"
  shows "bucketed (pf(i := prio_of s i)) (m_piece_map s') (m_pieces s') (m_priority_boundries s') \<and>
    only_moves s s' \<and>
    set (m_pieces s') = (if prio_of s i = -1 then set (m_pieces s) - {int i} else set (m_pieces s))"
proof -
  let ?mp = "m_pieces s" and ?pm = "m_piece_map s" and ?B = "m_priority_boundries s"
  have ei: "?mp ! e = int i" using inv e(1) unfolding i_def bucketed_def in_map_def by simp
  consider "prio_of s i = int prio" | "prio_of s i = -1" | "prio_of s i \<noteq> int prio" "0 \<le> prio_of s i"
    using pr by linarith
  then show ?thesis
  proof cases
    case 1
    then have "s' = s" "pf(i := prio_of s i) = pf" using e(2) ei by (auto simp: s'_def picker_update_def fun_eq_iff)
    with inv 1 show ?thesis by (simp add: only_moves_def)
  next
    case 2
    then have "s' = picker_remove s prio e" using ei by (simp add: s'_def picker_update_def)
    with 2 show ?thesis using picker_remove_bucketed [OF inv reindexed_refl e] ei by simp
  next
    case 3
    define np where "np = nat (prio_of s i)"
    define B where "B = (if length ?B \<le> np then vec_resize ?B (np + 1) (length ?mp) else ?B)"
    have np: "prio_of s i = int np" "np \<noteq> prio" using 3 by (simp_all add: np_def)
    have inv': "bucketed pf ?pm ?mp B" unfolding B_def using inv by (rule bucketed_grow)
    have lB: "np < length B" unfolding B_def by (rule length_vec_resize_gt)
    have "\<exists>mp' pm' B' e'. (if prio > np then update_down ?mp ?pm B prio np e (?mp ! e)
         else update_up ?mp ?pm B prio np e (?mp ! e)) = (mp', pm', B', e') \<and> e' < length mp' \<and>
       bucketed (pf(i := int np)) (set_index pm' (?mp ! e) e') (mp'[e' := ?mp ! e]) B' \<and>
       reindexed ?pm (set_index pm' (?mp ! e) e') (set ?mp) \<and> mset (mp'[e' := ?mp ! e]) = mset ?mp"
      using update_down_bucketed [OF inv' e, of np] update_up_bucketed [OF inv' e, of np] lB np(2)
      unfolding i_def by (cases "prio > np") simp_all
    then obtain mp' pm' B' e' where
      u: "(if prio > np then update_down ?mp ?pm B prio np e (?mp ! e)
         else update_up ?mp ?pm B prio np e (?mp ! e)) = (mp', pm', B', e')" "e' < length mp'"
      "bucketed (pf(i := int np)) (set_index pm' (?mp ! e) e') (mp'[e' := ?mp ! e]) B'"
      "reindexed ?pm (set_index pm' (?mp ! e) e') (set ?mp)" "mset (mp'[e' := ?mp ! e]) = mset ?mp"
      by blast
    let ?t = "s\<lparr>m_pieces := mp'[e' := ?mp ! e], m_piece_map := set_index pm' (?mp ! e) e', m_priority_boundries := B'\<rparr>"
    have s': "s' = picker_shuffle rnd ?t np e'"
      using 3 u(1) unfolding s'_def picker_update_def Let_def i_def [symmetric] np_def [symmetric] B_def [symmetric]
      by (simp add: np)
    have st: "set (mp'[e' := ?mp ! e]) = set ?mp" by (rule mset_eq_setD [OF u(5)])
    have sh: "bucketed (pf(i := int np)) (m_piece_map s') (m_pieces s') (m_priority_boundries s')"
      "only_moves ?t s'" "set (m_pieces s') = set ?mp"
      unfolding s' using u(2,3) st ei
        picker_shuffle_bucketed [of "pf(i := int np)" ?t e' np rnd] by simp_all
    have "only_moves s ?t" unfolding only_moves_def using u(4) st by simp
    from only_moves_trans [OF this sh(2)] have "only_moves s s'" using st sh(3) by simp
    with sh np show ?thesis by simp
  qed
qed

end
