(* ===== verification/Picker_Ops.thy ===== *)
theory Picker_Ops
  imports Picker_Buckets
begin

text \<open>
  The public operations of \<^verbatim>\<open>src/piece_picker.cpp\<close>, built on the bucket operations. An operation
  that dereferences the iterator \<^verbatim>\<open>find_dl_piece\<close> returned has an \<open>option\<close> result: \<open>None\<close> is
  the dereferenced end iterator, which the theorems exclude. \<open>rnd\<close> is the value of the one
  call of \<^verbatim>\<open>random()\<close> the operation makes.
\<close>

subsection \<open>Reference counts\<close>

definition upd_pos :: "piece_picker \<Rightarrow> nat \<Rightarrow> (piece_pos \<Rightarrow> piece_pos) \<Rightarrow> piece_picker" where
  "upd_pos s i f = s\<lparr>m_piece_map := (m_piece_map s)[i := f (m_piece_map s ! i)]\<rparr>"

text \<open>File a piece again whose priority was \<open>prev\<close>: \<^verbatim>\<open>add\<close> it or \<^verbatim>\<open>update\<close> its position.\<close>

definition refile :: "nat \<Rightarrow> piece_picker \<Rightarrow> nat \<Rightarrow> int \<Rightarrow> piece_picker" where
  "refile rnd s i prev =
     (if prev = -1 then picker_add rnd s i
      else picker_update rnd s (nat prev) (pp_index (m_piece_map s ! i)))"

definition inc_refcount_all :: "piece_picker \<Rightarrow> piece_picker" where
  "inc_refcount_all s =
     (let s = s\<lparr>m_seeds := m_seeds s + 1\<rparr> in
      if m_seeds s = 1 then s\<lparr>m_dirty := True\<rparr> else s)"

definition dec_refcount_all :: "piece_picker \<Rightarrow> piece_picker" where
  "dec_refcount_all s =
     (if m_seeds s > 0
      then let s = s\<lparr>m_seeds := m_seeds s - 1\<rparr> in
           if m_seeds s = 0 then s\<lparr>m_dirty := True\<rparr> else s
      else s\<lparr>m_piece_map := map (\<lambda>p. p\<lparr>pp_peer_count := pp_peer_count p - 1\<rparr>) (m_piece_map s),
             m_dirty := True\<rparr>)"

definition inc_refcount :: "nat \<Rightarrow> piece_picker \<Rightarrow> nat \<Rightarrow> piece_picker" where
  "inc_refcount rnd s index =
     (let prev_priority = prio_of s index;
          s = upd_pos s index (\<lambda>p. p\<lparr>pp_peer_count := pp_peer_count p + 1\<rparr>)
      in if m_dirty s then s
         else if prev_priority = prio_of s index then s
         else refile rnd s index prev_priority)"

definition dec_refcount :: "nat \<Rightarrow> piece_picker \<Rightarrow> nat \<Rightarrow> piece_picker" where
  "dec_refcount rnd s index =
     (let prev_priority = prio_of s index;
          s = upd_pos s index (\<lambda>p. p\<lparr>pp_peer_count := pp_peer_count p - 1\<rparr>)
      in if m_dirty s then s
         else if prev_priority \<ge> 0
              then picker_update rnd s (nat prev_priority) (pp_index (m_piece_map s ! index))
              else s)"

text \<open>The loop over a bitmask: \<open>d\<close> is added to the count of each piece whose bit is set.\<close>

fun count_bits :: "16 word \<Rightarrow> bool list \<Rightarrow> nat \<Rightarrow> piece_pos list \<times> bool \<Rightarrow> piece_pos list \<times> bool" where
  "count_bits d [] index r = r"
| "count_bits d (b # bs) index (pm, updated) =
     count_bits d bs (Suc index)
       (if b then (pm[index := (pm ! index)\<lparr>pp_peer_count := pp_peer_count (pm ! index) + d\<rparr>], True)
        else (pm, updated))"

definition inc_refcount_mask :: "piece_picker \<Rightarrow> bitfield \<Rightarrow> piece_picker option" where
  "inc_refcount_mask s bitmask =
     map_option
       (\<lambda>bits. case count_bits 1 bits 0 (m_piece_map s, False) of
          (pm, updated) \<Rightarrow> s\<lparr>m_piece_map := pm, m_dirty := (if updated then True else m_dirty s)\<rparr>)
       (bf_traverse (bf_size bitmask) bitmask (bf_begin bitmask))"

definition dec_refcount_mask :: "piece_picker \<Rightarrow> bitfield \<Rightarrow> piece_picker option" where
  "dec_refcount_mask s bitmask =
     map_option
       (\<lambda>bits. case count_bits (- 1) bits 0 (m_piece_map s, False) of
          (pm, updated) \<Rightarrow> s\<lparr>m_piece_map := pm, m_dirty := (if updated then True else m_dirty s)\<rparr>)
       (bf_traverse (bf_size bitmask) bitmask (bf_begin bitmask))"

subsection \<open>Rebuilding the buckets\<close>

text \<open>
  \<^verbatim>\<open>update_pieces\<close>, loop by loop. \<open>shuf start xs\<close> is the result of \<^verbatim>\<open>std::random_shuffle\<close> on
  the range \<open>xs\<close> that begins at \<open>start\<close>.
\<close>

definition up_count :: "int \<Rightarrow> piece_pos list \<times> nat list \<Rightarrow> nat \<Rightarrow> piece_pos list \<times> nat list" where
  "up_count seeds r i =
     (case r of (pm, B) \<Rightarrow>
        let prio = priority seeds (pm ! i) in
        if prio = -1 then (pm, B)
        else
          let B = (if prio \<ge> int (length B) then vec_resize B (nat prio + 1) 0 else B)
          in (pm[i := (pm ! i)\<lparr>pp_index := B ! nat prio\<rparr>], B[nat prio := B ! nat prio + 1]))"

fun up_sums :: "nat \<Rightarrow> nat list \<Rightarrow> nat list" where
  "up_sums index [] = []"
| "up_sums index (b # B) = (b + index) # up_sums (b + index) B"

definition up_place :: "int \<Rightarrow> piece_pos list \<Rightarrow> nat list \<Rightarrow> int list \<Rightarrow> nat \<Rightarrow> int list" where
  "up_place seeds pm B mp i =
     (let prio = priority seeds (pm ! i) in
      if prio = -1 then mp
      else mp[(if prio = 0 then 0 else B ! (nat prio - 1)) + pp_index (pm ! i) := int i])"

fun up_shuffle :: "(nat \<Rightarrow> int list \<Rightarrow> int list) \<Rightarrow> nat \<Rightarrow> nat list \<Rightarrow> int list \<Rightarrow> int list" where
  "up_shuffle shuf start [] mp = mp"
| "up_shuffle shuf start (b # B) mp =
     (if start = b then up_shuffle shuf start B mp
      else up_shuffle shuf b B
        (take start mp @ shuf start (take (b - start) (drop start mp)) @ drop b mp))"

fun up_index :: "nat \<Rightarrow> int list \<Rightarrow> piece_pos list \<Rightarrow> piece_pos list" where
  "up_index index [] pm = pm"
| "up_index index (x # mp) pm = up_index (Suc index) mp (set_index pm x index)"

definition update_pieces :: "(nat \<Rightarrow> int list \<Rightarrow> int list) \<Rightarrow> piece_picker \<Rightarrow> piece_picker" where
  "update_pieces shuf s =
     (let B0 = (if m_priority_boundries s = [] then vec_resize [] 1 0 else m_priority_boundries s);
          (pm, B1) = foldl (up_count (m_seeds s)) (m_piece_map s, map (\<lambda>_. 0) B0) [0..<length (m_piece_map s)];
          B2 = up_sums 0 B1;
          mp0 = vec_resize (m_pieces s) (if B2 = [] then 0 else last B2) 0;
          mp1 = foldl (up_place (m_seeds s) pm B2) mp0 [0..<length pm];
          mp2 = up_shuffle shuf 0 B2 mp1
      in s\<lparr>m_pieces := mp2, m_piece_map := up_index 0 mp2 pm, m_priority_boundries := B2, m_dirty := False\<rparr>)"

subsection \<open>Having a piece, and its priority\<close>

definition we_dont_have :: "nat \<Rightarrow> piece_picker \<Rightarrow> nat \<Rightarrow> piece_picker" where
  "we_dont_have rnd s index =
     (let p = m_piece_map s ! index in
      if \<not> pp_have p then s
      else
        let s1 = (if pp_filtered p
                  then s\<lparr>m_num_filtered := m_num_filtered s + 1, m_num_have_filtered := m_num_have_filtered s - 1\<rparr>
                  else
                    let c = (if index < m_cursor s then index else m_cursor s);
                        r = (if index \<ge> m_reverse_cursor s then index + 1 else m_reverse_cursor s)
                    in if r = c then s\<lparr>m_cursor := num_pieces s, m_reverse_cursor := 0\<rparr>
                       else s\<lparr>m_cursor := c, m_reverse_cursor := r\<rparr>);
            s2 = upd_pos (s1\<lparr>m_num_have := m_num_have s1 - 1\<rparr>) index (\<lambda>p. p\<lparr>pp_index := 0\<rparr>)
        in if m_dirty s2 then s2
           else if prio_of s2 index \<ge> 0 then picker_add rnd s2 index else s2)"

definition sparse_delta :: "piece_pos list \<Rightarrow> nat \<Rightarrow> int" where
  "sparse_delta pm index =
     (if index = 0
      then (if index + 1 = length pm \<or> pp_have (pm ! (index + 1)) then -1 else 0)
      else if index = length pm - 1
      then (if index = 0 \<or> pp_have (pm ! (index - 1)) then -1 else 0)
      else
        let have_before = pp_have (pm ! (index - 1));
            have_after = pp_have (pm ! (index + 1))
        in if have_after \<and> have_before then -1
           else if \<not> have_after \<and> \<not> have_before then 1 else 0)"

text \<open>The cursors after piece \<open>index\<close> has become one that need not be downloaded.\<close>

definition skip_cursors :: "piece_picker \<Rightarrow> nat \<Rightarrow> piece_picker" where
  "skip_cursors s index =
     (if m_cursor s + 1 = m_reverse_cursor s \<and> m_cursor s = index
      then s\<lparr>m_cursor := length (m_piece_map s), m_reverse_cursor := 0\<rparr>
      else if m_cursor s = index
      then s\<lparr>m_cursor := cursor_forward (m_piece_map s) (m_cursor s + 1)\<rparr>
      else if m_reverse_cursor s = index + 1
      then s\<lparr>m_reverse_cursor := cursor_backward (m_piece_map s) (m_reverse_cursor s - 1)\<rparr>
      else s)"

text \<open>
  \<^verbatim>\<open>we_have\<close>: \<open>take_piece\<close> is its middle part, which counts the piece, marks it and moves the
  cursors; the position and the priority used by \<^verbatim>\<open>remove\<close> are those read at the start.
\<close>

definition take_piece :: "piece_picker \<Rightarrow> nat \<Rightarrow> piece_picker" where
  "take_piece s index =
     (let p = m_piece_map s ! index;
          s = s\<lparr>m_sparse_regions := m_sparse_regions s + sparse_delta (m_piece_map s) index\<rparr>;
          s = (if pp_filtered p
               then s\<lparr>m_num_filtered := m_num_filtered s - 1, m_num_have_filtered := m_num_have_filtered s + 1\<rparr>
               else s);
          s = upd_pos (s\<lparr>m_num_have := m_num_have s + 1\<rparr>) index (\<lambda>p. p\<lparr>pp_index := we_have_index\<rparr>)
      in skip_cursors s index)"

definition we_have :: "piece_picker \<Rightarrow> nat \<Rightarrow> piece_picker option" where
  "we_have s index =
     (let info_index = pp_index (m_piece_map s ! index);
          prio = prio_of s index
      in case (if pp_downloading (m_piece_map s ! index)
               then map_option (erase_download_piece s) (find_dl_piece s index) else Some s) of
           None \<Rightarrow> None
         | Some s \<Rightarrow>
             if pp_have (m_piece_map s ! index) then Some s
             else
               let s = take_piece s index
               in Some (if prio = -1 then s else if m_dirty s then s else picker_remove s (nat prio) info_index))"

text \<open>
  In \<^verbatim>\<open>set_piece_priority\<close> the cursor loops run before \<^verbatim>\<open>piece_priority\<close> is assigned; they start
  past the piece itself, so they do not look at it.
\<close>

definition set_piece_priority :: "nat \<Rightarrow> piece_picker \<Rightarrow> nat \<Rightarrow> nat \<Rightarrow> piece_picker \<times> bool" where
  "set_piece_priority rnd s index new_piece_priority =
     (let p = m_piece_map s ! index in
      if new_piece_priority = pp_priority p then (s, False)
      else
        let prev_priority = prio_of s index;
            (s1, ret) =
              (if new_piece_priority = 0 \<and> pp_priority p \<noteq> 0
               then (if pp_have p then s\<lparr>m_num_have_filtered := m_num_have_filtered s + 1\<rparr>
                     else skip_cursors (s\<lparr>m_num_filtered := m_num_filtered s + 1\<rparr>) index, True)
               else if new_piece_priority \<noteq> 0 \<and> pp_priority p = 0
               then (if pp_have p then s\<lparr>m_num_have_filtered := m_num_have_filtered s - 1\<rparr>
                     else
                       let c = (if index < m_cursor s then index else m_cursor s);
                           r = (if index \<ge> m_reverse_cursor s then index + 1 else m_reverse_cursor s);
                           s = s\<lparr>m_num_filtered := m_num_filtered s - 1\<rparr>
                       in if r = c then s\<lparr>m_cursor := num_pieces s, m_reverse_cursor := 0\<rparr>
                          else s\<lparr>m_cursor := c, m_reverse_cursor := r\<rparr>, True)
               else (s, False));
            s2 = upd_pos s1 index (\<lambda>p. p\<lparr>pp_priority := new_piece_priority\<rparr>)
        in if prev_priority = prio_of s2 index then (s2, ret)
           else if m_dirty s2 then (s2, ret)
           else (refile rnd s2 index prev_priority, ret))"

definition piece_priority :: "piece_picker \<Rightarrow> nat \<Rightarrow> nat" where
  "piece_priority s index = pp_priority (m_piece_map s ! index)"

definition piece_priorities :: "piece_picker \<Rightarrow> nat list" where
  "piece_priorities s = map pp_priority (m_piece_map s)"

definition filtered_pieces :: "piece_picker \<Rightarrow> bool list" where
  "filtered_pieces s = map pp_filtered (m_piece_map s)"

subsection \<open>Blocks\<close>

definition block_at :: "piece_picker \<Rightarrow> nat \<Rightarrow> nat \<Rightarrow> block_info" where
  "block_at s k b = m_block_info s ! (dp_info (m_downloads s ! k) + b)"

definition upd_block :: "piece_picker \<Rightarrow> nat \<Rightarrow> nat \<Rightarrow> (block_info \<Rightarrow> block_info) \<Rightarrow> piece_picker" where
  "upd_block s k b f =
     s\<lparr>m_block_info := (m_block_info s)[dp_info (m_downloads s ! k) + b := f (block_at s k b)]\<rparr>"

definition upd_dp :: "piece_picker \<Rightarrow> nat \<Rightarrow> (downloading_piece \<Rightarrow> downloading_piece) \<Rightarrow> piece_picker" where
  "upd_dp s k f = s\<lparr>m_downloads := (m_downloads s)[k := f (m_downloads s ! k)]\<rparr>"

text \<open>
  The start of the three \<^verbatim>\<open>mark_as_\<close> operations on a piece that is not being downloaded: its
  position is updated and an entry is added; the position of the entry is returned.
\<close>

definition start_download :: "nat \<Rightarrow> piece_picker \<Rightarrow> nat \<Rightarrow> piece_picker \<times> nat" where
  "start_download rnd s index =
     (let prio = prio_of s index;
          s = upd_pos s index (\<lambda>p. p\<lparr>pp_downloading := True\<rparr>);
          s = (if prio \<ge> 0 \<and> \<not> m_dirty s
               then picker_update rnd s (nat prio) (pp_index (m_piece_map s ! index)) else s)
      in add_download_piece s index)"

definition mark_as_downloading ::
  "nat \<Rightarrow> piece_picker \<Rightarrow> piece_block \<Rightarrow> nat \<Rightarrow> piece_state_t \<Rightarrow> (piece_picker \<times> bool) option" where
  "mark_as_downloading rnd s block peer state =
     (if \<not> pp_downloading (m_piece_map s ! piece_index block)
      then
        let (s, k) = start_download rnd s (piece_index block);
            s = upd_dp s k (\<lambda>d. d\<lparr>dp_state := state\<rparr>);
            s = upd_block s k (block_index block)
                  (\<lambda>b. b\<lparr>bi_state := state_requested, bi_peer := peer, bi_num_peers := 1\<rparr>);
            s = upd_dp s k (\<lambda>d. d\<lparr>dp_requested := dp_requested d + 1\<rparr>)
        in Some (update_full s k, True)
      else
        case find_dl_piece s (piece_index block) of None \<Rightarrow> None
        | Some k \<Rightarrow>
            let info = block_at s k (block_index block) in
            if bi_state info = state_writing \<or> bi_state info = state_finished then Some (s, False)
            else
              let s = upd_block s k (block_index block) (\<lambda>b. b\<lparr>bi_peer := peer\<rparr>);
                  s = (if bi_state info \<noteq> state_requested
                       then update_full
                              (upd_dp (upd_block s k (block_index block) (\<lambda>b. b\<lparr>bi_state := state_requested\<rparr>)) k
                                 (\<lambda>d. d\<lparr>dp_requested := dp_requested d + 1\<rparr>)) k
                       else s);
                  s = upd_block s k (block_index block) (\<lambda>b. b\<lparr>bi_num_peers := bi_num_peers b + 1\<rparr>);
                  s = (if dp_state (m_downloads s ! k) = none
                       then upd_dp s k (\<lambda>d. d\<lparr>dp_state := state\<rparr>) else s)
              in Some (s, True))"

definition mark_as_writing :: "nat \<Rightarrow> piece_picker \<Rightarrow> piece_block \<Rightarrow> nat \<Rightarrow> (piece_picker \<times> bool) option" where
  "mark_as_writing rnd s block peer =
     (if \<not> pp_downloading (m_piece_map s ! piece_index block)
      then
        if have_piece s (piece_index block) then Some (s, False)
        else
          let (s, k) = start_download rnd s (piece_index block);
              s = upd_dp s k (\<lambda>d. d\<lparr>dp_state := none\<rparr>);
              s = upd_block s k (block_index block)
                    (\<lambda>b. b\<lparr>bi_state := state_writing, bi_peer := peer, bi_num_peers := 0\<rparr>);
              s = upd_dp s k (\<lambda>d. d\<lparr>dp_writing := 1\<rparr>)
          in Some (update_full s k, True)
      else
        case find_dl_piece s (piece_index block) of None \<Rightarrow> None
        | Some k \<Rightarrow>
            let info = block_at s k (block_index block);
                s = upd_block s k (block_index block) (\<lambda>b. b\<lparr>bi_peer := peer\<rparr>);
                s = (if bi_state info = state_requested
                     then upd_dp s k (\<lambda>d. d\<lparr>dp_requested := dp_requested d - 1\<rparr>) else s)
            in if bi_state info = state_writing \<or> bi_state info = state_finished then Some (s, False)
               else
                 let s = upd_dp s k (\<lambda>d. d\<lparr>dp_writing := dp_writing d + 1\<rparr>);
                     s = upd_block s k (block_index block) (\<lambda>b. b\<lparr>bi_state := state_writing, bi_num_peers := 0\<rparr>);
                     s = (if dp_requested (m_downloads s ! k) = 0
                          then upd_dp s k (\<lambda>d. d\<lparr>dp_state := none\<rparr>) else s)
                 in Some (s, True))"

definition dl_total :: "downloading_piece \<Rightarrow> int" where
  "dl_total d = dp_finished d + dp_writing d + dp_requested d"

text \<open>\<^verbatim>\<open>write_failed\<close> tests the iterator itself: a piece that is not being downloaded is left alone.\<close>

definition write_failed :: "nat \<Rightarrow> piece_picker \<Rightarrow> piece_block \<Rightarrow> piece_picker" where
  "write_failed rnd s block =
     (case find_dl_piece s (piece_index block) of None \<Rightarrow> s
      | Some k \<Rightarrow>
          let info = block_at s k (block_index block) in
          if bi_state info = state_finished then s
          else
            let s = (if bi_state info = state_writing
                     then upd_dp s k (\<lambda>d. d\<lparr>dp_writing := dp_writing d - 1\<rparr>) else s);
                s = upd_block s k (block_index block) (\<lambda>b. b\<lparr>bi_peer := 0, bi_state := state_none\<rparr>);
                s = update_full s k
            in if dl_total (m_downloads s ! k) = 0
               then
                 let prev_priority = prio_of s (piece_index block);
                     s = erase_download_piece s k
                 in if m_dirty s then s
                    else if prio_of s (piece_index block) = prev_priority then s
                    else refile rnd s (piece_index block) prev_priority
               else s)"

definition mark_as_finished :: "nat \<Rightarrow> piece_picker \<Rightarrow> piece_block \<Rightarrow> nat \<Rightarrow> piece_picker option" where
  "mark_as_finished rnd s block peer =
     (if \<not> pp_downloading (m_piece_map s ! piece_index block)
      then
        if have_piece s (piece_index block) then Some s
        else
          let (s, k) = start_download rnd s (piece_index block);
              s = upd_dp s k (\<lambda>d. d\<lparr>dp_state := none\<rparr>);
              s = upd_block s k (block_index block) (\<lambda>b. b\<lparr>bi_peer := peer\<rparr>);
              s = (if bi_state (block_at s k (block_index block)) \<noteq> state_finished
                   then upd_dp s k (\<lambda>d. d\<lparr>dp_finished := dp_finished d + 1\<rparr>) else s)
          in Some (upd_block s k (block_index block) (\<lambda>b. b\<lparr>bi_state := state_finished\<rparr>))
      else
        case find_dl_piece s (piece_index block) of None \<Rightarrow> None
        | Some k \<Rightarrow>
            let info = block_at s k (block_index block) in
            if bi_state info = state_finished then Some s
            else
              let s = upd_block s k (block_index block) (\<lambda>b. b\<lparr>bi_peer := peer\<rparr>);
                  s = upd_dp s k (\<lambda>d. d\<lparr>dp_finished := dp_finished d + 1\<rparr>);
                  s = (if bi_state info = state_writing
                       then upd_dp s k (\<lambda>d. d\<lparr>dp_writing := dp_writing d - 1\<rparr>) else s)
              in Some (upd_block s k (block_index block) (\<lambda>b. b\<lparr>bi_state := state_finished\<rparr>)))"

definition abort_download :: "nat \<Rightarrow> piece_picker \<Rightarrow> piece_block \<Rightarrow> nat \<Rightarrow> piece_picker option" where
  "abort_download rnd s block peer =
     (if \<not> pp_downloading (m_piece_map s ! piece_index block) then Some s
      else case find_dl_piece s (piece_index block) of None \<Rightarrow> None
      | Some k \<Rightarrow>
          if bi_state (block_at s k (block_index block)) \<noteq> state_requested then Some s
          else
            let s = (if bi_num_peers (block_at s k (block_index block)) > 0
                     then upd_block s k (block_index block) (\<lambda>b. b\<lparr>bi_num_peers := bi_num_peers b - 1\<rparr>) else s);
                s = (if bi_peer (block_at s k (block_index block)) = peer
                     then upd_block s k (block_index block) (\<lambda>b. b\<lparr>bi_peer := 0\<rparr>) else s)
            in if bi_num_peers (block_at s k (block_index block)) > 0 then Some s
               else
                 let s = upd_block s k (block_index block) (\<lambda>b. b\<lparr>bi_peer := 0, bi_state := state_none\<rparr>);
                     s = upd_dp s k (\<lambda>d. d\<lparr>dp_requested := dp_requested d - 1\<rparr>);
                     s = update_full s k
                 in if dl_total (m_downloads s ! k) = 0
                    then
                      let prev_prio = prio_of s (piece_index block);
                          s = erase_download_piece s k
                      in Some (if m_dirty s then s
                               else if prev_prio = -1 \<and> prio_of s (piece_index block) \<ge> 0
                               then picker_add rnd s (piece_index block)
                               else if prev_prio \<ge> 0
                               then picker_update rnd s (nat prev_prio) (pp_index (m_piece_map s ! piece_index block))
                               else s)
                    else Some (if dp_requested (m_downloads s ! k) = 0
                               then upd_dp s k (\<lambda>d. d\<lparr>dp_state := none\<rparr>) else s))"

definition restore_piece :: "nat \<Rightarrow> piece_picker \<Rightarrow> nat \<Rightarrow> piece_picker option" where
  "restore_piece rnd s index =
     (case find_dl_piece s index of None \<Rightarrow> None
      | Some k \<Rightarrow>
          let prev_priority = prio_of s index;
              s = erase_download_piece s k
          in Some (if prio_of s index = prev_priority then s
                   else if m_dirty s then s
                   else refile rnd s index prev_priority))"

definition clear_peer :: "piece_picker \<Rightarrow> nat \<Rightarrow> piece_picker" where
  "clear_peer s peer =
     s\<lparr>m_block_info := map (\<lambda>b. if bi_peer b = peer then b\<lparr>bi_peer := 0\<rparr> else b) (m_block_info s)\<rparr>"


subsection \<open>Queries\<close>

definition piece_info :: "piece_picker \<Rightarrow> nat \<Rightarrow> downloading_piece \<Rightarrow> downloading_piece option" where
  "piece_info s index st =
     (if pp_downloading (m_piece_map s ! index)
      then map_option (\<lambda>k. (m_downloads s ! k)\<lparr>dp_info := 0\<rparr>) (find_dl_piece s index)
      else
        let st = st\<lparr>dp_info := 0, dp_index := index, dp_writing := 0, dp_requested := 0\<rparr> in
        Some (if pp_have (m_piece_map s ! index)
              then st\<lparr>dp_finished := int (blocks_in_piece s index)\<rparr> else st\<lparr>dp_finished := 0\<rparr>))"

definition dc_step :: "int \<times> int \<times> int \<Rightarrow> piece_pos \<Rightarrow> int \<times> int \<times> int" where
  "dc_step r p =
     (case r of (min_availability, integer_part, fraction_part) \<Rightarrow>
        let peer_count = uint (pp_peer_count p) + (if pp_have p then 1 else 0) in
        if min_availability > peer_count then (peer_count, 1, fraction_part + integer_part)
        else if peer_count = min_availability then (min_availability, integer_part + 1, fraction_part)
        else (min_availability, integer_part, fraction_part + 1))"

definition distributed_copies :: "piece_picker \<Rightarrow> int \<times> int" where
  "distributed_copies s =
     (let num_pieces = int (length (m_piece_map s)) in
      if num_pieces = 0 then (1, 0)
      else case foldl dc_step (0xffff, 0, 0) (m_piece_map s) of
        (min_availability, integer_part, fraction_part) \<Rightarrow>
          (min_availability + m_seeds s, fraction_part * 1000 div num_pieces))"

definition get_availability :: "piece_picker \<Rightarrow> int list" where
  "get_availability s = map (\<lambda>p. uint (pp_peer_count p) + m_seeds s) (m_piece_map s)"

definition is_piece_finished :: "piece_picker \<Rightarrow> nat \<Rightarrow> bool option" where
  "is_piece_finished s index =
     (if \<not> pp_downloading (m_piece_map s ! index) then Some False
      else map_option (\<lambda>k. \<not> dp_finished (m_downloads s ! k) + dp_writing (m_downloads s ! k)
                            < int (blocks_in_piece s index)) (find_dl_piece s index))"

definition is_requested :: "piece_picker \<Rightarrow> piece_block \<Rightarrow> bool option" where
  "is_requested s block =
     (if \<not> pp_downloading (m_piece_map s ! piece_index block) then Some False
      else map_option (\<lambda>k. bi_state (block_at s k (block_index block)) = state_requested)
             (find_dl_piece s (piece_index block)))"

definition is_downloaded :: "piece_picker \<Rightarrow> piece_block \<Rightarrow> bool option" where
  "is_downloaded s block =
     (if pp_index (m_piece_map s ! piece_index block) = we_have_index then Some True
      else if \<not> pp_downloading (m_piece_map s ! piece_index block) then Some False
      else map_option (\<lambda>k. bi_state (block_at s k (block_index block)) = state_finished
                          \<or> bi_state (block_at s k (block_index block)) = state_writing)
             (find_dl_piece s (piece_index block)))"

definition is_finished :: "piece_picker \<Rightarrow> piece_block \<Rightarrow> bool option" where
  "is_finished s block =
     (if pp_index (m_piece_map s ! piece_index block) = we_have_index then Some True
      else if \<not> pp_downloading (m_piece_map s ! piece_index block) then Some False
      else map_option (\<lambda>k. bi_state (block_at s k (block_index block)) = state_finished)
             (find_dl_piece s (piece_index block)))"

definition num_peers :: "piece_picker \<Rightarrow> piece_block \<Rightarrow> nat option" where
  "num_peers s block =
     (if \<not> pp_downloading (m_piece_map s ! piece_index block) then Some 0
      else map_option (\<lambda>k. unat (bi_num_peers (block_at s k (block_index block))))
             (find_dl_piece s (piece_index block)))"

definition get_downloaders :: "piece_picker \<Rightarrow> nat \<Rightarrow> nat list option" where
  "get_downloaders s index =
     map_option (\<lambda>k. map (\<lambda>j. bi_peer (block_at s k j)) [0..<blocks_in_piece s index]) (find_dl_piece s index)"

definition get_downloader :: "piece_picker \<Rightarrow> piece_block \<Rightarrow> nat" where
  "get_downloader s block =
     (case find_dl_piece s (piece_index block) of None \<Rightarrow> 0
      | Some k \<Rightarrow>
          if bi_state (block_at s k (block_index block)) = state_none then 0
          else bi_peer (block_at s k (block_index block)))"

definition unverified_blocks :: "piece_picker \<Rightarrow> int" where
  "unverified_blocks s = foldl (\<lambda>counter d. counter + dp_finished d) 0 (m_downloads s)"

definition is_piece_free :: "piece_picker \<Rightarrow> nat \<Rightarrow> bitfield \<Rightarrow> bool" where
  "is_piece_free s piece bitmask \<longleftrightarrow>
     get_bit bitmask piece \<and> \<not> pp_have (m_piece_map s ! piece) \<and> \<not> pp_filtered (m_piece_map s ! piece)"

definition can_pick :: "piece_picker \<Rightarrow> nat \<Rightarrow> bitfield \<Rightarrow> bool" where
  "can_pick s piece bitmask \<longleftrightarrow>
     get_bit bitmask piece \<and> \<not> pp_have (m_piece_map s ! piece) \<and>
     \<not> pp_downloading (m_piece_map s ! piece) \<and> \<not> pp_filtered (m_piece_map s ! piece)"

subsection \<open>The invariant the code asserts\<close>

definition verify_priority :: "piece_picker \<Rightarrow> nat \<Rightarrow> nat \<Rightarrow> int \<Rightarrow> bool" where
  "verify_priority s range_start range_end prio \<longleftrightarrow>
     range_start \<le> range_end \<and> range_end \<le> length (m_pieces s) \<and>
     list_all (\<lambda>index. index \<ge> 0 \<and> index < int (length (m_piece_map s)) \<and> prio_of s (nat index) = prio)
       (take (range_end - range_start) (drop range_start (m_pieces s)))"

fun verify_buckets :: "piece_picker \<Rightarrow> nat \<Rightarrow> int \<Rightarrow> nat list \<Rightarrow> bool" where
  "verify_buckets s start prio [] = True"
| "verify_buckets s start prio (b # B) = (verify_priority s start b prio \<and> verify_buckets s b (prio + 1) B)"

definition dl_blocks :: "piece_picker \<Rightarrow> downloading_piece \<Rightarrow> block_info list" where
  "dl_blocks s d = map (\<lambda>k. m_block_info s ! (dp_info d + k)) [0..<blocks_in_piece s (dp_index d)]"

definition count_state :: "block_state \<Rightarrow> block_info list \<Rightarrow> int" where
  "count_state st bs = int (length (filter (\<lambda>b. bi_state b = st) bs))"

definition block_ok :: "block_info \<Rightarrow> bool" where
  "block_ok b \<longleftrightarrow>
     (bi_state b = state_finished \<longrightarrow> bi_num_peers b = 0) \<and>
     (bi_state b = state_requested \<longrightarrow> bi_num_peers b > 0) \<and>
     (bi_state b = state_writing \<longrightarrow> bi_num_peers b = 0)"

definition check_download :: "piece_picker \<Rightarrow> downloading_piece \<Rightarrow> bool" where
  "check_download s d \<longleftrightarrow>
     list_all block_ok (dl_blocks s d) \<and>
     (count_state state_requested (dl_blocks s d) > 0 \<longleftrightarrow> dp_state d \<noteq> none) \<and>
     count_state state_requested (dl_blocks s d) = dp_requested d \<and>
     count_state state_writing (dl_blocks s d) = dp_writing d \<and>
     count_state state_finished (dl_blocks s d) = dp_finished d"

text \<open>The one assertion on \<^verbatim>\<open>full\<close>.\<close>

definition check_full :: "piece_picker \<Rightarrow> downloading_piece \<Rightarrow> bool" where
  "check_full s d \<longleftrightarrow> (pp_full (m_piece_map s ! dp_index d) \<longrightarrow>
     count_state state_finished (dl_blocks s d) + count_state state_writing (dl_blocks s d)
     + count_state state_requested (dl_blocks s d) = int (blocks_in_piece s (dp_index d)))"

definition check_piece :: "piece_picker \<Rightarrow> nat \<Rightarrow> bool" where
  "check_piece s index \<longleftrightarrow>
     (let p = m_piece_map s ! index; prio = prio_of s index in
      (pp_have p \<longrightarrow> \<not> pp_downloading p) \<and>
      (prio = -1 \<or> pp_downloading p = (prio mod 4 = 0)) \<and>
      (\<not> m_dirty s \<longrightarrow>
         prio < int (length (m_priority_boundries s)) \<and>
         (if prio \<ge> 0 then pp_index p < length (m_pieces s) \<and> m_pieces s ! pp_index p = int index
          else prio = -1 \<and> int index \<notin> set (m_pieces s))) \<and>
      length (filter (\<lambda>d. dp_index d = index) (m_downloads s)) = (if pp_downloading p then 1 else 0))"

text \<open>All assertions of \<^verbatim>\<open>check_invariant\<close> but those on \<^verbatim>\<open>full\<close>, and then all of them.\<close>

definition check_state :: "piece_picker \<Rightarrow> bool" where
  "check_state s \<longleftrightarrow>
     m_num_have s \<ge> 0 \<and> m_num_have_filtered s \<ge> 0 \<and> m_num_filtered s \<ge> 0 \<and> m_seeds s \<ge> 0 \<and>
     sorted_wrt (<) (map dp_index (m_downloads s)) \<and>
     list_all (check_download s) (m_downloads s) \<and>
     m_cursor s \<le> num_pieces s \<and> m_reverse_cursor s \<le> num_pieces s \<and>
     (m_reverse_cursor s > m_cursor s \<or> m_cursor s = num_pieces s \<and> m_reverse_cursor s = 0) \<and>
     (\<not> m_dirty s \<longrightarrow> m_priority_boundries s \<noteq> [] \<and> verify_buckets s 0 0 (m_priority_boundries s) \<and>
        last (m_priority_boundries s) = length (m_pieces s)) \<and>
     m_cursor s = cursor_forward (m_piece_map s) 0 \<and>
     m_reverse_cursor s = cursor_backward (m_piece_map s) (num_pieces s) \<and>
     list_all (check_piece s) [0..<num_pieces s] \<and>
     m_num_have s = int (length (filter pp_have (m_piece_map s))) \<and>
     m_num_filtered s = int (length (filter (\<lambda>p. pp_filtered p \<and> \<not> pp_have p) (m_piece_map s))) \<and>
     m_num_have_filtered s = int (length (filter (\<lambda>p. pp_filtered p \<and> pp_have p) (m_piece_map s))) \<and>
     (\<not> m_dirty s \<longrightarrow> list_all (\<lambda>i. prio_of s (nat i) \<ge> 0) (m_pieces s))"

definition check_invariant :: "piece_picker \<Rightarrow> bool" where
  "check_invariant s \<longleftrightarrow> check_state s \<and> list_all (check_full s) (m_downloads s)"

end
