(* ===== verification/Picker_Inv.thy ===== *)
theory Picker_Inv
  imports Picker_Ops
begin

text \<open>
  The invariant of the piece picker, in three parts that talk about different fields: the
  buckets (\<open>bkt_inv\<close>), the counters and cursors (\<open>cnt_inv\<close>) and the partially downloaded
  pieces (\<open>dl_inv\<close>). The last two and the priorities see the piece map only through
  \<open>pm_view\<close>, which forgets the positions, and the bucket operations keep that view.
\<close>

subsection \<open>The piece map without positions\<close>

definition pos_view :: "piece_pos \<Rightarrow> piece_pos" where
  "pos_view p = p\<lparr>pp_index := (if pp_have p then we_have_index else 0)\<rparr>"

definition pm_view :: "piece_pos list \<Rightarrow> piece_pos list" where
  "pm_view pm = map pos_view pm"

lemma pos_view_simps [simp]:
  "pp_have (pos_view p) = pp_have p" "pp_filtered (pos_view p) = pp_filtered p"
  "pp_downloading (pos_view p) = pp_downloading p" "pp_full (pos_view p) = pp_full p"
  "pp_priority (pos_view p) = pp_priority p" "pp_peer_count (pos_view p) = pp_peer_count p"
  "unwanted (pos_view p) = unwanted p" "priority seeds (pos_view p) = priority seeds p"
  by (simp_all add: pos_view_def pp_have_def pp_filtered_def unwanted_def priority_def we_have_index_def Let_def)

lemma pm_view_length: "pm_view pm' = pm_view pm \<Longrightarrow> length pm' = length pm"
  unfolding pm_view_def by (metis length_map)

lemma pm_view_nth: "pm_view pm' = pm_view pm \<Longrightarrow> i < length pm \<Longrightarrow> pos_view (pm' ! i) = pos_view (pm ! i)"
  unfolding pm_view_def by (metis length_map nth_map)

lemma pm_view_map:
  assumes "pm_view pm' = pm_view pm" "\<And>p. f (pos_view p) = f p"
  shows "map f pm' = map f pm"
  using assms unfolding pm_view_def by (metis (mono_tags, lifting) map_map comp_apply map_cong)

lemma priority_pm_view:
  "pm_view pm' = pm_view pm \<Longrightarrow> i < length pm \<Longrightarrow> priority seeds (pm' ! i) = priority seeds (pm ! i)"
  using pm_view_nth [of pm' pm i] by (metis pos_view_simps(8))

lemma flags_pm_view:
  assumes "pm_view pm' = pm_view pm" "i < length pm"
  shows "pp_have (pm' ! i) = pp_have (pm ! i)" "pp_filtered (pm' ! i) = pp_filtered (pm ! i)"
    "pp_downloading (pm' ! i) = pp_downloading (pm ! i)" "pp_full (pm' ! i) = pp_full (pm ! i)"
    "unwanted (pm' ! i) = unwanted (pm ! i)" "pp_priority (pm' ! i) = pp_priority (pm ! i)"
    "pp_peer_count (pm' ! i) = pp_peer_count (pm ! i)"
  using pm_view_nth [OF assms] by (metis pos_view_simps)+

subsection \<open>Moves\<close>

text \<open>\<open>moved s s'\<close>: nothing but the order of \<^verbatim>\<open>m_pieces\<close> is different.\<close>

definition moved :: "piece_picker \<Rightarrow> piece_picker \<Rightarrow> bool" where
  "moved s s' \<longleftrightarrow>
     s' = s\<lparr>m_pieces := m_pieces s', m_piece_map := m_piece_map s',
            m_priority_boundries := m_priority_boundries s'\<rparr> \<and>
     pm_view (m_piece_map s') = pm_view (m_piece_map s)"

lemma moved_refl [simp]: "moved s s"
  by (simp add: moved_def)

lemma moved_fields:
  assumes "moved s s'"
  shows "m_seeds s' = m_seeds s" "m_downloads s' = m_downloads s" "m_block_info s' = m_block_info s"
    "m_blocks_per_piece s' = m_blocks_per_piece s" "m_blocks_in_last_piece s' = m_blocks_in_last_piece s"
    "m_num_filtered s' = m_num_filtered s" "m_num_have_filtered s' = m_num_have_filtered s"
    "m_num_have s' = m_num_have s" "m_cursor s' = m_cursor s" "m_reverse_cursor s' = m_reverse_cursor s"
    "m_sparse_regions s' = m_sparse_regions s" "m_dirty s' = m_dirty s"
    "length (m_piece_map s') = length (m_piece_map s)" "pm_view (m_piece_map s') = pm_view (m_piece_map s)"
proof -
  obtain a b c where s': "s' = s\<lparr>m_pieces := a, m_piece_map := b, m_priority_boundries := c\<rparr>"
    and v: "pm_view (m_piece_map s') = pm_view (m_piece_map s)"
    using assms unfolding moved_def by blast
  show "m_seeds s' = m_seeds s" "m_downloads s' = m_downloads s" "m_block_info s' = m_block_info s"
    "m_blocks_per_piece s' = m_blocks_per_piece s" "m_blocks_in_last_piece s' = m_blocks_in_last_piece s"
    "m_num_filtered s' = m_num_filtered s" "m_num_have_filtered s' = m_num_have_filtered s"
    "m_num_have s' = m_num_have s" "m_cursor s' = m_cursor s" "m_reverse_cursor s' = m_reverse_cursor s"
    "m_sparse_regions s' = m_sparse_regions s" "m_dirty s' = m_dirty s"
    unfolding s' by simp_all
  show "length (m_piece_map s') = length (m_piece_map s)" "pm_view (m_piece_map s') = pm_view (m_piece_map s)"
    using v pm_view_length by blast+
qed

lemma bucketed_length:
  assumes "bucketed pf pm mp B"
  shows "length mp \<le> length pm"
proof -
  have "in_map pm mp" "distinct mp" using assms unfolding bucketed_def by blast+
  then have "inj_on nat (set mp)" "nat ` set mp \<subseteq> {..<length pm}" "distinct mp"
    unfolding in_map_def inj_on_def by (auto simp: eq_nat_nat_iff)
  then have "card (set mp) \<le> length pm"
    by (metis card_image card_lessThan card_mono finite_lessThan)
  then show ?thesis using \<open>distinct mp\<close> by (simp add: distinct_card)
qed

lemma bucketed_index:
  assumes "bucketed pf pm mp B" "x \<in> set mp"
  shows "pp_index (pm ! nat x) < length mp" "mp ! pp_index (pm ! nat x) = x"
proof -
  obtain j where j: "j < length mp" "mp ! j = x" using assms(2) by (meson in_set_conv_nth)
  moreover have "pp_index (pm ! nat x) = j" using assms(1) j unfolding bucketed_def idx_at_def by auto
  ultimately show "pp_index (pm ! nat x) < length mp" "mp ! pp_index (pm ! nat x) = x" by simp_all
qed

lemma bucketed_mem:
  assumes "bucketed pf pm mp B" "i < length pm"
  shows "int i \<in> set mp \<longleftrightarrow> 0 \<le> pf i"
proof
  assume "int i \<in> set mp"
  with assms(1) obtain bs where "bkts_ok pf 0 bs" "int i \<in> set (concat bs)" unfolding bucketed_def by blast
  from bkts_ok_nonneg [OF this] show "0 \<le> pf i" by simp
qed (use assms in \<open>simp add: bucketed_def\<close>)

lemma bucketed_cong:
  assumes "bucketed pf pm mp B" "\<And>i. i < length pm \<Longrightarrow> pf' i = pf i"
  shows "bucketed pf' pm mp B"
proof -
  obtain bs where bs: "bs \<noteq> []" "mp = concat bs" "B = bounds 0 bs" "bkts_ok pf 0 bs"
    using assms(1) unfolding bucketed_def by blast
  have "in_map pm mp" using assms(1) unfolding bucketed_def by blast
  then have "\<forall>x \<in> set (concat bs). pf' (nat x) = pf (nat x)"
    using assms(2) bs(2) unfolding in_map_def by blast
  then have "bkts_ok pf' 0 bs" using bs(4) bkts_ok_cong by blast
  then show ?thesis using assms bs unfolding bucketed_def by auto
qed

lemma bucketed_new_pm:
  assumes "bucketed pf pm mp B" "length pm' = length pm"
    and "\<And>i. i < length pm \<Longrightarrow> int i \<in> set mp \<Longrightarrow> pp_index (pm' ! i) = pp_index (pm ! i)"
  shows "bucketed pf pm' mp B"
proof -
  have m: "in_map pm mp" using assms(1) unfolding bucketed_def by blast
  have "pp_index (pm' ! nat (mp ! j)) = pp_index (pm ! nat (mp ! j))" if "j < length mp" for j
    using m assms(3) [of "nat (mp ! j)"] that nth_mem [OF that] unfolding in_map_def by simp
  then have "idx_at pm' mp 0 = idx_at pm mp 0" unfolding idx_at_def by simp
  then show ?thesis using assms(1,2) unfolding bucketed_def in_map_def by simp
qed

lemma moved_view:
  assumes om: "only_moves s s'" and b: "bucketed pf (m_piece_map s') (m_pieces s') B"
    and len: "length (m_piece_map s) \<le> we_have_index"
    and nh: "\<And>i. int i \<in> set (m_pieces s') \<Longrightarrow> i < length (m_piece_map s) \<Longrightarrow> \<not> pp_have (m_piece_map s ! i)"
  shows "moved s s'"
proof -
  let ?pm = "m_piece_map s" and ?pm' = "m_piece_map s'"
  have re: "reindexed ?pm ?pm' (set (m_pieces s'))" using om by (simp add: only_moves_def)
  have "pos_view (?pm' ! k) = pos_view (?pm ! k)" if k: "k < length ?pm" for k
  proof (cases "int k \<in> set (m_pieces s')")
    case True
    have "pp_index (?pm' ! k) < length (m_pieces s')" using bucketed_index(1) [OF b True] by simp
    moreover have "length (m_pieces s') \<le> we_have_index"
      using bucketed_length [OF b] reindexed_length [OF re] len by simp
    ultimately have nh': "\<not> pp_have (?pm' ! k)" by (simp add: pp_have_def)
    have eq: "?pm' ! k = (?pm ! k)\<lparr>pp_index := pp_index (?pm' ! k)\<rparr>" using re k unfolding reindexed_def by blast
    have "pos_view (?pm' ! k) = (?pm' ! k)\<lparr>pp_index := 0\<rparr>" using nh' by (simp add: pos_view_def)
    also have "\<dots> = (?pm ! k)\<lparr>pp_index := 0\<rparr>" by (subst eq) simp
    also have "\<dots> = pos_view (?pm ! k)" using nh [OF True k] by (simp add: pos_view_def)
    finally show ?thesis .
  next
    case False
    then show ?thesis using re k unfolding reindexed_def by simp
  qed
  then have "pm_view ?pm' = pm_view ?pm"
    using reindexed_length [OF re] unfolding pm_view_def by (intro nth_equalityI) simp_all
  then show ?thesis using om unfolding moved_def only_moves_def by blast
qed

subsection \<open>Filing a piece again\<close>

lemma priority_ge: "pp_priority p \<le> 7 \<Longrightarrow> -1 \<le> priority seeds p"
proof -
  define n where "n = uint (pp_peer_count p)"
  have "0 \<le> n" "0 \<le> n div 2" by (simp_all add: n_def)
  then have a: "0 \<le> n div 2 * 4" "0 \<le> n" by simp_all
  show "pp_priority p \<le> 7 \<Longrightarrow> -1 \<le> priority seeds p"
    unfolding priority_def Let_def n_def [symmetric] pp_filtered_def
    by (auto; use a in linarith)
qed

lemma priority_have: "0 \<le> priority seeds p \<Longrightarrow> \<not> pp_have p"
  by (auto simp: priority_def)

definition prio_ok :: "piece_pos list \<Rightarrow> bool" where
  "prio_ok pm \<longleftrightarrow> (\<forall>p \<in> set pm. pp_priority p \<le> 7) \<and> length pm \<le> we_have_index"

definition bkt_inv :: "piece_picker \<Rightarrow> bool" where
  "bkt_inv s \<longleftrightarrow> prio_ok (m_piece_map s) \<and>
     (\<not> m_dirty s \<longrightarrow> bucketed (prio_of s) (m_piece_map s) (m_pieces s) (m_priority_boundries s))"

text \<open>
  The priority of piece \<open>i\<close> has changed from \<open>pf i\<close>, and those of the other pieces have not.
  \<^verbatim>\<open>refile\<close> covers the callers that add or update, \<open>picker_update\<close> alone those that only
  update.
\<close>

definition stale_at :: "piece_picker \<Rightarrow> nat \<Rightarrow> (nat \<Rightarrow> int) \<Rightarrow> bool" where
  "stale_at s i pf \<longleftrightarrow> prio_ok (m_piece_map s) \<and> i < length (m_piece_map s) \<and>
     bucketed pf (m_piece_map s) (m_pieces s) (m_priority_boundries s) \<and>
     (\<forall>j < length (m_piece_map s). j \<noteq> i \<longrightarrow> prio_of s j = pf j)"

lemma moves_fresh:
  assumes om: "only_moves s s'" and k: "prio_ok (m_piece_map s)"
    and b: "bucketed (prio_of s) (m_piece_map s') (m_pieces s') (m_priority_boundries s')"
  shows "moved s s'" "bucketed (prio_of s') (m_piece_map s') (m_pieces s') (m_priority_boundries s')"
proof -
  have l: "length (m_piece_map s') = length (m_piece_map s)"
    using om reindexed_length unfolding only_moves_def by blast
  show m: "moved s s'"
  proof (rule moved_view [OF om b])
    show "length (m_piece_map s) \<le> we_have_index" using k by (simp add: prio_ok_def)
    show "\<not> pp_have (m_piece_map s ! j)" if "int j \<in> set (m_pieces s')" "j < length (m_piece_map s)" for j
      using bucketed_mem [OF b, of j] that l priority_have by simp
  qed
  show "bucketed (prio_of s') (m_piece_map s') (m_pieces s') (m_priority_boundries s')"
  proof (rule bucketed_cong [OF b])
    show "prio_of s' j = prio_of s j" if "j < length (m_piece_map s')" for j
      using priority_pm_view [OF moved_fields(14) [OF m], of j "m_seeds s"] that
      by (simp only: moved_fields(1) [OF m] l)
  qed
qed

lemma fresh_bucketed:
  assumes om: "only_moves s s'" and st: "stale_at s i pf"
    and b: "bucketed (pf(i := prio_of s i)) (m_piece_map s') (m_pieces s') (m_priority_boundries s')"
  shows "moved s s'" "bucketed (prio_of s') (m_piece_map s') (m_pieces s') (m_priority_boundries s')"
proof -
  have l: "length (m_piece_map s') = length (m_piece_map s)"
    using om reindexed_length unfolding only_moves_def by blast
  have p: "(pf(i := prio_of s i)) j = prio_of s j" if "j < length (m_piece_map s)" for j
    using st that unfolding stale_at_def by simp
  have "bucketed (prio_of s) (m_piece_map s') (m_pieces s') (m_priority_boundries s')"
    using b l p by (intro bucketed_cong [OF b]) simp
  moreover have "prio_ok (m_piece_map s)" using st by (simp add: stale_at_def)
  ultimately show "moved s s'" "bucketed (prio_of s') (m_piece_map s') (m_pieces s') (m_priority_boundries s')"
    using moves_fresh [OF om] by blast+
qed

lemma picker_update_fresh:
  fixes rnd :: nat
  assumes st: "stale_at s i pf" and "0 \<le> pf i"
  defines "s' \<equiv> picker_update rnd s (nat (pf i)) (pp_index (m_piece_map s ! i))"
  shows "moved s s'" "bucketed (prio_of s') (m_piece_map s') (m_pieces s') (m_priority_boundries s')"
proof -
  let ?e = "pp_index (m_piece_map s ! i)"
  have b: "bucketed pf (m_piece_map s) (m_pieces s) (m_priority_boundries s)" and i: "i < length (m_piece_map s)"
    using st by (simp_all add: stale_at_def)
  have "int i \<in> set (m_pieces s)" using bucketed_mem [OF b i] assms(2) by simp
  from bucketed_index [OF b this] have e: "?e < length (m_pieces s)" "m_pieces s ! ?e = int i" by simp_all
  have "pp_priority (m_piece_map s ! i) \<le> 7" using st i by (simp add: stale_at_def prio_ok_def)
  then have "bucketed (pf(i := prio_of s i)) (m_piece_map s') (m_pieces s') (m_priority_boundries s') \<and> only_moves s s'"
    using picker_update_bucketed [OF b e(1), of "nat (pf i)" rnd] e(2) assms(2) priority_ge
    unfolding s'_def by simp
  then show "moved s s'" "bucketed (prio_of s') (m_piece_map s') (m_pieces s') (m_priority_boundries s')"
    using fresh_bucketed [OF _ st] by blast+
qed

lemma picker_add_fresh:
  fixes rnd :: nat
  assumes st: "stale_at s i pf" and "pf i < 0" "0 \<le> prio_of s i"
  defines "s' \<equiv> picker_add rnd s i"
  shows "moved s s'" "bucketed (prio_of s') (m_piece_map s') (m_pieces s') (m_priority_boundries s')"
proof -
  have b: "bucketed pf (m_piece_map s) (m_pieces s) (m_priority_boundries s)" and i: "i < length (m_piece_map s)"
    using st by (simp_all add: stale_at_def)
  have "int i \<notin> set (m_pieces s)" using bucketed_mem [OF b i] assms(2) by simp
  from picker_add_bucketed [OF b i this assms(3), of rnd]
  show "moved s s'" "bucketed (prio_of s') (m_piece_map s') (m_pieces s') (m_priority_boundries s')"
    using fresh_bucketed [OF _ st] unfolding s'_def by blast+
qed

lemma refile_fresh:
  fixes rnd :: nat
  assumes st: "stale_at s i pf" and "-1 \<le> pf i" "prio_of s i \<noteq> pf i"
  defines "s' \<equiv> refile rnd s i (pf i)"
  shows "moved s s'" "bucketed (prio_of s') (m_piece_map s') (m_pieces s') (m_priority_boundries s')"
proof -
  have "pp_priority (m_piece_map s ! i) \<le> 7" using st by (simp add: stale_at_def prio_ok_def)
  then have "-1 \<le> prio_of s i" by (rule priority_ge)
  then show "moved s s'" "bucketed (prio_of s') (m_piece_map s') (m_pieces s') (m_priority_boundries s')"
    using picker_add_fresh [OF st, of rnd] picker_update_fresh [OF st, of rnd] assms(2,3)
    unfolding s'_def refile_def by (cases "pf i = -1"; force)+
qed

lemma stale_update:
  assumes "bkt_inv s" "\<not> m_dirty s" "i < length (m_piece_map s)"
    and "m_piece_map s' = (m_piece_map s)[i := p]" "pp_priority p \<le> 7"
    and "pp_index p = pp_index (m_piece_map s ! i) \<or> prio_of s i < 0"
    and "m_pieces s' = m_pieces s" "m_priority_boundries s' = m_priority_boundries s" "m_seeds s' = m_seeds s"
  shows "stale_at s' i (prio_of s)"
  unfolding stale_at_def
proof (intro conjI allI impI)
  have b: "bucketed (prio_of s) (m_piece_map s) (m_pieces s) (m_priority_boundries s)" and k: "prio_ok (m_piece_map s)"
    using assms(1,2) by (simp_all add: bkt_inv_def)
  show "prio_ok (m_piece_map s')"
    using k assms(3-5) unfolding prio_ok_def by (auto dest!: subsetD [OF set_update_subset_insert])
  show "i < length (m_piece_map s')" using assms(3,4) by simp
  show "bucketed (prio_of s) (m_piece_map s') (m_pieces s') (m_priority_boundries s')"
    unfolding assms(7,8) using bucketed_mem [OF b assms(3)] assms(6)
    by (intro bucketed_new_pm [OF b]) (auto simp: assms(3,4) nth_list_update)
  show "prio_of s' j = prio_of s j" if "j < length (m_piece_map s')" "j \<noteq> i" for j
    using that assms(4,9) by simp
qed

lemma prio_ok_update: "prio_ok pm \<Longrightarrow> pp_priority p \<le> 7 \<Longrightarrow> prio_ok (pm[i := p])"
  unfolding prio_ok_def by (auto dest!: subsetD [OF set_update_subset_insert])

lemma prio_ok_nth: "prio_ok pm \<Longrightarrow> i < length pm \<Longrightarrow> pp_priority (pm ! i) \<le> 7"
  by (simp add: prio_ok_def)

lemma prio_ok_view: "pm_view pm' = pm_view pm \<Longrightarrow> prio_ok pm' = prio_ok pm"
proof -
  assume v: "pm_view pm' = pm_view pm"
  have "map pp_priority pm' = map pp_priority pm" by (rule pm_view_map [OF v]) simp
  then have "(\<forall>q \<in> set (map pp_priority pm'). q \<le> 7) = (\<forall>q \<in> set (map pp_priority pm). q \<le> 7)" by (simp only:)
  then show ?thesis using pm_view_length [OF v] by (simp add: prio_ok_def)
qed

subsection \<open>Counters and cursors\<close>

definition cnt_inv :: "piece_picker \<Rightarrow> bool" where
  "cnt_inv s \<longleftrightarrow>
     m_num_have s = int (length (filter pp_have (m_piece_map s))) \<and>
     m_num_filtered s = int (length (filter (\<lambda>p. pp_filtered p \<and> \<not> pp_have p) (m_piece_map s))) \<and>
     m_num_have_filtered s = int (length (filter (\<lambda>p. pp_filtered p \<and> pp_have p) (m_piece_map s))) \<and>
     m_cursor s = cursor_forward (m_piece_map s) 0 \<and>
     m_reverse_cursor s = cursor_backward (m_piece_map s) (num_pieces s)"

lemma length_filter_update:
  "i < length xs \<Longrightarrow>
   int (length (filter P (xs[i := y]))) = int (length (filter P xs)) - of_bool (P (xs ! i)) + of_bool (P y)"
proof (induction xs arbitrary: i)
  case (Cons x xs)
  then show ?case by (cases i) auto
qed simp

lemma takeWhile_first:
  assumes "k \<le> length xs" "\<And>j. j < k \<Longrightarrow> P (xs ! j)" "k < length xs \<Longrightarrow> \<not> P (xs ! k)"
  shows "length (takeWhile P xs) = k"
proof -
  have "takeWhile P (take k xs @ drop k xs) = take k xs"
  proof (cases "k < length xs")
    case True
    have "takeWhile P (take k xs @ drop k xs) = take k xs @ takeWhile P (drop k xs)"
      using assms(2) by (intro takeWhile_append2) (auto simp: in_set_conv_nth)
    moreover have "takeWhile P (drop k xs) = []" using assms(3) True by (simp add: Cons_nth_drop_Suc [symmetric])
    ultimately show ?thesis by simp
  next
    case False
    have "takeWhile P xs = xs" using assms(1,2) False by (subst takeWhile_eq_all_conv) (auto simp: in_set_conv_nth)
    then show ?thesis using False by simp
  qed
  then show ?thesis using assms(1) by simp
qed

lemma takeWhile_nth_not: "length (takeWhile P xs) < length xs \<Longrightarrow> \<not> P (xs ! length (takeWhile P xs))"
  by (rule nth_length_takeWhile)

lemma takeWhile_nth_all: "j < length (takeWhile P xs) \<Longrightarrow> P (xs ! j)"
  by (metis nth_mem set_takeWhileD takeWhile_nth)

lemma cursor_forward_iff:
  assumes "c \<le> length pm"
  shows "cursor_forward pm c = d \<longleftrightarrow>
    c \<le> d \<and> d \<le> length pm \<and> (\<forall>j. c \<le> j \<and> j < d \<longrightarrow> unwanted (pm ! j)) \<and> (d < length pm \<longrightarrow> \<not> unwanted (pm ! d))"
    (is "_ \<longleftrightarrow> ?R")
proof
  assume d: "cursor_forward pm c = d"
  let ?k = "length (takeWhile unwanted (drop c pm))"
  have k: "d = c + ?k" "?k \<le> length pm - c" using d length_takeWhile_le [of unwanted "drop c pm"]
    by (simp_all add: cursor_forward_def)
  have "unwanted (pm ! j)" if "c \<le> j" "j < d" for j
    using takeWhile_nth_all [of "j - c" unwanted "drop c pm"] that k by simp
  moreover have "\<not> unwanted (pm ! d)" if "d < length pm"
    using takeWhile_nth_not [of unwanted "drop c pm"] that k assms by simp
  ultimately show ?R using k assms by auto
next
  assume r: ?R
  have "length (takeWhile unwanted (drop c pm)) = d - c"
    using r assms by (intro takeWhile_first) auto
  then show "cursor_forward pm c = d" using r by (simp add: cursor_forward_def)
qed

lemma cursor_backward_iff:
  assumes "r \<le> length pm"
  shows "cursor_backward pm r = d \<longleftrightarrow>
    d \<le> r \<and> (\<forall>j. d \<le> j \<and> j < r \<longrightarrow> unwanted (pm ! j)) \<and> (0 < d \<longrightarrow> \<not> unwanted (pm ! (d - 1)))"
    (is "_ \<longleftrightarrow> ?R")
proof
  assume d: "cursor_backward pm r = d"
  let ?xs = "rev (take r pm)"
  let ?k = "length (takeWhile unwanted ?xs)"
  have k: "d = r - ?k" "?k \<le> r" using d length_takeWhile_le [of unwanted ?xs] assms
    by (simp_all add: cursor_backward_def)
  have x: "?xs ! j = pm ! (r - 1 - j)" if "j < r" for j using that assms by (simp add: rev_nth)
  have "unwanted (pm ! j)" if "d \<le> j" "j < r" for j
    using takeWhile_nth_all [of "r - 1 - j" unwanted ?xs] that k x [of "r - 1 - j"] by simp
  moreover have "\<not> unwanted (pm ! (d - 1))" if "0 < d"
    using takeWhile_nth_not [of unwanted ?xs] that k assms x [of ?k] by simp
  ultimately show ?R using k by auto
next
  assume r: ?R
  have x: "rev (take r pm) ! j = pm ! (r - 1 - j)" if "j < r" for j using that assms by (simp add: rev_nth)
  have "length (takeWhile unwanted (rev (take r pm))) = r - d"
  proof (rule takeWhile_first)
    show "unwanted (rev (take r pm) ! j)" if "j < r - d" for j using r that x [of j] by simp
    show "\<not> unwanted (rev (take r pm) ! (r - d))" if "r - d < length (rev (take r pm))"
      using r that x [of "r - d"] assms by simp
  qed (use assms in simp)
  then show "cursor_backward pm r = d" using r by (simp add: cursor_backward_def)
qed

text \<open>The cursor of a map in which piece \<open>i\<close> changed from wanted to unwanted, or back.\<close>

lemma cursor_forward_update:
  "i < c \<Longrightarrow> cursor_forward (pm[i := p]) c = cursor_forward pm c"
  by (simp add: cursor_forward_def)

lemma cursor_backward_update:
  "r \<le> i \<Longrightarrow> cursor_backward (pm[i := p]) r = cursor_backward pm r"
  by (simp add: cursor_backward_def)

lemma skip_cursors_ok:
  assumes i: "i < length pm" "\<not> unwanted (pm ! i)" "unwanted p"
    and s: "m_cursor s = cursor_forward pm 0" "m_reverse_cursor s = cursor_backward pm (length pm)"
    and m: "m_piece_map s = pm \<or> m_piece_map s = pm[i := p]"
  shows "m_cursor (skip_cursors s i) = cursor_forward (pm[i := p]) 0"
    "m_reverse_cursor (skip_cursors s i) = cursor_backward (pm[i := p]) (length pm)"
proof -
  define c where "c = cursor_forward pm 0"
  define r where "r = cursor_backward pm (length pm)"
  have c: "c \<le> length pm" "\<And>j. j < c \<Longrightarrow> unwanted (pm ! j)" "c < length pm \<Longrightarrow> \<not> unwanted (pm ! c)"
    using cursor_forward_iff [of 0 pm c] c_def by auto
  have r: "r \<le> length pm" "\<And>j. r \<le> j \<Longrightarrow> j < length pm \<Longrightarrow> unwanted (pm ! j)" "0 < r \<Longrightarrow> \<not> unwanted (pm ! (r - 1))"
    using cursor_backward_iff [of "length pm" pm r] r_def by auto
  have ci: "c \<le> i" "i < r" using c(2) [of i] r(2) [of i] i by (meson not_le)+
  have f: "cursor_forward (m_piece_map s) (Suc i) = cursor_forward pm (Suc i)" "length (m_piece_map s) = length pm"
    "cursor_backward (m_piece_map s) i = cursor_backward pm i"
    using m cursor_forward_update [of i "Suc i"] cursor_backward_update [of i i] by auto
  have fw: "cursor_forward (pm[i := p]) 0 = d"
    if "d \<le> length pm" "\<And>j. j < d \<Longrightarrow> j \<noteq> i \<Longrightarrow> unwanted (pm ! j)" "d \<noteq> i" "d < length pm \<Longrightarrow> \<not> unwanted (pm ! d)" for d
    using that i by (subst cursor_forward_iff) (auto simp: nth_list_update)
  have bw: "cursor_backward (pm[i := p]) (length pm) = d"
    if "d \<le> length pm" "\<And>j. d \<le> j \<Longrightarrow> j < length pm \<Longrightarrow> j \<noteq> i \<Longrightarrow> unwanted (pm ! j)" "d \<noteq> Suc i"
      "0 < d \<Longrightarrow> \<not> unwanted (pm ! (d - 1))" for d
    using that i by (subst cursor_backward_iff) (auto simp: nth_list_update)
  have "m_cursor (skip_cursors s i) = cursor_forward (pm[i := p]) 0 \<and>
    m_reverse_cursor (skip_cursors s i) = cursor_backward (pm[i := p]) (length pm)"
  proof (cases "c = i")
    case True
    show ?thesis
    proof (cases "r = Suc i")
      case True': True
      have uw: "unwanted (pm ! j)" if "j < length pm" "j \<noteq> i" for j
        using that c(2) [of j] r(2) [of j] True True' by (cases "j < i") auto
      have "cursor_forward (pm[i := p]) 0 = length pm" using uw i(1) by (intro fw) auto
      moreover have "cursor_backward (pm[i := p]) (length pm) = 0" using uw by (intro bw) auto
      ultimately show ?thesis using True True' s f by (simp add: skip_cursors_def c_def [symmetric] r_def [symmetric])
    next
      case False
      define d where "d = cursor_forward pm (Suc i)"
      have d: "Suc i \<le> d" "d \<le> length pm" "\<And>j. Suc i \<le> j \<Longrightarrow> j < d \<Longrightarrow> unwanted (pm ! j)"
        "d < length pm \<Longrightarrow> \<not> unwanted (pm ! d)"
        using cursor_forward_iff [of "Suc i" pm d] d_def i(1) by auto
      have "cursor_forward (pm[i := p]) 0 = d"
      proof (rule fw)
        show "unwanted (pm ! j)" if "j < d" "j \<noteq> i" for j using that c(2) d(3) True by (cases "j < i") auto
      qed (use d in auto)
      moreover have "cursor_backward (pm[i := p]) (length pm) = r"
        using r False by (intro bw) auto
      ultimately show ?thesis using True False s f
        by (simp add: skip_cursors_def c_def [symmetric] r_def [symmetric] d_def)
    qed
  next
    case False
    have fc: "cursor_forward (pm[i := p]) 0 = c" using c False by (intro fw) auto
    show ?thesis
    proof (cases "r = Suc i")
      case True
      define d where "d = cursor_backward pm i"
      have d: "d \<le> i" "\<And>j. d \<le> j \<Longrightarrow> j < i \<Longrightarrow> unwanted (pm ! j)" "0 < d \<Longrightarrow> \<not> unwanted (pm ! (d - 1))"
        using cursor_backward_iff [of i pm d] d_def i(1) by auto
      have "cursor_backward (pm[i := p]) (length pm) = d"
      proof (rule bw)
        show "unwanted (pm ! j)" if "d \<le> j" "j < length pm" "j \<noteq> i" for j
          using that r(2) d(2) True by (cases "j < i") auto
      qed (use d i in auto)
      then show ?thesis using True False fc s f
        by (simp add: skip_cursors_def c_def [symmetric] r_def [symmetric] d_def)
    next
      case False': False
      have "cursor_backward (pm[i := p]) (length pm) = r" using r False' by (intro bw) auto
      then show ?thesis using False False' fc s
        by (simp add: skip_cursors_def c_def [symmetric] r_def [symmetric])
    qed
  qed
  then show "m_cursor (skip_cursors s i) = cursor_forward (pm[i := p]) 0"
    "m_reverse_cursor (skip_cursors s i) = cursor_backward (pm[i := p]) (length pm)" by simp_all
qed

lemma skip_cursors_noop:
  assumes "i < length pm" "unwanted (pm ! i)" "m_cursor s = cursor_forward pm 0"
    "m_reverse_cursor s = cursor_backward pm (length pm)"
  shows "skip_cursors s i = s"
proof -
  have "m_cursor s \<noteq> i" using assms(1,2) cursor_forward_iff [of 0 pm i] unfolding assms(3) by auto
  moreover have "m_reverse_cursor s \<noteq> i + 1"
    using assms(1,2) cursor_backward_iff [of "length pm" pm "i + 1"] unfolding assms(4) by auto
  ultimately show ?thesis by (simp add: skip_cursors_def)
qed

lemma unskip_cursors_ok:
  assumes i: "i < length pm" "unwanted (pm ! i)" "\<not> unwanted p"
    and s: "c = cursor_forward pm 0" "r = cursor_backward pm (length pm)"
  defines "c' \<equiv> (if i < c then i else c)" and "r' \<equiv> (if i \<ge> r then i + 1 else r)"
  shows "c' = cursor_forward (pm[i := p]) 0" "r' = cursor_backward (pm[i := p]) (length pm)" "r' \<noteq> c'"
proof -
  have c: "c \<le> length pm" "\<And>j. j < c \<Longrightarrow> unwanted (pm ! j)" "c < length pm \<Longrightarrow> \<not> unwanted (pm ! c)"
    using cursor_forward_iff [of 0 pm c] s(1) by auto
  have r: "r \<le> length pm" "\<And>j. r \<le> j \<Longrightarrow> j < length pm \<Longrightarrow> unwanted (pm ! j)" "0 < r \<Longrightarrow> \<not> unwanted (pm ! (r - 1))"
    using cursor_backward_iff [of "length pm" pm r] s(2) by auto
  have "c \<noteq> i" "r \<noteq> Suc i" using c(3) r(3) i by auto
  then show "c' = cursor_forward (pm[i := p]) 0" "r' = cursor_backward (pm[i := p]) (length pm)"
    using c r i unfolding c'_def r'_def
    by (subst eq_commute, subst cursor_forward_iff cursor_backward_iff; auto simp: nth_list_update)+
  show "r' \<noteq> c'" using \<open>c \<noteq> i\<close> unfolding c'_def r'_def by (cases "i < c"; cases "i \<ge> r"; simp)
qed

end
