(* ===== verification/Picker_Blocks.thy ===== *)
theory Picker_Blocks
  imports Picker_Ops
begin

text \<open>
  The invariant of \<^verbatim>\<open>m_downloads\<close> and \<^verbatim>\<open>m_block_info\<close>: the entries are ordered by piece, each
  owns one slot of \<^verbatim>\<open>m_blocks_per_piece\<close> blocks, the used slots are the first ones, and the
  counters of an entry count the states of its blocks. It is stated on the vectors, with
  \<open>n\<close> pieces, so that the proofs do not carry the rest of the state.
\<close>

subsection \<open>Entries and slots\<close>

definition nblk :: "nat \<Rightarrow> nat \<Rightarrow> nat \<Rightarrow> nat \<Rightarrow> nat" where
  "nblk n bpp bilp i = (if i + 1 = n then bilp else bpp)"

definition blocks_of :: "nat \<Rightarrow> nat \<Rightarrow> nat \<Rightarrow> block_info list \<Rightarrow> downloading_piece \<Rightarrow> block_info list" where
  "blocks_of n bpp bilp bi d = map (\<lambda>k. bi ! (dp_info d + k)) [0..<nblk n bpp bilp (dp_index d)]"

definition block_wf :: "block_info \<Rightarrow> bool" where
  "block_wf b \<longleftrightarrow> (bi_num_peers b > 0 \<longleftrightarrow> bi_state b = state_requested)"

definition entry_ok :: "block_info list \<Rightarrow> downloading_piece \<Rightarrow> bool" where
  "entry_ok bs d \<longleftrightarrow>
     list_all block_wf bs \<and> (dp_requested d > 0 \<longleftrightarrow> dp_state d \<noteq> none) \<and>
     dp_requested d = count_state state_requested bs \<and>
     dp_writing d = count_state state_writing bs \<and>
     dp_finished d = count_state state_finished bs"

definition slots_ok :: "nat \<Rightarrow> downloading_piece list \<Rightarrow> bool" where
  "slots_ok bpp dls \<longleftrightarrow> distinct (map dp_info dls) \<and>
     (\<forall>d \<in> set dls. \<exists>q < length dls. dp_info d = q * bpp)"

definition dl_core :: "nat \<Rightarrow> nat \<Rightarrow> nat \<Rightarrow> downloading_piece list \<Rightarrow> block_info list \<Rightarrow> bool" where
  "dl_core n bpp bilp dls bi \<longleftrightarrow>
     0 < bpp \<and> bilp \<le> bpp \<and> sorted_wrt (<) (map dp_index dls) \<and> (\<forall>d \<in> set dls. dp_index d < n) \<and>
     slots_ok bpp dls \<and> length dls * bpp \<le> length bi \<and>
     (\<forall>d \<in> set dls. entry_ok (blocks_of n bpp bilp bi d) d)"

definition flags_ok :: "piece_pos list \<Rightarrow> downloading_piece list \<Rightarrow> bool" where
  "flags_ok pm dls \<longleftrightarrow>
     (\<forall>i < length pm. pp_downloading (pm ! i) \<longleftrightarrow> i \<in> dp_index ` set dls) \<and>
     (\<forall>i < length pm. pp_have (pm ! i) \<longrightarrow> \<not> pp_downloading (pm ! i))"

definition dl_inv :: "piece_picker \<Rightarrow> bool" where
  "dl_inv s \<longleftrightarrow>
     dl_core (length (m_piece_map s)) (m_blocks_per_piece s) (m_blocks_in_last_piece s) (m_downloads s) (m_block_info s) \<and>
     flags_ok (m_piece_map s) (m_downloads s)"

lemma blocks_in_piece_nblk:
  "blocks_in_piece s i = nblk (length (m_piece_map s)) (m_blocks_per_piece s) (m_blocks_in_last_piece s) i"
  by (simp add: blocks_in_piece_def nblk_def)

lemma dl_blocks_of:
  "dl_blocks s d = blocks_of (length (m_piece_map s)) (m_blocks_per_piece s) (m_blocks_in_last_piece s) (m_block_info s) d"
  by (simp add: dl_blocks_def blocks_of_def blocks_in_piece_nblk)

lemma length_blocks_of [simp]: "length (blocks_of n bpp bilp bi d) = nblk n bpp bilp (dp_index d)"
  by (simp add: blocks_of_def)

lemma nblk_le: "bilp \<le> bpp \<Longrightarrow> nblk n bpp bilp i \<le> bpp"
  by (simp add: nblk_def)

subsection \<open>Finding an entry\<close>

lemma lower_bound_sorted:
  assumes "sorted_wrt (<) (map dp_index dls)"
  shows "\<forall>d \<in> set (take (dl_lower_bound dls i) dls). dp_index d < i"
    and "\<forall>d \<in> set (drop (dl_lower_bound dls i) dls). i \<le> dp_index d"
    and "dl_lower_bound dls i \<le> length dls"
proof -
  have t: "take (dl_lower_bound dls i) dls = takeWhile (\<lambda>d. dp_index d < i) dls"
    unfolding dl_lower_bound_def by (rule takeWhile_eq_take [symmetric])
  have d: "drop (dl_lower_bound dls i) dls = dropWhile (\<lambda>d. dp_index d < i) dls"
    unfolding dl_lower_bound_def by (rule dropWhile_eq_drop [symmetric])
  show "\<forall>d \<in> set (take (dl_lower_bound dls i) dls). dp_index d < i"
    unfolding t using set_takeWhileD by fastforce
  show "\<forall>d \<in> set (drop (dl_lower_bound dls i) dls). i \<le> dp_index d"
    unfolding d using assms
  proof (induction dls)
    case (Cons a dls)
    then show ?case by (cases "dp_index a < i") (auto intro: less_imp_le order_trans)
  qed simp
  show "dl_lower_bound dls i \<le> length dls" unfolding dl_lower_bound_def by (rule length_takeWhile_le)
qed

lemma find_dl_piece_iff:
  assumes "sorted_wrt (<) (map dp_index (m_downloads s))"
  shows "find_dl_piece s i = Some k \<longleftrightarrow> k < length (m_downloads s) \<and> dp_index (m_downloads s ! k) = i"
proof -
  let ?dls = "m_downloads s" and ?l = "dl_lower_bound (m_downloads s) i"
  have "k = ?l" if k: "k < length ?dls" "dp_index (?dls ! k) = i"
  proof (rule ccontr)
    assume "k \<noteq> ?l"
    then consider "k < ?l" | "?l < k" by linarith
    then show False
    proof cases
      case 1
      then have "?dls ! k \<in> set (take ?l ?dls)" using k(1) by (auto simp: in_set_conv_nth intro: exI [of _ k])
      then show False using lower_bound_sorted(1) [OF assms] k(2) by auto
    next
      case 2
      then have l: "?l < length ?dls" using k(1) by simp
      then have "?dls ! ?l \<in> set (drop ?l ?dls)" by (simp add: Cons_nth_drop_Suc [symmetric])
      then have "i \<le> dp_index (?dls ! ?l)" using lower_bound_sorted(2) [OF assms] by blast
      moreover have "dp_index (?dls ! ?l) < dp_index (?dls ! k)"
        using sorted_wrt_nth_less [OF assms, of ?l k] 2 k(1) by simp
      ultimately show False using k(2) by simp
    qed
  qed
  moreover have "?l \<le> length ?dls" by (rule lower_bound_sorted(3) [OF assms])
  ultimately show ?thesis by (auto simp: find_dl_piece_def Let_def)
qed

lemma find_dl_piece_None:
  assumes "sorted_wrt (<) (map dp_index (m_downloads s))"
  shows "find_dl_piece s i = None \<longleftrightarrow> i \<notin> dp_index ` set (m_downloads s)"
proof -
  have "find_dl_piece s i = None \<longleftrightarrow> (\<forall>k. \<not> (k < length (m_downloads s) \<and> dp_index (m_downloads s ! k) = i))"
    unfolding find_dl_piece_iff [OF assms, symmetric] by (cases "find_dl_piece s i") auto
  also have "\<dots> \<longleftrightarrow> i \<notin> dp_index ` set (m_downloads s)" by (metis (no_types, lifting) image_iff in_set_conv_nth)
  finally show ?thesis .
qed

lemma find_dl_piece_downloading:
  assumes "dl_inv s" "i < length (m_piece_map s)" "pp_downloading (m_piece_map s ! i)"
  obtains k where "find_dl_piece s i = Some k" "k < length (m_downloads s)" "dp_index (m_downloads s ! k) = i"
proof -
  have so: "sorted_wrt (<) (map dp_index (m_downloads s))" and "i \<in> dp_index ` set (m_downloads s)"
    using assms by (simp_all add: dl_inv_def dl_core_def flags_ok_def)
  then obtain k where "find_dl_piece s i = Some k" using find_dl_piece_None by blast
  with that find_dl_piece_iff [OF so] show ?thesis by blast
qed

subsection \<open>One block and one entry change\<close>

lemma slot_bound:
  assumes "slots_ok bpp dls" "d \<in> set dls"
  shows "dp_info d + bpp \<le> length dls * bpp"
proof -
  obtain q where "q < length dls" "dp_info d = q * bpp" using assms unfolding slots_ok_def by blast
  then have "dp_info d + bpp = Suc q * bpp" "Suc q \<le> length dls" by simp_all
  then show ?thesis by (metis mult_le_mono1)
qed

lemma slots_apart:
  assumes "slots_ok bpp dls" "j < length dls" "k < length dls" "j \<noteq> k" "a < bpp" "b < bpp"
  shows "dp_info (dls ! j) + a \<noteq> dp_info (dls ! k) + b"
proof
  assume eq: "dp_info (dls ! j) + a = dp_info (dls ! k) + b"
  obtain p q where "dp_info (dls ! j) = p * bpp" "dp_info (dls ! k) = q * bpp"
    using assms(1-3) unfolding slots_ok_def by (meson nth_mem)
  then have "(p * bpp + a) div bpp = (q * bpp + b) div bpp" using eq by simp
  then have "p = q" using assms(5,6) by simp
  then have "dp_info (dls ! j) = dp_info (dls ! k)" using \<open>dp_info (dls ! j) = p * bpp\<close> \<open>dp_info (dls ! k) = q * bpp\<close> by simp
  then show False using assms(1-4) unfolding slots_ok_def by (simp add: distinct_conv_nth)
qed

lemma slots_ok_map:
  "slots_ok bpp dls \<longleftrightarrow> distinct (map dp_info dls) \<and>
     (\<forall>x \<in> set (map dp_info dls). \<exists>q < length (map dp_info dls). x = q * bpp)"
  by (simp add: slots_ok_def)

lemma slots_ok_update:
  assumes "slots_ok bpp dls" "k < length dls" "dp_info d = dp_info (dls ! k)"
  shows "slots_ok bpp (dls[k := d])"
proof -
  have "map dp_info (dls[k := d]) = map dp_info dls"
    using assms(2,3) by (simp add: map_update list_update_same_conv)
  then show ?thesis using assms(1) unfolding slots_ok_map by metis
qed

lemma count_state_update:
  "b < length bs \<Longrightarrow> count_state st (bs[b := x]) =
     count_state st bs - of_bool (bi_state (bs ! b) = st) + of_bool (bi_state x = st)"
  unfolding count_state_def
proof (induction bs arbitrary: b)
  case (Cons y bs)
  then show ?case by (cases b) auto
qed simp

lemma core_step:
  assumes c: "dl_core n bpp bilp dls bi" and k: "k < length dls" and b: "b < nblk n bpp bilp (dp_index (dls ! k))"
    and d: "dp_index d = dp_index (dls ! k)" "dp_info d = dp_info (dls ! k)"
    and e: "entry_ok ((blocks_of n bpp bilp bi (dls ! k))[b := x]) d"
  shows "dl_core n bpp bilp (dls[k := d]) (bi[dp_info (dls ! k) + b := x])"
proof -
  let ?bi = "bi[dp_info (dls ! k) + b := x]"
  have cc: "0 < bpp" "bilp \<le> bpp" "sorted_wrt (<) (map dp_index dls)" "\<forall>d \<in> set dls. dp_index d < n"
    "slots_ok bpp dls" "length dls * bpp \<le> length bi" "\<forall>d \<in> set dls. entry_ok (blocks_of n bpp bilp bi d) d"
    using c by (simp_all add: dl_core_def)
  have bb: "b < bpp" using b nblk_le [OF cc(2)] less_le_trans by blast
  have lt: "dp_info (dls ! k) + b < length bi"
    using slot_bound [OF cc(5), of "dls ! k"] k bb cc(6) by simp
  have mi: "map dp_index (dls[k := d]) = map dp_index dls"
    using k d(1) by (simp add: map_update list_update_same_conv)
  have "entry_ok (blocks_of n bpp bilp ?bi (dls[k := d] ! j)) (dls[k := d] ! j)" if j: "j < length dls" for j
  proof (cases "j = k")
    case True
    have "blocks_of n bpp bilp ?bi d = (blocks_of n bpp bilp bi (dls ! k))[b := x]"
      using d b lt by (intro nth_equalityI) (auto simp: blocks_of_def nth_list_update)
    then show ?thesis using True e k by simp
  next
    case False
    have "blocks_of n bpp bilp ?bi (dls ! j) = blocks_of n bpp bilp bi (dls ! j)"
    proof (rule nth_equalityI)
      fix a assume "a < length (blocks_of n bpp bilp ?bi (dls ! j))"
      then have "a < nblk n bpp bilp (dp_index (dls ! j))" by simp
      moreover from this have "a < bpp" using nblk_le [OF cc(2)] less_le_trans by blast
      then have "dp_info (dls ! j) + a \<noteq> dp_info (dls ! k) + b" by (rule slots_apart [OF cc(5) j k False _ bb])
      ultimately show "blocks_of n bpp bilp ?bi (dls ! j) ! a = blocks_of n bpp bilp bi (dls ! j) ! a"
        by (simp add: blocks_of_def)
    qed simp
    then show ?thesis using False cc(7) j by simp
  qed
  then have "\<forall>d' \<in> set (dls[k := d]). entry_ok (blocks_of n bpp bilp ?bi d') d'"
    by (auto simp: in_set_conv_nth)
  moreover have "\<forall>d' \<in> set (dls[k := d]). dp_index d' < n"
    using cc(4) k d(1) by (auto dest!: subsetD [OF set_update_subset_insert])
  ultimately show ?thesis
    using cc slots_ok_update [OF cc(5) k d(2)] unfolding dl_core_def mi by simp
qed

subsection \<open>An entry is added\<close>

lemma length_fill_blocks [simp]: "length (fill_blocks bi off n) = length bi"
  unfolding fill_blocks_def by (induction n) auto

lemma nth_fill_blocks:
  "j < length bi \<Longrightarrow> fill_blocks bi off n ! j = (if off \<le> j \<and> j < off + n then block_info_init else bi ! j)"
proof (induction n)
  case (Suc n)
  have "fill_blocks bi off (Suc n) = (fill_blocks bi off n)[off + n := block_info_init]" by (simp add: fill_blocks_def)
  moreover have "off \<le> j \<and> j < off + Suc n \<longleftrightarrow> off \<le> j \<and> j < off + n \<or> j = off + n" by auto
  ultimately show ?case using Suc by (simp add: nth_list_update)
qed (auto simp: fill_blocks_def)

lemma entry_ok_fresh:
  "dp_state d = none \<Longrightarrow> dp_requested d = 0 \<Longrightarrow> dp_writing d = 0 \<Longrightarrow> dp_finished d = 0 \<Longrightarrow>
   entry_ok (replicate m block_info_init) d"
  by (auto simp: entry_ok_def count_state_def block_wf_def block_info_init_def list_all_iff)

lemma sorted_insert_at:
  assumes "sorted_wrt (<) (map dp_index dls)" "i \<notin> dp_index ` set dls" "dp_index d = i"
  shows "sorted_wrt (<) (map dp_index (vec_insert dls (dl_lower_bound dls i) d))"
proof -
  let ?l = "dl_lower_bound dls i"
  have s: "sorted_wrt (<) (map dp_index (take ?l dls @ drop ?l dls))" using assms(1) by simp
  have "dp_index a < i" if "a \<in> set (take ?l dls)" for a using lower_bound_sorted(1) [OF assms(1)] that by blast
  moreover have "i < dp_index a" if "a \<in> set (drop ?l dls)" for a
    using lower_bound_sorted(2) [OF assms(1)] that assms(2) in_set_dropD by (metis image_eqI le_neq_implies_less)
  ultimately show ?thesis
    using s unfolding map_append sorted_wrt_append vec_insert_def by (auto simp: assms(3))
qed

lemma add_download_piece_core:
  assumes c: "dl_core n (m_blocks_per_piece s) bilp (m_downloads s) (m_block_info s)"
    and i: "i < n" "i \<notin> dp_index ` set (m_downloads s)" and r: "add_download_piece s i = (s', k)"
  shows "dl_core n (m_blocks_per_piece s) bilp (m_downloads s') (m_block_info s')"
    and "k < length (m_downloads s')" "dp_index (m_downloads s' ! k) = i"
    and "dp_state (m_downloads s' ! k) = none" "dp_requested (m_downloads s' ! k) = 0"
      "dp_writing (m_downloads s' ! k) = 0" "dp_finished (m_downloads s' ! k) = 0"
    and "blocks_of n (m_blocks_per_piece s) bilp (m_block_info s') (m_downloads s' ! k) =
           replicate (nblk n (m_blocks_per_piece s) bilp i) block_info_init"
    and "dp_index ` set (m_downloads s') = insert i (dp_index ` set (m_downloads s))"
    and "s' = s\<lparr>m_downloads := m_downloads s', m_block_info := m_block_info s'\<rparr>"
proof -
  let ?dls = "m_downloads s" and ?bpp = "m_blocks_per_piece s" and ?bi = "m_block_info s"
  define bx where "bx = length ?dls * ?bpp"
  define d where "d = \<lparr>dp_state = none, dp_index = i, dp_info = bx,
                dp_finished = 0, dp_writing = 0, dp_requested = 0\<rparr>"
  define bi1 where "bi1 = (if length ?bi < bx + ?bpp then vec_resize ?bi (bx + ?bpp) block_info_init else ?bi)"
  define bi2 where "bi2 = fill_blocks bi1 bx ?bpp"
  define dls where "dls = vec_insert ?dls (dl_lower_bound ?dls i) d"
  have cc: "0 < ?bpp" "bilp \<le> ?bpp" "sorted_wrt (<) (map dp_index ?dls)" "\<forall>d \<in> set ?dls. dp_index d < n"
    "slots_ok ?bpp ?dls" "bx \<le> length ?bi" "\<forall>d \<in> set ?dls. entry_ok (blocks_of n ?bpp bilp ?bi d) d"
    using c by (simp_all add: dl_core_def bx_def)
  have rr: "s' = s\<lparr>m_downloads := dls, m_block_info := bi2\<rparr>" "k = dl_lower_bound ?dls i"
    using r unfolding add_download_piece_def Let_def bx_def [symmetric] bi1_def [symmetric] d_def [symmetric]
      bi2_def [symmetric] dls_def [symmetric] by auto
  have k: "k \<le> length ?dls" unfolding rr by (rule lower_bound_sorted(3) [OF cc(3)])
  have kd: "k < length dls" "dls ! k = d" using k unfolding dls_def rr(2) vec_insert_def by (auto simp: nth_append)
  have sd: "set dls = insert d (set ?dls)" unfolding dls_def by simp
  have l1: "bx + ?bpp \<le> length bi1" "length ?bi \<le> length bi1" unfolding bi1_def by simp_all
  have old: "bi2 ! j = ?bi ! j" if "j < bx" for j
    using that cc(6) l1 unfolding bi2_def by (simp add: nth_fill_blocks bi1_def nth_vec_resize)
  have new: "blocks_of n ?bpp bilp bi2 d = replicate (nblk n ?bpp bilp i) block_info_init"
    using nblk_le [OF cc(2), of n i] l1(1) unfolding bi2_def blocks_of_def
    by (intro nth_equalityI) (auto simp: d_def nth_fill_blocks)
  have "entry_ok (blocks_of n ?bpp bilp bi2 e) e" if e: "e \<in> set ?dls" for e
  proof -
    have "dp_info e + ?bpp \<le> bx" using slot_bound [OF cc(5) e] by (simp add: bx_def)
    then have "blocks_of n ?bpp bilp bi2 e = blocks_of n ?bpp bilp ?bi e"
      using nblk_le [OF cc(2), of n "dp_index e"] unfolding blocks_of_def
      by (intro nth_equalityI) (auto intro!: old)
    then show ?thesis using cc(7) e by simp
  qed
  then have ent: "\<forall>e \<in> set dls. entry_ok (blocks_of n ?bpp bilp bi2 e) e"
    unfolding sd using new entry_ok_fresh [of d] by (simp add: d_def)
  have sl: "slots_ok ?bpp dls"
  proof -
    have "bx \<notin> dp_info ` set ?dls"
    proof
      assume "bx \<in> dp_info ` set ?dls"
      then obtain e where "e \<in> set ?dls" "dp_info e = bx" by force
      then show False using slot_bound [OF cc(5)] cc(1) by (fastforce simp: bx_def)
    qed
    then have "distinct (map dp_info (d # ?dls))" using cc(5) by (simp add: slots_ok_def d_def)
    moreover have "mset (map dp_info dls) = mset (map dp_info (d # ?dls))"
    proof -
      have "mset dls = mset (d # (take k ?dls @ drop k ?dls))" unfolding dls_def rr(2) vec_insert_def by (simp del: append_take_drop_id)
      then have "mset dls = mset (d # ?dls)" by simp
      then show ?thesis unfolding mset_map by simp
    qed
    ultimately have "distinct (map dp_info dls)" using mset_eq_imp_distinct_iff by blast
    moreover have "\<exists>q < length dls. dp_info e = q * ?bpp" if "e \<in> set dls" for e
      using that cc(5) unfolding sd slots_ok_def by (auto simp: d_def bx_def dls_def intro: less_SucI)
    ultimately show ?thesis by (simp add: slots_ok_def)
  qed
  show "dl_core n ?bpp bilp (m_downloads s') (m_block_info s')"
    using cc ent sl sorted_insert_at [OF cc(3) i(2), of d] i(1) l1 unfolding dl_core_def rr
    by (simp add: sd) (simp add: dls_def d_def bi2_def bx_def)
  show "k < length (m_downloads s')" "dp_index (m_downloads s' ! k) = i"
    "dp_state (m_downloads s' ! k) = none" "dp_requested (m_downloads s' ! k) = 0"
    "dp_writing (m_downloads s' ! k) = 0" "dp_finished (m_downloads s' ! k) = 0"
    "blocks_of n ?bpp bilp (m_block_info s') (m_downloads s' ! k) = replicate (nblk n ?bpp bilp i) block_info_init"
    "dp_index ` set (m_downloads s') = insert i (dp_index ` set ?dls)"
    "s' = s\<lparr>m_downloads := m_downloads s', m_block_info := m_block_info s'\<rparr>"
    using kd new by (simp_all add: rr(1) sd d_def)
qed

subsection \<open>An entry is removed\<close>

lemma length_copy_blocks [simp]: "length (copy_blocks bi src dst n) = length bi"
  unfolding copy_blocks_def by (induction n) auto

lemma nth_copy_blocks:
  assumes "src + m \<le> length bi" "dst + m \<le> length bi" "src + m \<le> dst \<or> dst + m \<le> src" "n \<le> m" "j < length bi"
  shows "copy_blocks bi src dst n ! j = (if dst \<le> j \<and> j < dst + n then bi ! (src + (j - dst)) else bi ! j)"
  using assms(4,5)
proof (induction n arbitrary: j)
  case (Suc n)
  have "copy_blocks bi src dst (Suc n) = (copy_blocks bi src dst n)[dst + n := copy_blocks bi src dst n ! (src + n)]"
    by (simp add: copy_blocks_def)
  moreover have "copy_blocks bi src dst n ! (src + n) = bi ! (src + n)"
    using Suc.IH [of "src + n"] Suc.prems assms(1,3) by auto
  moreover have "dst \<le> j \<and> j < dst + Suc n \<longleftrightarrow> dst \<le> j \<and> j < dst + n \<or> j = dst + n" by auto
  ultimately show ?case using Suc by (auto simp: nth_list_update)
qed (auto simp: copy_blocks_def)

lemma slots_full:
  assumes "slots_ok bpp dls" "0 < bpp" "q < length dls"
  shows "q * bpp \<in> dp_info ` set dls"
proof -
  have "dp_info ` set dls \<subseteq> (\<lambda>q. q * bpp) ` {..<length dls}" using assms(1) unfolding slots_ok_def by blast
  moreover have "card (dp_info ` set dls) = length dls"
    using assms(1) unfolding slots_ok_def by (metis distinct_card length_map list.set_map)
  moreover have "card ((\<lambda>q. q * bpp) ` {..<length dls}) \<le> length dls"
    by (metis card_image_le card_lessThan finite_lessThan)
  ultimately have "dp_info ` set dls = (\<lambda>q. q * bpp) ` {..<length dls}"
    by (intro card_seteq) auto
  then show ?thesis using assms(3) by blast
qed

lemma find_info_slot:
  assumes "slots_ok bpp dls" "0 < bpp" "dls \<noteq> []"
  obtains h where "find_info dls ((length dls - 1) * bpp) = Some h" "h < length dls"
    "dp_info (dls ! h) = (length dls - 1) * bpp"
proof -
  let ?P = "\<lambda>d. dp_info d \<noteq> (length dls - 1) * bpp"
  have "(length dls - 1) * bpp \<in> dp_info ` set dls" using slots_full [OF assms(1,2)] assms(3) by simp
  then have "\<exists>d \<in> set dls. \<not> ?P d" by force
  then have "0 < length (dropWhile ?P dls)" by auto
  moreover have "length (takeWhile ?P dls) + length (dropWhile ?P dls) = length dls"
    by (simp flip: length_append)
  ultimately have "length (takeWhile ?P dls) < length dls" by linarith
  moreover from nth_length_takeWhile [OF this] have "dp_info (dls ! length (takeWhile ?P dls)) = (length dls - 1) * bpp" by blast
  ultimately show ?thesis using that by (simp add: find_info_def Let_def)
qed

lemma set_vec_erase: "k < length xs \<Longrightarrow> x \<in> set (vec_erase xs k) \<Longrightarrow> \<exists>j < length xs. j \<noteq> k \<and> x = xs ! j"
proof -
  assume k: "k < length xs" and "x \<in> set (vec_erase xs k)"
  then consider "x \<in> set (take k xs)" | "x \<in> set (drop (Suc k) xs)" by (auto simp: vec_erase_def)
  then show ?thesis
  proof cases
    case 1
    then obtain j where "j < k" "x = xs ! j" using k by (auto simp: in_set_conv_nth)
    then show ?thesis using k by (intro exI [of _ j]) simp
  next
    case 2
    then obtain j where "j < length xs - Suc k" "x = xs ! (Suc k + j)" using k by (auto simp: in_set_conv_nth)
    then show ?thesis using k by (intro exI [of _ "Suc k + j"]) simp
  qed
qed

lemma nth_in_vec_erase:
  assumes "j < length xs" "k < length xs" "j \<noteq> k"
  shows "xs ! j \<in> set (vec_erase xs k)"
proof (cases "j < k")
  case True
  then have "xs ! j \<in> set (take k xs)" using assms by (auto simp: in_set_conv_nth intro: exI [of _ j])
  then show ?thesis by (simp add: vec_erase_def)
next
  case False
  then have "xs ! j \<in> set (drop (Suc k) xs)" using assms by (auto simp: in_set_conv_nth intro!: exI [of _ "j - Suc k"])
  then show ?thesis by (simp add: vec_erase_def)
qed

lemma vec_erase_map: "map f (vec_erase xs k) = vec_erase (map f xs) k"
  by (simp add: vec_erase_def take_map drop_map)

lemma vec_erase_update_same: "vec_erase (xs[k := v]) k = vec_erase xs k"
  by (simp add: vec_erase_def)

lemma distinct_vec_erase: "distinct xs \<Longrightarrow> distinct (vec_erase xs k)"
  by (auto simp: vec_erase_def set_take_disj_set_drop_if_distinct)

lemma sorted_vec_erase: "sorted_wrt P xs \<Longrightarrow> sorted_wrt P (vec_erase xs k)"
proof -
  assume "sorted_wrt P xs"
  then have "sorted_wrt P (take k xs @ drop k xs)" by simp
  moreover have "set (drop (Suc k) xs) \<subseteq> set (drop k xs)" by (rule set_drop_subset_set_drop) simp
  moreover have "sorted_wrt P (drop (Suc k) xs)" using \<open>sorted_wrt P xs\<close> by (rule sorted_wrt_drop)
  ultimately show ?thesis unfolding vec_erase_def sorted_wrt_append by blast
qed

text \<open>
  The vectors after entry \<open>k\<close> is erased, where entry \<open>h\<close> owned the last slot. Giving entry
  \<open>k\<close> the last slot before it goes makes the change of slots a swap.
\<close>

lemma core_erase:
  assumes c: "dl_core n bpp bilp dls bi" and k: "k < length dls"
    and h: "h < length dls" "dp_info (dls ! h) = (length dls - 1) * bpp" "h \<noteq> k"
  defines "dls' \<equiv> dls[h := (dls ! h)\<lparr>dp_info := dp_info (dls ! k)\<rparr>]"
    and "bi' \<equiv> copy_blocks bi (dp_info (dls ! h)) (dp_info (dls ! k)) bpp"
  shows "dl_core n bpp bilp (vec_erase dls' k) bi'"
proof -
  let ?L = "(length dls - 1) * bpp"
  have cc: "0 < bpp" "bilp \<le> bpp" "sorted_wrt (<) (map dp_index dls)" "\<forall>d \<in> set dls. dp_index d < n"
    "slots_ok bpp dls" "length dls * bpp \<le> length bi" "\<forall>d \<in> set dls. entry_ok (blocks_of n bpp bilp bi d) d"
    using c by (simp_all add: dl_core_def)
  have len: "length (vec_erase dls' k) = length dls - 1" unfolding dls'_def using k by (simp add: length_vec_erase)
  have mi: "map dp_index dls' = map dp_index dls" unfolding dls'_def using h(1) by (simp add: map_update list_update_same_conv)
  have in': "dp_info (dls' ! j) = (if j = h then dp_info (dls ! k) else dp_info (dls ! j))" if "j < length dls" for j
    using that h by (simp add: dls'_def)
  have dist: "dp_info (dls ! a) \<noteq> dp_info (dls ! b)" if "a < length dls" "b < length dls" "a \<noteq> b" for a b
    using cc(5) that unfolding slots_ok_def by (simp add: distinct_conv_nth)
  have sl: "slots_ok bpp (vec_erase dls' k)"
    unfolding slots_ok_def
  proof (intro conjI ballI)
    let ?sw = "(map dp_info dls)[h := map dp_info dls ! k, k := map dp_info dls ! h]"
    have "distinct ?sw" using cc(5) k h(1) unfolding slots_ok_def by (subst distinct_swap) simp_all
    moreover have "map dp_info (vec_erase dls' k) = vec_erase ?sw k"
      using k h(1) by (simp add: vec_erase_map vec_erase_update_same dls'_def map_update)
    ultimately show "distinct (map dp_info (vec_erase dls' k))" by (simp add: distinct_vec_erase)
  next
    fix d assume "d \<in> set (vec_erase dls' k)"
    then obtain j where j: "j < length dls" "j \<noteq> k" "d = dls' ! j" using set_vec_erase [of k dls' d] k by (auto simp: dls'_def)
    let ?j = "if j = h then k else j"
    have i: "dp_info d = dp_info (dls ! ?j)" using j in' by simp
    have jj: "?j < length dls" "?j \<noteq> h" using j k h by auto
    obtain q where q: "q < length dls" "dp_info (dls ! ?j) = q * bpp" using cc(5) jj(1) unfolding slots_ok_def by (meson nth_mem)
    have "q \<noteq> length dls - 1" using dist [OF jj(1) h(1) jj(2)] q h(2) by auto
    then have "q < length (vec_erase dls' k)" using q len by simp
    then show "\<exists>q < length (vec_erase dls' k). dp_info d = q * bpp" using i q by auto
  qed
  have bounds: "dp_info (dls ! j) + bpp \<le> length bi" if "j < length dls" for j
    using slot_bound [OF cc(5), of "dls ! j"] that cc(6) by simp
  have apart: "dp_info (dls ! a) + bpp \<le> dp_info (dls ! b) \<or> dp_info (dls ! b) + bpp \<le> dp_info (dls ! a)"
    if ab: "a < length dls" "b < length dls" "a \<noteq> b" for a b
  proof -
    obtain p q where pq: "dp_info (dls ! a) = p * bpp" "dp_info (dls ! b) = q * bpp"
      using cc(5) ab unfolding slots_ok_def by (meson nth_mem)
    then have "p \<noteq> q" using dist [OF ab] by auto
    then have "Suc p \<le> q \<or> Suc q \<le> p" by linarith
    then have "Suc p * bpp \<le> q * bpp \<or> Suc q * bpp \<le> p * bpp" using mult_le_mono1 by blast
    then show ?thesis using pq by (simp add: add.commute)
  qed
  have cp: "bi' ! j = (if dp_info (dls ! k) \<le> j \<and> j < dp_info (dls ! k) + bpp
      then bi ! (dp_info (dls ! h) + (j - dp_info (dls ! k))) else bi ! j)" if "j < length bi" for j
    unfolding bi'_def by (rule nth_copy_blocks [OF bounds [OF h(1)] bounds [OF k] apart [OF h(1) k h(3)] order_refl that])
  have "entry_ok (blocks_of n bpp bilp bi' d) d" if d: "d \<in> set (vec_erase dls' k)" for d
  proof -
    obtain j where j: "j < length dls" "j \<noteq> k" "d = dls' ! j" using set_vec_erase [of k dls' d] k d by (auto simp: dls'_def)
    have "blocks_of n bpp bilp bi' d = blocks_of n bpp bilp bi (dls ! j)"
    proof (rule nth_equalityI)
      show "length (blocks_of n bpp bilp bi' d) = length (blocks_of n bpp bilp bi (dls ! j))"
        using j h by (simp add: dls'_def nth_list_update)
      fix a assume "a < length (blocks_of n bpp bilp bi' d)"
      then have a: "a < nblk n bpp bilp (dp_index (dls ! j))" using j h by (simp add: dls'_def nth_list_update split: if_splits)
      then have ab: "a < bpp" using nblk_le [OF cc(2)] less_le_trans by blast
      have di: "dp_index d = dp_index (dls ! j)" using j h by (simp add: dls'_def nth_list_update)
      have "bi' ! (dp_info d + a) = bi ! (dp_info (dls ! j) + a)"
      proof (cases "j = h")
        case True
        then show ?thesis using in' [OF j(1)] j(3) ab bounds [OF k] by (subst cp) auto
      next
        case False
        then show ?thesis using in' [OF j(1)] j(3) ab bounds [OF j(1)] apart [OF j(1) k j(2)] by (subst cp) auto
      qed
      then show "blocks_of n bpp bilp bi' d ! a = blocks_of n bpp bilp bi (dls ! j) ! a"
        using a di by (simp add: blocks_of_def)
    qed
    moreover have "entry_ok bs d = entry_ok bs (dls ! j)" for bs
      using j h by (simp add: dls'_def nth_list_update entry_ok_def)
    ultimately show ?thesis using cc(7) j(1) by simp
  qed
  moreover have "dp_index d < n" if d: "d \<in> set (vec_erase dls' k)" for d
  proof -
    obtain j where j: "j < length dls" "d = dls' ! j" using set_vec_erase [of k dls' d] k d by (auto simp: dls'_def)
    then have "dp_index d = dp_index (dls ! j)" using h by (simp add: dls'_def nth_list_update)
    then show ?thesis using cc(4) j(1) by simp
  qed
  moreover have "sorted_wrt (<) (map dp_index (vec_erase dls' k))"
    unfolding vec_erase_map mi by (rule sorted_vec_erase [OF cc(3)])
  moreover have "length (vec_erase dls' k) * bpp \<le> length bi'"
    using cc(6) len unfolding bi'_def by (simp add: diff_mult_distrib)
  ultimately show ?thesis using cc(1,2) sl unfolding dl_core_def by blast
qed

text \<open>Erasing the entry that owns the last slot itself.\<close>

lemma core_erase_last:
  assumes c: "dl_core n bpp bilp dls bi" and k: "k < length dls" "dp_info (dls ! k) = (length dls - 1) * bpp"
  shows "dl_core n bpp bilp (vec_erase dls k) bi"
proof -
  have cc: "0 < bpp" "bilp \<le> bpp" "sorted_wrt (<) (map dp_index dls)" "\<forall>d \<in> set dls. dp_index d < n"
    "slots_ok bpp dls" "length dls * bpp \<le> length bi" "\<forall>d \<in> set dls. entry_ok (blocks_of n bpp bilp bi d) d"
    using c by (simp_all add: dl_core_def)
  have sub: "set (vec_erase dls k) \<subseteq> set dls" using set_vec_erase [OF k(1)] nth_mem by blast
  have len: "length (vec_erase dls k) = length dls - 1" using k(1) by (simp add: length_vec_erase)
  have "slots_ok bpp (vec_erase dls k)"
    unfolding slots_ok_def
  proof (intro conjI ballI)
    show "distinct (map dp_info (vec_erase dls k))" using cc(5) by (simp add: vec_erase_map distinct_vec_erase slots_ok_def)
    fix d assume "d \<in> set (vec_erase dls k)"
    then obtain j where j: "j < length dls" "j \<noteq> k" "d = dls ! j" using set_vec_erase [OF k(1)] by blast
    obtain q where q: "q < length dls" "dp_info d = q * bpp" using cc(5) j unfolding slots_ok_def by (meson nth_mem)
    have "dp_info (dls ! j) \<noteq> dp_info (dls ! k)"
      using cc(5) j k(1) unfolding slots_ok_def by (simp add: distinct_conv_nth)
    then have "q \<noteq> length dls - 1" using q j(3) k(2) by auto
    then show "\<exists>q < length (vec_erase dls k). dp_info d = q * bpp" using q len by (intro exI [of _ q]) simp
  qed
  then show ?thesis
    using cc sub len unfolding dl_core_def
    by (auto simp: vec_erase_map diff_mult_distrib intro: sorted_vec_erase)
qed

lemma erase_download_piece_ok:
  assumes "dl_inv s" and k: "k < length (m_downloads s)"
  defines "i \<equiv> dp_index (m_downloads s ! k)"
  shows "dl_inv (erase_download_piece s k)"
    and "erase_download_piece s k =
      s\<lparr>m_piece_map := (m_piece_map s)[i := (m_piece_map s ! i)\<lparr>pp_downloading := False\<rparr>],
        m_downloads := m_downloads (erase_download_piece s k),
        m_block_info := m_block_info (erase_download_piece s k)\<rparr>"
    and "i \<notin> dp_index ` set (m_downloads (erase_download_piece s k))"
proof -
  let ?dls = "m_downloads s" and ?bpp = "m_blocks_per_piece s" and ?n = "length (m_piece_map s)"
  have c: "dl_core ?n ?bpp (m_blocks_in_last_piece s) ?dls (m_block_info s)" and f: "flags_ok (m_piece_map s) ?dls"
    using assms(1) by (simp_all add: dl_inv_def)
  have so: "slots_ok ?bpp ?dls" "0 < ?bpp" "sorted_wrt (<) (map dp_index ?dls)" "i < ?n"
    using c k by (simp_all add: dl_core_def i_def)
  have "?dls \<noteq> []" using k by auto
  then obtain h where h: "find_info ?dls ((length ?dls - 1) * ?bpp) = Some h" "h < length ?dls"
    "dp_info (?dls ! h) = (length ?dls - 1) * ?bpp"
    by (rule find_info_slot [OF so(1,2)])
  define r where "r = (if k \<noteq> h
     then (copy_blocks (m_block_info s) (dp_info (?dls ! h)) (dp_info (?dls ! k)) ?bpp,
           ?dls[h := (?dls ! h)\<lparr>dp_info := dp_info (?dls ! k)\<rparr>])
     else (m_block_info s, ?dls))"
  have er: "erase_download_piece s k = s\<lparr>m_block_info := fst r,
      m_piece_map := (m_piece_map s)[i := (m_piece_map s ! i)\<lparr>pp_downloading := False\<rparr>],
      m_downloads := vec_erase (snd r) k\<rparr>"
    unfolding erase_download_piece_def Let_def h(1) option.case r_def [symmetric] i_def by (simp add: split_beta)
  have core: "dl_core ?n ?bpp (m_blocks_in_last_piece s) (vec_erase (snd r) k) (fst r)"
    using core_erase [OF c k h(2,3)] core_erase_last [OF c k] h(3) unfolding r_def by auto
  have mi: "map dp_index (snd r) = map dp_index ?dls"
    unfolding r_def using h(2) by (simp add: map_update list_update_same_conv)
  have img: "dp_index ` set (vec_erase (snd r) k) = dp_index ` set ?dls - {i}"
  proof -
    have d: "distinct (map dp_index ?dls)" using so(3) strict_sorted_iff by blast
    have "dp_index ` set (vec_erase (snd r) k) = set (vec_erase (map dp_index ?dls) k)"
      by (simp flip: mi vec_erase_map)
    also have "\<dots> = set (map dp_index ?dls) - {map dp_index ?dls ! k}"
    proof (intro equalityI subsetI)
      fix x assume "x \<in> set (vec_erase (map dp_index ?dls) k)"
      then obtain j where "j < length ?dls" "j \<noteq> k" "x = map dp_index ?dls ! j"
        using set_vec_erase [of k "map dp_index ?dls" x] k by auto
      then show "x \<in> set (map dp_index ?dls) - {map dp_index ?dls ! k}"
        using d k by (auto simp: distinct_conv_nth)
    next
      fix x assume x: "x \<in> set (map dp_index ?dls) - {map dp_index ?dls ! k}"
      then obtain j where j: "j < length (map dp_index ?dls)" "x = map dp_index ?dls ! j"
        using in_set_conv_nth [of x "map dp_index ?dls"] by blast
      moreover have "j \<noteq> k" using j x by blast
      ultimately show "x \<in> set (vec_erase (map dp_index ?dls) k)" using nth_in_vec_erase [of j "map dp_index ?dls" k] k by simp
    qed
    finally show ?thesis using k by (simp add: i_def)
  qed
  then show "i \<notin> dp_index ` set (m_downloads (erase_download_piece s k))" unfolding er by simp
  have "flags_ok ((m_piece_map s)[i := (m_piece_map s ! i)\<lparr>pp_downloading := False\<rparr>]) (vec_erase (snd r) k)"
    using f so(4) unfolding flags_ok_def img by (auto simp: nth_list_update pp_have_def split: if_splits)
  then show "dl_inv (erase_download_piece s k)" using core unfolding dl_inv_def er by simp
  show "erase_download_piece s k =
      s\<lparr>m_piece_map := (m_piece_map s)[i := (m_piece_map s ! i)\<lparr>pp_downloading := False\<rparr>],
        m_downloads := m_downloads (erase_download_piece s k),
        m_block_info := m_block_info (erase_download_piece s k)\<rparr>"
    unfolding er by simp
qed

end
