(* ===== verification/Picker_Preserve.thy ===== *)
theory Picker_Preserve
  imports Picker_Inv Picker_Blocks
begin

text \<open>
  Every operation of the piece picker keeps the whole invariant, and what the invariant
  says in the terms of the code: \<^verbatim>\<open>check_invariant\<close> holds.
\<close>

definition picker_inv :: "piece_picker \<Rightarrow> bool" where
  "picker_inv s \<longleftrightarrow> bkt_inv s \<and> cnt_inv s \<and> dl_inv s \<and> 0 \<le> m_seeds s"

subsection \<open>What the parts depend on\<close>

lemma length_filter_map:
  assumes "map f xs = map f ys" "\<And>x. P x = Q (f x)"
  shows "length (filter P xs) = length (filter P ys)"
proof -
  have "map f (filter P zs) = filter Q (map f zs)" for zs
    using assms(2) by (induction zs) auto
  then show ?thesis using assms(1) by (metis length_map)
qed

lemma length_takeWhile_map:
  assumes "map f xs = map f ys" "\<And>x. P x = Q (f x)"
  shows "length (takeWhile P xs) = length (takeWhile P ys)"
proof -
  have "map f (takeWhile P zs) = takeWhile Q (map f zs)" for zs
    using assms(2) by (induction zs) auto
  then show ?thesis using assms(1) by (metis length_map)
qed

definition bits2 :: "piece_pos \<Rightarrow> bool \<times> bool" where
  "bits2 p = (pp_have p, pp_filtered p)"

lemma cursors_cong:
  assumes "map unwanted pm' = map unwanted pm"
  shows "cursor_forward pm' c = cursor_forward pm c" "cursor_backward pm' c = cursor_backward pm c"
proof -
  have u: "map unwanted xs = map unwanted ys \<Longrightarrow> length (takeWhile unwanted xs) = length (takeWhile unwanted ys)" for xs ys
    by (erule length_takeWhile_map [where Q = "\<lambda>x. x"]) simp
  have "map unwanted (drop c pm') = map unwanted (drop c pm)" "map unwanted (rev (take c pm')) = map unwanted (rev (take c pm))"
    using assms by (metis drop_map, metis take_map rev_map)
  from this [THEN u] show "cursor_forward pm' c = cursor_forward pm c" "cursor_backward pm' c = cursor_backward pm c"
    unfolding cursor_forward_def cursor_backward_def by simp_all
qed

lemma cnt_inv_cong:
  assumes m: "map bits2 (m_piece_map s') = map bits2 (m_piece_map s)"
    and "m_num_have s' = m_num_have s" "m_num_filtered s' = m_num_filtered s"
      "m_num_have_filtered s' = m_num_have_filtered s" "m_cursor s' = m_cursor s"
      "m_reverse_cursor s' = m_reverse_cursor s"
  shows "cnt_inv s' = cnt_inv s"
proof -
  have "length (filter pp_have (m_piece_map s')) = length (filter pp_have (m_piece_map s))"
    by (rule length_filter_map [OF m, of _ fst]) (simp add: bits2_def)
  moreover have "length (filter (\<lambda>p. pp_filtered p \<and> \<not> pp_have p) (m_piece_map s')) =
      length (filter (\<lambda>p. pp_filtered p \<and> \<not> pp_have p) (m_piece_map s))"
    by (rule length_filter_map [OF m, of _ "\<lambda>x. snd x \<and> \<not> fst x"]) (simp add: bits2_def)
  moreover have "length (filter (\<lambda>p. pp_filtered p \<and> pp_have p) (m_piece_map s')) =
      length (filter (\<lambda>p. pp_filtered p \<and> pp_have p) (m_piece_map s))"
    by (rule length_filter_map [OF m, of _ "\<lambda>x. snd x \<and> fst x"]) (simp add: bits2_def)
  moreover have "length (m_piece_map s') = length (m_piece_map s)" using m by (metis length_map)
  moreover have u: "map unwanted (m_piece_map s') = map unwanted (m_piece_map s)"
  proof -
    have eq: "map unwanted pm = map (\<lambda>x. fst x \<or> snd x) (map bits2 pm)" for pm
      by (simp add: unwanted_def bits2_def)
    show ?thesis by (simp only: eq m)
  qed
  ultimately show ?thesis using assms(2-) unfolding cnt_inv_def num_pieces_def by (simp only: cursors_cong [OF u])
qed

lemma flags_ok_cong:
  assumes "map pp_have pm' = map pp_have pm" "map pp_downloading pm' = map pp_downloading pm"
  shows "flags_ok pm' dls = flags_ok pm dls"
proof -
  have l: "length pm' = length pm" using assms(1) by (metis length_map)
  have "pp_have (pm' ! i) = pp_have (pm ! i)" "pp_downloading (pm' ! i) = pp_downloading (pm ! i)" if "i < length pm" for i
    using assms that l by (metis nth_map)+
  then show ?thesis unfolding flags_ok_def l by auto
qed

lemma dl_inv_cong:
  assumes "map pp_have (m_piece_map s') = map pp_have (m_piece_map s)"
    "map pp_downloading (m_piece_map s') = map pp_downloading (m_piece_map s)"
    "m_downloads s' = m_downloads s" "m_block_info s' = m_block_info s"
    "m_blocks_per_piece s' = m_blocks_per_piece s" "m_blocks_in_last_piece s' = m_blocks_in_last_piece s"
  shows "dl_inv s' = dl_inv s"
  using assms flags_ok_cong [OF assms(1,2)] unfolding dl_inv_def by (metis length_map)

lemma inv_simps [simp]:
  "cnt_inv (s\<lparr>m_dirty := d\<rparr>) = cnt_inv s" "dl_inv (s\<lparr>m_dirty := d\<rparr>) = dl_inv s"
  "cnt_inv (s\<lparr>m_seeds := n\<rparr>) = cnt_inv s" "dl_inv (s\<lparr>m_seeds := n\<rparr>) = dl_inv s"
  by (simp_all add: cnt_inv_def dl_inv_def num_pieces_def)

lemma moved_parts:
  assumes "moved s s'"
  shows "cnt_inv s' = cnt_inv s" "dl_inv s' = dl_inv s" "m_seeds s' = m_seeds s"
proof -
  note f = moved_fields [OF assms]
  show "cnt_inv s' = cnt_inv s"
    by (rule cnt_inv_cong) (simp_all add: f pm_view_map [OF f(14)] bits2_def)
  show "dl_inv s' = dl_inv s"
    by (rule dl_inv_cong) (simp_all add: f pm_view_map [OF f(14)])
  show "m_seeds s' = m_seeds s" by (rule f)
qed

lemma moved_inv:
  assumes "moved s s'" "cnt_inv s" "dl_inv s" "0 \<le> m_seeds s" "prio_ok (m_piece_map s)"
    and "bucketed (prio_of s') (m_piece_map s') (m_pieces s') (m_priority_boundries s')"
  shows "picker_inv s'"
  using assms moved_parts [OF assms(1)] prio_ok_view [OF moved_fields(14) [OF assms(1)]]
  unfolding picker_inv_def bkt_inv_def by simp

text \<open>A piece whose flags stay the same.\<close>

lemma map_update_same: "f y = f (xs ! i) \<Longrightarrow> map f (xs[i := y]) = map f xs"
  by (cases "i < length xs") (simp_all add: map_update list_update_same_conv not_less list_update_beyond)

lemma upd_pos_fields [simp]:
  "m_piece_map (upd_pos s i f) = (m_piece_map s)[i := f (m_piece_map s ! i)]"
  "m_seeds (upd_pos s i f) = m_seeds s" "m_pieces (upd_pos s i f) = m_pieces s"
  "m_priority_boundries (upd_pos s i f) = m_priority_boundries s" "m_downloads (upd_pos s i f) = m_downloads s"
  "m_block_info (upd_pos s i f) = m_block_info s" "m_blocks_per_piece (upd_pos s i f) = m_blocks_per_piece s"
  "m_blocks_in_last_piece (upd_pos s i f) = m_blocks_in_last_piece s" "m_num_filtered (upd_pos s i f) = m_num_filtered s"
  "m_num_have_filtered (upd_pos s i f) = m_num_have_filtered s" "m_num_have (upd_pos s i f) = m_num_have s"
  "m_cursor (upd_pos s i f) = m_cursor s" "m_reverse_cursor (upd_pos s i f) = m_reverse_cursor s"
  "m_sparse_regions (upd_pos s i f) = m_sparse_regions s" "m_dirty (upd_pos s i f) = m_dirty s"
  by (simp_all add: upd_pos_def)

lemma upd_pos_parts:
  assumes "pp_have (f (m_piece_map s ! i)) = pp_have (m_piece_map s ! i)"
    "pp_filtered (f (m_piece_map s ! i)) = pp_filtered (m_piece_map s ! i)"
  shows "cnt_inv (upd_pos s i f) = cnt_inv s"
    and "pp_downloading (f (m_piece_map s ! i)) = pp_downloading (m_piece_map s ! i) \<Longrightarrow>
         dl_inv (upd_pos s i f) = dl_inv s"
proof -
  show "cnt_inv (upd_pos s i f) = cnt_inv s"
    by (rule cnt_inv_cong) (simp_all add: bits2_def map_update_same assms)
  assume "pp_downloading (f (m_piece_map s ! i)) = pp_downloading (m_piece_map s ! i)"
  then show "dl_inv (upd_pos s i f) = dl_inv s"
    by (intro dl_inv_cong) (simp_all add: map_update_same assms)
qed

text \<open>The two ways the operations end: with \<open>refile\<close>, or with \<open>picker_update\<close>, unless \<^verbatim>\<open>m_dirty\<close>.\<close>

lemma stale_same:
  assumes "stale_at s i pf" "prio_of s i = pf i"
  shows "bucketed (prio_of s) (m_piece_map s) (m_pieces s) (m_priority_boundries s)"
proof (rule bucketed_cong)
  show "bucketed pf (m_piece_map s) (m_pieces s) (m_priority_boundries s)" using assms by (simp add: stale_at_def)
  show "prio_of s j = pf j" if "j < length (m_piece_map s)" for j
    using assms that unfolding stale_at_def by (cases "j = i") blast+
qed

lemma refile_moved:
  fixes rnd :: nat
  assumes st: "\<not> m_dirty s \<Longrightarrow> stale_at s i pf" and pf: "-1 \<le> pf i" and k: "prio_ok (m_piece_map s)"
  defines "s' \<equiv> (if m_dirty s then s else if prio_of s i = pf i then s else refile rnd s i (pf i))"
  shows "moved s s'" "bkt_inv s'"
proof -
  have "moved s s' \<and> bkt_inv s'"
  proof (cases "m_dirty s \<or> prio_of s i = pf i")
    case True
    then have "s' = s" by (auto simp: s'_def)
    moreover have "bkt_inv s" using True k st stale_same by (auto simp: bkt_inv_def)
    ultimately show ?thesis by simp
  next
    case False
    then have s': "s' = refile rnd s i (pf i)" and st': "stale_at s i pf" and ne: "prio_of s i \<noteq> pf i"
      using st by (simp_all add: s'_def)
    note m = refile_fresh [OF st' pf ne, of rnd, folded s']
    show ?thesis using m k prio_ok_view [OF moved_fields(14) [OF m(1)]] by (simp add: bkt_inv_def)
  qed
  then show "moved s s'" "bkt_inv s'" by simp_all
qed

lemma update_moved:
  fixes rnd :: nat
  assumes st: "\<not> m_dirty s \<Longrightarrow> stale_at s i pf" and same: "pf i < 0 \<Longrightarrow> prio_of s i = pf i"
    and k: "prio_ok (m_piece_map s)"
  defines "s' \<equiv> (if m_dirty s then s else if pf i \<ge> 0
           then picker_update rnd s (nat (pf i)) (pp_index (m_piece_map s ! i)) else s)"
  shows "moved s s'" "bkt_inv s'"
proof -
  have "moved s s' \<and> bkt_inv s'"
  proof (cases "m_dirty s \<or> pf i < 0")
    case True
    then have "s' = s" by (auto simp: s'_def)
    moreover have "bkt_inv s" using True k st same stale_same by (auto simp: bkt_inv_def)
    ultimately show ?thesis by simp
  next
    case False
    then have s': "s' = picker_update rnd s (nat (pf i)) (pp_index (m_piece_map s ! i))" and st': "stale_at s i pf"
      and ge: "0 \<le> pf i" using st by (simp_all add: s'_def)
    note m = picker_update_fresh [OF st' ge, of rnd, folded s']
    show ?thesis using m k prio_ok_view [OF moved_fields(14) [OF m(1)]] by (simp add: bkt_inv_def)
  qed
  then show "moved s s'" "bkt_inv s'" by simp_all
qed

lemma moved_picker_inv:
  assumes "moved s s'" "bkt_inv s'" "cnt_inv s" "dl_inv s" "0 \<le> m_seeds s"
  shows "picker_inv s'"
  using assms moved_parts [OF assms(1)] by (simp add: picker_inv_def)

lemma refile_inv:
  assumes "\<not> m_dirty s \<Longrightarrow> stale_at s i pf" "-1 \<le> pf i" "prio_ok (m_piece_map s)"
    "cnt_inv s" "dl_inv s" "0 \<le> m_seeds s"
  shows "picker_inv (if m_dirty s then s else if prio_of s i = pf i then s else refile rnd s i (pf i))"
  by (rule moved_picker_inv [OF refile_moved [OF assms(1-3)] assms(4-6)])

lemma update_inv:
  assumes "\<not> m_dirty s \<Longrightarrow> stale_at s i pf" "pf i < 0 \<Longrightarrow> prio_of s i = pf i" "prio_ok (m_piece_map s)"
    "cnt_inv s" "dl_inv s" "0 \<le> m_seeds s"
  shows "picker_inv (if m_dirty s then s else if pf i \<ge> 0
           then picker_update rnd s (nat (pf i)) (pp_index (m_piece_map s ! i)) else s)"
  by (rule moved_picker_inv [OF update_moved [OF assms(1-3)] assms(4-6)])

subsection \<open>Reference counts\<close>

lemma picker_invD:
  assumes "picker_inv s"
  shows "bkt_inv s" "cnt_inv s" "dl_inv s" "0 \<le> m_seeds s" "prio_ok (m_piece_map s)"
    "i < length (m_piece_map s) \<Longrightarrow> -1 \<le> prio_of s i"
  using assms priority_ge prio_ok_nth unfolding picker_inv_def bkt_inv_def by blast+

text \<open>A piece gets new data at the same position.\<close>

lemma upd_pos_stale:
  assumes s: "picker_inv s" and i: "i < length (m_piece_map s)" and "\<not> m_dirty s"
    and "pp_index (f (m_piece_map s ! i)) = pp_index (m_piece_map s ! i)"
    and "pp_priority (f (m_piece_map s ! i)) = pp_priority (m_piece_map s ! i)"
  shows "stale_at (upd_pos s i f) i (prio_of s)"
  using assms prio_ok_nth [OF picker_invD(5) [OF s] i]
  by (intro stale_update [OF picker_invD(1) [OF s] _ _ upd_pos_fields(1)]) simp_all

lemma upd_pos_prio_ok:
  assumes "picker_inv s" "i < length (m_piece_map s)"
    and "pp_priority (f (m_piece_map s ! i)) = pp_priority (m_piece_map s ! i)"
  shows "prio_ok (m_piece_map (upd_pos s i f))"
  using assms picker_invD(5) [OF assms(1)] by (simp add: prio_ok_update prio_ok_nth)

lemma inc_refcount_inv:
  assumes s: "picker_inv s" and i: "i < num_pieces s"
  shows "picker_inv (inc_refcount rnd s i)"
proof -
  define s1 where "s1 = upd_pos s i (\<lambda>p. p\<lparr>pp_peer_count := pp_peer_count p + 1\<rparr>)"
  note D = picker_invD [OF s]
  have i': "i < length (m_piece_map s)" using i by (simp add: num_pieces_def)
  have k: "prio_ok (m_piece_map s1)" unfolding s1_def by (rule upd_pos_prio_ok [OF s i']) simp
  have st: "stale_at s1 i (prio_of s)" if "\<not> m_dirty s1"
    using that unfolding s1_def by (intro upd_pos_stale [OF s i']) simp_all
  have "inc_refcount rnd s i = (if m_dirty s1 then s1 else if prio_of s1 i = prio_of s i then s1 else refile rnd s1 i (prio_of s i))"
    unfolding inc_refcount_def Let_def s1_def [symmetric] by simp
  moreover have "cnt_inv s1" "dl_inv s1" "0 \<le> m_seeds s1"
    using D by (simp_all add: s1_def upd_pos_parts pp_have_def pp_filtered_def)
  ultimately show ?thesis
    using refile_inv [OF st D(6) [OF i'] k, of rnd] by simp
qed

lemma priority_neg:
  assumes "pp_priority p \<le> 7"
  shows "priority seeds p < 0 \<longleftrightarrow> pp_filtered p \<or> pp_have p \<or> uint (pp_peer_count p) + seeds = 0"
proof -
  define n where "n = uint (pp_peer_count p)"
  have "0 \<le> n" "0 \<le> n div 2" by (simp_all add: n_def)
  then have a: "0 \<le> n div 2 * 4" "0 \<le> n" by simp_all
  show ?thesis unfolding priority_def Let_def n_def [symmetric] pp_filtered_def
    using assms by (auto; use a in linarith)
qed

lemma priority_unwanted: "pp_filtered p \<or> pp_have p \<Longrightarrow> priority seeds p = -1"
  by (auto simp: priority_def)

lemma dec_refcount_inv:
  assumes s: "picker_inv s" and i: "i < num_pieces s" and pc: "0 < pp_peer_count (m_piece_map s ! i)"
  shows "picker_inv (dec_refcount rnd s i)"
proof -
  define s1 where "s1 = upd_pos s i (\<lambda>p. p\<lparr>pp_peer_count := pp_peer_count p - 1\<rparr>)"
  note D = picker_invD [OF s]
  have i': "i < length (m_piece_map s)" using i by (simp add: num_pieces_def)
  have k: "prio_ok (m_piece_map s1)" unfolding s1_def by (rule upd_pos_prio_ok [OF s i']) simp
  have st: "stale_at s1 i (prio_of s)" if "\<not> m_dirty s1"
    using that unfolding s1_def by (intro upd_pos_stale [OF s i']) simp_all
  have same: "prio_of s1 i = prio_of s i" if "prio_of s i < 0"
  proof -
    have "uint (pp_peer_count (m_piece_map s ! i)) > 0" using pc by (simp add: word_less_def)
    then have "pp_filtered (m_piece_map s ! i) \<or> pp_have (m_piece_map s ! i)"
      using that priority_neg [OF prio_ok_nth [OF D(5) i']] D(4) by auto
    then show ?thesis using i' by (simp add: s1_def priority_unwanted pp_filtered_def pp_have_def)
  qed
  have "dec_refcount rnd s i = (if m_dirty s1 then s1 else if prio_of s i \<ge> 0
      then picker_update rnd s1 (nat (prio_of s i)) (pp_index (m_piece_map s1 ! i)) else s1)"
    unfolding dec_refcount_def Let_def s1_def [symmetric] by simp
  moreover have "cnt_inv s1" "dl_inv s1" "0 \<le> m_seeds s1"
    using D by (simp_all add: s1_def upd_pos_parts pp_have_def pp_filtered_def)
  ultimately show ?thesis
    using update_inv [OF st same k, of rnd] by simp
qed

lemma count_bits_keeps:
  assumes "count_bits d bs i (pm, u) = (pm', u')" "\<And>p c. f (p\<lparr>pp_peer_count := c\<rparr>) = f p"
  shows "map f pm' = map f pm"
  using assms(1)
proof (induction bs arbitrary: i pm u)
  case (Cons b bs)
  then show ?case using assms(2) by (cases b) (auto simp: map_update_same)
qed simp

lemma count_bits_clean: "count_bits d bs i (pm, u) = (pm', False) \<Longrightarrow> \<not> u \<and> pm' = pm"
  by (induction bs arbitrary: i pm u) (auto split: if_splits)

lemma count_bits_inv:
  assumes s: "picker_inv s" and r: "count_bits d bs 0 (m_piece_map s, False) = (pm, u)"
  shows "picker_inv (s\<lparr>m_piece_map := pm, m_dirty := (if u then True else m_dirty s)\<rparr>)"
proof (cases u)
  case False
  then have "pm = m_piece_map s" using r count_bits_clean [of d bs 0 "m_piece_map s" False pm] by simp
  with False s show ?thesis by simp
next
  case True
  note D = picker_invD [OF s]
  let ?s = "s\<lparr>m_piece_map := pm, m_dirty := True\<rparr>"
  have "map pp_priority pm = map pp_priority (m_piece_map s)" by (rule count_bits_keeps [OF r]) simp
  moreover from this have "pp_priority ` set pm = pp_priority ` set (m_piece_map s)" by (metis list.set_map)
  ultimately have "prio_ok pm" using D(5) unfolding prio_ok_def by (metis (no_types, opaque_lifting) imageE imageI length_map)
  moreover have "cnt_inv ?s = cnt_inv s"
    by (rule cnt_inv_cong) (simp_all add: count_bits_keeps [OF r] bits2_def pp_have_def pp_filtered_def)
  moreover have "dl_inv ?s = dl_inv s"
    by (rule dl_inv_cong) (simp_all add: count_bits_keeps [OF r] pp_have_def)
  ultimately have "picker_inv ?s" using D by (simp add: picker_inv_def bkt_inv_def)
  with True show ?thesis by simp
qed

lemma refcount_mask_inv:
  assumes "picker_inv s"
  shows "\<exists>s'. inc_refcount_mask s bits = Some s' \<and> picker_inv s'"
    and "\<exists>s'. dec_refcount_mask s bits = Some s' \<and> picker_inv s'"
  unfolding inc_refcount_mask_def dec_refcount_mask_def bf_traverse_bits
  using count_bits_inv [OF assms] by (auto split: prod.split)

lemma priority_seeds:
  assumes "0 < a" "0 < b"
  shows "priority a p = priority b p"
proof -
  have "uint (pp_peer_count p) + a \<noteq> 0" "uint (pp_peer_count p) + b \<noteq> 0"
    using assms uint_ge_0 [of "pp_peer_count p"] by linarith+
  then show ?thesis by (simp add: priority_def)
qed

lemma inc_refcount_all_inv:
  assumes s: "picker_inv s"
  shows "picker_inv (inc_refcount_all s)"
proof -
  note D = picker_invD [OF s]
  let ?s = "s\<lparr>m_seeds := m_seeds s + 1\<rparr>"
  have "bkt_inv ?s" if "m_seeds s \<noteq> 0"
  proof -
    have "prio_of ?s i = prio_of s i" for i using that D(4) priority_seeds [of "m_seeds s" "m_seeds ?s"] by simp
    then show ?thesis using D(1) by (simp add: bkt_inv_def)
  qed
  then show ?thesis using D by (auto simp: inc_refcount_all_def Let_def picker_inv_def bkt_inv_def)
qed

lemma dec_refcount_all_inv:
  assumes s: "picker_inv s"
  shows "picker_inv (dec_refcount_all s)"
proof -
  note D = picker_invD [OF s]
  let ?s = "s\<lparr>m_seeds := m_seeds s - 1\<rparr>"
  let ?t = "s\<lparr>m_piece_map := map (\<lambda>p. p\<lparr>pp_peer_count := pp_peer_count p - 1\<rparr>) (m_piece_map s), m_dirty := True\<rparr>"
  have 1: "bkt_inv ?s" if "m_seeds s > 1"
  proof -
    have "prio_of ?s i = prio_of s i" for i using that priority_seeds [of "m_seeds s" "m_seeds ?s"] by simp
    then show ?thesis using D(1) by (simp add: bkt_inv_def)
  qed
  have 2: "picker_inv ?t"
  proof -
    have "cnt_inv ?t = cnt_inv s" by (rule cnt_inv_cong) (simp_all add: bits2_def pp_have_def pp_filtered_def)
    moreover have "dl_inv ?t = dl_inv s" by (rule dl_inv_cong) (simp_all add: pp_have_def)
    moreover have "prio_ok (m_piece_map ?t)" using D(5) by (simp add: prio_ok_def)
    ultimately show ?thesis using D by (simp add: picker_inv_def bkt_inv_def)
  qed
  show ?thesis
    using 1 2 D by (auto simp: dec_refcount_all_def Let_def picker_inv_def bkt_inv_def)
qed

subsection \<open>Restoring a piece\<close>

lemma erase_stale:
  assumes s: "picker_inv s" and k: "k < length (m_downloads s)" "dp_index (m_downloads s ! k) = i"
  defines "s1 \<equiv> erase_download_piece s k"
  shows "\<not> m_dirty s1 \<Longrightarrow> stale_at s1 i (prio_of s)" "prio_ok (m_piece_map s1)" "cnt_inv s1" "dl_inv s1"
    "0 \<le> m_seeds s1" "m_dirty s1 = m_dirty s" "i < length (m_piece_map s)"
    "m_piece_map s1 = (m_piece_map s)[i := (m_piece_map s ! i)\<lparr>pp_downloading := False\<rparr>]"
    "i \<notin> dp_index ` set (m_downloads s1)"
proof -
  note D = picker_invD [OF s]
  note E = erase_download_piece_ok [OF D(3) k(1), folded s1_def, unfolded k(2)]
  show "dl_inv s1" "i \<notin> dp_index ` set (m_downloads s1)" by (rule E)+
  obtain dls bi where e: "s1 = s\<lparr>m_piece_map := (m_piece_map s)[i := (m_piece_map s ! i)\<lparr>pp_downloading := False\<rparr>],
        m_downloads := dls, m_block_info := bi\<rparr>" using E(2) by blast
  show i: "i < length (m_piece_map s)" using D(3) k unfolding dl_inv_def dl_core_def by force
  show pm: "m_piece_map s1 = (m_piece_map s)[i := (m_piece_map s ! i)\<lparr>pp_downloading := False\<rparr>]"
    and "m_dirty s1 = m_dirty s" "0 \<le> m_seeds s1" using D(4) by (simp_all add: e)
  show "prio_ok (m_piece_map s1)" unfolding pm using prio_ok_nth [OF D(5) i] by (simp add: prio_ok_update D(5))
  have "cnt_inv s1 = cnt_inv s"
    by (rule cnt_inv_cong) (simp_all add: e bits2_def map_update_same pp_have_def pp_filtered_def)
  then show "cnt_inv s1" using D(2) by simp
  show "stale_at s1 i (prio_of s)" if "\<not> m_dirty s1"
    using that prio_ok_nth [OF D(5) i] i by (intro stale_update [OF D(1) _ _ pm]) (simp_all add: e)
qed

lemma restore_piece_inv:
  assumes s: "picker_inv s" and i: "i < num_pieces s" "pp_downloading (m_piece_map s ! i)"
  shows "\<exists>s'. restore_piece rnd s i = Some s' \<and> picker_inv s'"
proof -
  note D = picker_invD [OF s]
  have i': "i < length (m_piece_map s)" using i by (simp add: num_pieces_def)
  obtain k where k: "find_dl_piece s i = Some k" "k < length (m_downloads s)" "dp_index (m_downloads s ! k) = i"
    by (rule find_dl_piece_downloading [OF D(3) i' i(2)])
  define s1 where "s1 = erase_download_piece s k"
  note E = erase_stale [OF s k(2,3), folded s1_def]
  have "restore_piece rnd s i =
     Some (if m_dirty s1 then s1 else if prio_of s1 i = prio_of s i then s1 else refile rnd s1 i (prio_of s i))"
    unfolding restore_piece_def k(1) option.case Let_def s1_def [symmetric] by simp
  then show ?thesis
    using refile_inv [OF E(1) D(6) [OF i'] E(2-5), of rnd] by simp
qed

subsection \<open>Having a piece\<close>

lemma cnt_inv_update:
  assumes s: "cnt_inv s" and i: "i < length (m_piece_map s)"
    and pm: "m_piece_map s' = (m_piece_map s)[i := p]"
    and c: "m_cursor s' = cursor_forward (m_piece_map s') 0"
      "m_reverse_cursor s' = cursor_backward (m_piece_map s') (length (m_piece_map s))"
    and n: "m_num_have s' = m_num_have s - of_bool (pp_have (m_piece_map s ! i)) + of_bool (pp_have p)"
      "m_num_filtered s' = m_num_filtered s - of_bool (pp_filtered (m_piece_map s ! i) \<and> \<not> pp_have (m_piece_map s ! i))
         + of_bool (pp_filtered p \<and> \<not> pp_have p)"
      "m_num_have_filtered s' = m_num_have_filtered s
         - of_bool (pp_filtered (m_piece_map s ! i) \<and> pp_have (m_piece_map s ! i)) + of_bool (pp_filtered p \<and> pp_have p)"
  shows "cnt_inv s'"
  using s c n unfolding cnt_inv_def pm num_pieces_def by (simp add: length_filter_update [OF i])

lemma skip_cursors_fields [simp]:
  "m_piece_map (skip_cursors s i) = m_piece_map s" "m_seeds (skip_cursors s i) = m_seeds s"
  "m_pieces (skip_cursors s i) = m_pieces s" "m_priority_boundries (skip_cursors s i) = m_priority_boundries s"
  "m_downloads (skip_cursors s i) = m_downloads s" "m_block_info (skip_cursors s i) = m_block_info s"
  "m_blocks_per_piece (skip_cursors s i) = m_blocks_per_piece s"
  "m_blocks_in_last_piece (skip_cursors s i) = m_blocks_in_last_piece s"
  "m_num_filtered (skip_cursors s i) = m_num_filtered s" "m_num_have_filtered (skip_cursors s i) = m_num_have_filtered s"
  "m_num_have (skip_cursors s i) = m_num_have s" "m_dirty (skip_cursors s i) = m_dirty s"
  by (simp_all add: skip_cursors_def)

lemma take_piece_fields [simp]:
  "m_piece_map (take_piece s i) = (m_piece_map s)[i := (m_piece_map s ! i)\<lparr>pp_index := we_have_index\<rparr>]"
  "m_seeds (take_piece s i) = m_seeds s"
  "m_pieces (take_piece s i) = m_pieces s" "m_priority_boundries (take_piece s i) = m_priority_boundries s"
  "m_downloads (take_piece s i) = m_downloads s" "m_block_info (take_piece s i) = m_block_info s"
  "m_blocks_per_piece (take_piece s i) = m_blocks_per_piece s"
  "m_blocks_in_last_piece (take_piece s i) = m_blocks_in_last_piece s" "m_dirty (take_piece s i) = m_dirty s"
  "m_num_have (take_piece s i) = m_num_have s + 1"
  "m_num_filtered (take_piece s i) = m_num_filtered s - of_bool (pp_filtered (m_piece_map s ! i))"
  "m_num_have_filtered (take_piece s i) = m_num_have_filtered s + of_bool (pp_filtered (m_piece_map s ! i))"
  by (simp_all add: take_piece_def Let_def)

lemma take_piece_cnt:
  assumes s: "cnt_inv s" and i: "i < length (m_piece_map s)" "\<not> pp_have (m_piece_map s ! i)"
  shows "cnt_inv (take_piece s i)"
proof -
  let ?pm = "m_piece_map s" and ?p = "(m_piece_map s ! i)\<lparr>pp_index := we_have_index\<rparr>"
  define s1 where "s1 = (let s = s\<lparr>m_sparse_regions := m_sparse_regions s + sparse_delta ?pm i\<rparr>;
          s = (if pp_filtered (?pm ! i)
               then s\<lparr>m_num_filtered := m_num_filtered s - 1, m_num_have_filtered := m_num_have_filtered s + 1\<rparr>
               else s)
      in upd_pos (s\<lparr>m_num_have := m_num_have s + 1\<rparr>) i (\<lambda>p. p\<lparr>pp_index := we_have_index\<rparr>))"
  have s1: "take_piece s i = skip_cursors s1 i" "m_piece_map s1 = ?pm[i := ?p]" "m_cursor s1 = m_cursor s"
    "m_reverse_cursor s1 = m_reverse_cursor s"
    by (simp_all add: s1_def take_piece_def Let_def)
  have c: "m_cursor s = cursor_forward ?pm 0" "m_reverse_cursor s = cursor_backward ?pm (length ?pm)"
    using s by (simp_all add: cnt_inv_def num_pieces_def)
  have p: "unwanted ?p" "pp_have ?p" "pp_filtered ?p = pp_filtered (?pm ! i)"
    by (simp_all add: unwanted_def pp_have_def pp_filtered_def)
  have cur: "m_cursor (take_piece s i) = cursor_forward (?pm[i := ?p]) 0"
    "m_reverse_cursor (take_piece s i) = cursor_backward (?pm[i := ?p]) (length ?pm)"
  proof -
    have "m_cursor (take_piece s i) = cursor_forward (?pm[i := ?p]) 0 \<and>
      m_reverse_cursor (take_piece s i) = cursor_backward (?pm[i := ?p]) (length ?pm)"
    proof (cases "pp_filtered (?pm ! i)")
      case True
      then have "skip_cursors s1 i = s1" using i(1) c s1(3,4)
        by (intro skip_cursors_noop [of i ?pm]) (simp_all add: unwanted_def)
      moreover have "cursor_forward (?pm[i := ?p]) 0 = cursor_forward ?pm 0"
        "cursor_backward (?pm[i := ?p]) (length ?pm) = cursor_backward ?pm (length ?pm)"
        using True p(1) by (intro cursors_cong map_update_same; simp add: unwanted_def)+
      ultimately show ?thesis using s1 c by simp
    next
      case False
      then show ?thesis unfolding s1(1) using i p s1 c
        by (simp add: skip_cursors_ok [of i ?pm ?p s1] unwanted_def)
    qed
    then show "m_cursor (take_piece s i) = cursor_forward (?pm[i := ?p]) 0"
      "m_reverse_cursor (take_piece s i) = cursor_backward (?pm[i := ?p]) (length ?pm)" by simp_all
  qed
  show ?thesis using cur p i(2) by (intro cnt_inv_update [OF s i(1), where p = ?p]) simp_all
qed

lemma take_piece_dl:
  assumes "dl_inv s" "i < length (m_piece_map s)" "\<not> pp_downloading (m_piece_map s ! i)"
  shows "dl_inv (take_piece s i)"
  using assms unfolding dl_inv_def flags_ok_def by (auto simp: nth_list_update pp_have_def split: if_splits)

lemma take_piece_remove:
  assumes b: "bucketed pf (m_piece_map s) (m_pieces s) (m_priority_boundries s)" and k: "prio_ok (m_piece_map s)"
    and i: "i < length (m_piece_map s)" "0 \<le> pf i" and pf: "\<And>j. j < length (m_piece_map s) \<Longrightarrow> j \<noteq> i \<Longrightarrow> prio_of s j = pf j"
  defines "s' \<equiv> picker_remove (take_piece s i) (nat (pf i)) (pp_index (m_piece_map s ! i))"
  shows "moved (take_piece s i) s'" "bkt_inv s'"
proof -
  let ?e = "pp_index (m_piece_map s ! i)" and ?t = "take_piece s i"
  have m: "int i \<in> set (m_pieces s)" using bucketed_mem [OF b i(1)] i(2) by simp
  have e: "?e < length (m_pieces ?t)" "m_pieces ?t ! ?e = int i" using bucketed_index [OF b m] by simp_all
  have re: "reindexed (m_piece_map s) (m_piece_map ?t) {m_pieces ?t ! ?e}"
    unfolding e(2) using i(1) reindexed_set_index [OF reindexed_refl, of "int i" "{int i}" "m_piece_map s" we_have_index]
    by (simp add: set_index_def)
  have "pf (nat (m_pieces ?t ! ?e)) = int (nat (pf i))" unfolding e(2) using i(2) by simp
  moreover have "bucketed pf (m_piece_map s) (m_pieces ?t) (m_priority_boundries ?t)" using b by simp
  ultimately have r: "bucketed (pf(i := -1)) (m_piece_map s') (m_pieces s') (m_priority_boundries s')" "only_moves ?t s'"
    using picker_remove_bucketed [OF _ re e(1)] unfolding s'_def e(2) by (metis nat_int)+
  have l: "length (m_piece_map s') = length (m_piece_map s)"
    using r(2) reindexed_length unfolding only_moves_def by force
  have k': "prio_ok (m_piece_map ?t)" using k prio_ok_nth [OF k i(1)] by (simp add: prio_ok_update)
  have "prio_of ?t j = (pf(i := -1)) j" if "j < length (m_piece_map s')" for j
    using that pf [of j] l i(1) by (simp add: nth_list_update priority_unwanted pp_have_def)
  then have "bucketed (prio_of ?t) (m_piece_map s') (m_pieces s') (m_priority_boundries s')"
    by (rule bucketed_cong [OF r(1)])
  from moves_fresh [OF r(2) k' this] show "moved ?t s'" "bkt_inv s'"
    using k' by (simp_all add: bkt_inv_def prio_ok_view [OF moved_fields(14)])
qed

lemma bucketed_gone:
  assumes b: "bucketed pf pm mp B" and "i < length pm" "pf i < 0" "pp_index p = v"
  shows "bucketed pf (pm[i := p]) mp B"
  using bucketed_mem [OF b assms(2)] assms(3) by (intro bucketed_new_pm [OF b]) (auto simp: nth_list_update assms(2))

text \<open>What the first part of \<^verbatim>\<open>we_have\<close> leaves: the piece is no longer being downloaded.\<close>

lemma we_have_start:
  assumes s: "picker_inv s" and i: "i < num_pieces s"
  obtains s1 where "(if pp_downloading (m_piece_map s ! i)
        then map_option (erase_download_piece s) (find_dl_piece s i) else Some s) = Some s1"
    "m_piece_map s1 = (m_piece_map s)[i := (m_piece_map s ! i)\<lparr>pp_downloading := False\<rparr>]"
    "cnt_inv s1" "dl_inv s1" "0 \<le> m_seeds s1" "prio_ok (m_piece_map s1)" "m_dirty s1 = m_dirty s"
    "\<not> m_dirty s1 \<Longrightarrow> stale_at s1 i (prio_of s)" "m_seeds s1 = m_seeds s"
proof (cases "pp_downloading (m_piece_map s ! i)")
  case True
  have i': "i < length (m_piece_map s)" using i by (simp add: num_pieces_def)
  obtain k where k: "find_dl_piece s i = Some k" "k < length (m_downloads s)" "dp_index (m_downloads s ! k) = i"
    by (rule find_dl_piece_downloading [OF picker_invD(3) [OF s] i' True])
  note E = erase_stale [OF s k(2,3)]
  have "m_seeds (erase_download_piece s k) = m_seeds s"
    using erase_download_piece_ok(2) [OF picker_invD(3) [OF s] k(2)] by (metis (no_types, lifting) piece_picker.select_convs(1) piece_picker.surjective piece_picker.update_convs(4,5,6))
  then show ?thesis using that [of "erase_download_piece s k"] E k(1) True by simp
next
  case False
  note D = picker_invD [OF s]
  have i': "i < length (m_piece_map s)" using i by (simp add: num_pieces_def)
  have eq: "(m_piece_map s)[i := (m_piece_map s ! i)\<lparr>pp_downloading := False\<rparr>] = m_piece_map s"
    using False by (simp add: list_update_same_conv i')
  have "stale_at s i (prio_of s)" if "\<not> m_dirty s"
    using D i' that by (simp add: stale_at_def bkt_inv_def)
  then show ?thesis using that [of s] D eq False by simp
qed

lemma we_have_inv:
  assumes s: "picker_inv s" and i: "i < num_pieces s"
  shows "\<exists>s'. we_have s i = Some s' \<and> picker_inv s' \<and> have_piece s' i"
proof -
  note D = picker_invD [OF s]
  have i': "i < length (m_piece_map s)" using i by (simp add: num_pieces_def)
  obtain s1 where s1: "(if pp_downloading (m_piece_map s ! i)
        then map_option (erase_download_piece s) (find_dl_piece s i) else Some s) = Some s1"
    "m_piece_map s1 = (m_piece_map s)[i := (m_piece_map s ! i)\<lparr>pp_downloading := False\<rparr>]"
    "cnt_inv s1" "dl_inv s1" "0 \<le> m_seeds s1" "prio_ok (m_piece_map s1)" "m_dirty s1 = m_dirty s"
    "\<not> m_dirty s1 \<Longrightarrow> stale_at s1 i (prio_of s)" "m_seeds s1 = m_seeds s"
    using we_have_start [OF s i] by metis
  let ?t = "take_piece s1 i" and ?r = "picker_remove (take_piece s1 i) (nat (prio_of s i)) (pp_index (m_piece_map s ! i))"
  have p1: "m_piece_map s1 ! i = (m_piece_map s ! i)\<lparr>pp_downloading := False\<rparr>" "length (m_piece_map s1) = length (m_piece_map s)"
    using i' s1(2) by simp_all
  have w: "we_have s i = Some (if pp_have (m_piece_map s ! i) then s1
      else if prio_of s i = -1 then ?t else if m_dirty s1 then ?t else ?r)"
    unfolding we_have_def Let_def s1(1) option.case p1 by (simp add: pp_have_def)
  show ?thesis
  proof (cases "pp_have (m_piece_map s ! i)")
    case True
    have "bkt_inv s1"
      using s1(6,8) stale_same [of s1 i "prio_of s"] True p1 by (auto simp: bkt_inv_def priority_unwanted pp_have_def)
    then show ?thesis using True w s1 p1 by (simp add: picker_inv_def have_piece_def pp_have_def)
  next
    case False
    have nh: "\<not> pp_have (m_piece_map s1 ! i)" "\<not> pp_downloading (m_piece_map s1 ! i)" "i < length (m_piece_map s1)"
      using False i' by (simp_all add: p1 pp_have_def)
    have parts: "cnt_inv ?t" "dl_inv ?t" "0 \<le> m_seeds ?t" "prio_ok (m_piece_map ?t)"
      using take_piece_cnt [OF s1(3) nh(3,1)] take_piece_dl [OF s1(4) nh(3,2)] s1(5,6) prio_ok_nth [OF s1(6) nh(3)]
      by (simp_all add: prio_ok_update)
    have have_t: "have_piece ?t i" using nh(3) by (simp add: have_piece_def)
    show ?thesis
    proof (cases "prio_of s i = -1 \<or> m_dirty s1")
      case True
      have "bkt_inv ?t"
      proof (cases "m_dirty s1")
        case False
        with True have neg: "prio_of s i = -1" by simp
        have st: "stale_at s1 i (prio_of s)" using s1(8) False by simp
        then have "bucketed (prio_of s) (m_piece_map ?t) (m_pieces ?t) (m_priority_boundries ?t)"
          using neg nh(3) unfolding stale_at_def by (simp add: bucketed_gone [OF _ _ _ refl])
        moreover have "prio_of ?t j = prio_of s j" if "j < length (m_piece_map ?t)" for j
          using that st neg unfolding stale_at_def by (cases "j = i") (simp_all add: priority_unwanted pp_have_def)
        ultimately show ?thesis using parts(4) unfolding bkt_inv_def by (blast intro: bucketed_cong)
      qed (use parts in \<open>simp add: bkt_inv_def\<close>)
      then show ?thesis using True w False parts have_t by (auto simp: picker_inv_def)
    next
      case nd: False
      have st: "stale_at s1 i (prio_of s)" "0 \<le> prio_of s i" using s1(8) nd D(6) [OF i'] by simp_all
      have "moved ?t ?r" "bkt_inv ?r"
        using take_piece_remove [of "prio_of s" s1 i] st s1(6) p1(1) unfolding stale_at_def by simp_all
      then have "picker_inv ?r" using parts(1-3) by (intro moved_picker_inv)
      moreover have "have_piece ?r i"
        using flags_pm_view(1) [OF moved_fields(14) [OF \<open>moved ?t ?r\<close>], of i] have_t nh(3)
        by (simp add: have_piece_def pp_have_def)
      ultimately show ?thesis using nd w False by simp
    qed
  qed
qed

text \<open>Giving up a piece; \<open>unskip\<close> is the cursor code shared with \<^verbatim>\<open>set_piece_priority\<close>.\<close>

lemma add_inv:
  assumes st: "\<not> m_dirty s \<Longrightarrow> stale_at s i pf" and "pf i = -1"
    and k: "prio_ok (m_piece_map s)" "cnt_inv s" "dl_inv s" "0 \<le> m_seeds s" "-1 \<le> prio_of s i"
  shows "picker_inv (if m_dirty s then s else if prio_of s i \<ge> 0 then picker_add rnd s i else s)"
proof -
  have "(if m_dirty s then s else if prio_of s i \<ge> 0 then picker_add rnd s i else s) =
    (if m_dirty s then s else if prio_of s i = pf i then s else refile rnd s i (pf i))"
    using assms(2,7) by (auto simp: refile_def)
  then show ?thesis using refile_inv [OF st _ k(1-4), of rnd] assms(2) by simp
qed

lemma unskip_cnt:
  assumes s: "cnt_inv s" and i: "i < length (m_piece_map s)" "unwanted (m_piece_map s ! i)" "\<not> unwanted p"
  defines "c \<equiv> (if i < m_cursor s then i else m_cursor s)"
    and "r \<equiv> (if i \<ge> m_reverse_cursor s then i + 1 else m_reverse_cursor s)"
  shows "c = cursor_forward ((m_piece_map s)[i := p]) 0"
    "r = cursor_backward ((m_piece_map s)[i := p]) (length (m_piece_map s))" "r \<noteq> c"
  using unskip_cursors_ok [OF i, of "m_cursor s" "m_reverse_cursor s"] s
  unfolding c_def r_def cnt_inv_def num_pieces_def by simp_all

lemma we_dont_have_inv:
  assumes s: "picker_inv s" and i: "i < num_pieces s"
  shows "picker_inv (we_dont_have rnd s i)"
proof (cases "pp_have (m_piece_map s ! i)")
  case False
  then show ?thesis using s by (simp add: we_dont_have_def)
next
  case True
  note D = picker_invD [OF s]
  let ?pm = "m_piece_map s"
  have i': "i < length ?pm" using i by (simp add: num_pieces_def)
  define p where "p = (?pm ! i)\<lparr>pp_index := 0\<rparr>"
  define s1 where "s1 = (if pp_filtered (?pm ! i)
                  then s\<lparr>m_num_filtered := m_num_filtered s + 1, m_num_have_filtered := m_num_have_filtered s - 1\<rparr>
                  else
                    let c = (if i < m_cursor s then i else m_cursor s);
                        r = (if i \<ge> m_reverse_cursor s then i + 1 else m_reverse_cursor s)
                    in if r = c then s\<lparr>m_cursor := num_pieces s, m_reverse_cursor := 0\<rparr>
                       else s\<lparr>m_cursor := c, m_reverse_cursor := r\<rparr>)"
  define s2 where "s2 = upd_pos (s1\<lparr>m_num_have := m_num_have s1 - 1\<rparr>) i (\<lambda>p. p\<lparr>pp_index := 0\<rparr>)"
  have f: "m_piece_map s2 = ?pm[i := p]" "m_pieces s2 = m_pieces s" "m_priority_boundries s2 = m_priority_boundries s"
    "m_seeds s2 = m_seeds s" "m_dirty s2 = m_dirty s" "m_downloads s2 = m_downloads s" "m_block_info s2 = m_block_info s"
    "m_blocks_per_piece s2 = m_blocks_per_piece s" "m_blocks_in_last_piece s2 = m_blocks_in_last_piece s"
    "m_num_have s2 = m_num_have s - 1"
    by (simp_all add: s2_def s1_def p_def Let_def)
  have p: "\<not> pp_have p" "pp_filtered p = pp_filtered (?pm ! i)" "pp_priority p = pp_priority (?pm ! i)"
    "pp_downloading p = pp_downloading (?pm ! i)"
    by (simp_all add: p_def pp_have_def pp_filtered_def we_have_index_def)
  have c: "m_cursor s = cursor_forward ?pm 0" "m_reverse_cursor s = cursor_backward ?pm (length ?pm)"
    using D(2) by (simp_all add: cnt_inv_def num_pieces_def)
  have cnt: "cnt_inv s2"
  proof (cases "pp_filtered (?pm ! i)")
    case fil: True
    have "map unwanted (?pm[i := p]) = map unwanted ?pm"
      using fil p by (intro map_update_same) (simp add: unwanted_def)
    note cc = cursors_cong [OF this]
    show ?thesis
      using fil True p c by (intro cnt_inv_update [OF D(2) i' f(1)]; simp add: f cc; simp add: s2_def s1_def)
  next
    case nf: False
    have "unwanted (?pm ! i)" "\<not> unwanted p" using True nf p by (simp_all add: unwanted_def)
    note u = unskip_cnt [OF D(2) i' this]
    have "m_cursor s2 = cursor_forward (?pm[i := p]) 0" "m_reverse_cursor s2 = cursor_backward (?pm[i := p]) (length ?pm)"
      "m_num_filtered s2 = m_num_filtered s" "m_num_have_filtered s2 = m_num_have_filtered s"
      using nf u(3) unfolding u(1,2) [symmetric] by (simp_all add: s2_def s1_def Let_def)
    then show ?thesis
      using nf True p by (intro cnt_inv_update [OF D(2) i' f(1)]) (simp_all add: f)
  qed
  have dl: "dl_inv s2"
    using D(3) i' p True unfolding dl_inv_def f flags_ok_def by (auto simp: nth_list_update)
  have neg: "prio_of s i = -1" using True by (simp add: priority_unwanted)
  have st: "stale_at s2 i (prio_of s)" if "\<not> m_dirty s2"
    using that neg prio_ok_nth [OF D(5) i'] i' p
    by (intro stale_update [OF D(1) _ _ f(1)]) (simp_all add: f)
  have k: "prio_ok (m_piece_map s2)" "-1 \<le> prio_of s2 i"
    using D(5) prio_ok_nth [OF D(5) i'] p i' by (simp_all add: f prio_ok_update priority_ge)
  have "we_dont_have rnd s i = (if m_dirty s2 then s2 else if prio_of s2 i \<ge> 0 then picker_add rnd s2 i else s2)"
    using True unfolding we_dont_have_def s2_def s1_def by (simp add: Let_def)
  then show ?thesis using add_inv [OF st neg k(1) cnt dl _ k(2), of rnd] D(4) f(4) by simp
qed

subsection \<open>The priority of a piece\<close>

lemma set_piece_priority_inv:
  assumes s: "picker_inv s" and i: "i < num_pieces s" and v: "v \<le> 7"
  shows "picker_inv (fst (set_piece_priority rnd s i v))"
proof (cases "v = pp_priority (m_piece_map s ! i)")
  case True
  then show ?thesis using s by (simp add: set_piece_priority_def)
next
  case False
  note D = picker_invD [OF s]
  let ?pm = "m_piece_map s"
  have i': "i < length ?pm" using i by (simp add: num_pieces_def)
  define p where "p = (?pm ! i)\<lparr>pp_priority := v\<rparr>"
  define s1 where "s1 =
     (if v = 0 \<and> pp_priority (?pm ! i) \<noteq> 0
               then (if pp_have (?pm ! i) then s\<lparr>m_num_have_filtered := m_num_have_filtered s + 1\<rparr>
                     else skip_cursors (s\<lparr>m_num_filtered := m_num_filtered s + 1\<rparr>) i)
               else if v \<noteq> 0 \<and> pp_priority (?pm ! i) = 0
               then (if pp_have (?pm ! i) then s\<lparr>m_num_have_filtered := m_num_have_filtered s - 1\<rparr>
                     else
                       let c = (if i < m_cursor s then i else m_cursor s);
                           r = (if i \<ge> m_reverse_cursor s then i + 1 else m_reverse_cursor s);
                           s = s\<lparr>m_num_filtered := m_num_filtered s - 1\<rparr>
                       in if r = c then s\<lparr>m_cursor := num_pieces s, m_reverse_cursor := 0\<rparr>
                          else s\<lparr>m_cursor := c, m_reverse_cursor := r\<rparr>)
               else s)"
  define s2 where "s2 = upd_pos s1 i (\<lambda>p. p\<lparr>pp_priority := v\<rparr>)"
  have f: "m_piece_map s2 = ?pm[i := p]" "m_pieces s2 = m_pieces s" "m_priority_boundries s2 = m_priority_boundries s"
    "m_seeds s2 = m_seeds s" "m_dirty s2 = m_dirty s" "m_downloads s2 = m_downloads s" "m_block_info s2 = m_block_info s"
    "m_blocks_per_piece s2 = m_blocks_per_piece s" "m_blocks_in_last_piece s2 = m_blocks_in_last_piece s"
    "m_num_have s2 = m_num_have s"
    by (simp_all add: s2_def s1_def p_def Let_def)
  have p: "pp_have p = pp_have (?pm ! i)" "pp_filtered p \<longleftrightarrow> v = 0" "pp_filtered (?pm ! i) \<longleftrightarrow> pp_priority (?pm ! i) = 0"
    "pp_downloading p = pp_downloading (?pm ! i)" "pp_index p = pp_index (?pm ! i)" "pp_priority p = v"
    by (simp_all add: p_def pp_have_def pp_filtered_def)
  have c: "m_cursor s = cursor_forward ?pm 0" "m_reverse_cursor s = cursor_backward ?pm (length ?pm)"
    using D(2) by (simp_all add: cnt_inv_def num_pieces_def)
  have cnt: "cnt_inv s2"
  proof (cases "unwanted p = unwanted (?pm ! i)")
    case same: True
    have "map unwanted (?pm[i := p]) = map unwanted ?pm" by (rule map_update_same [OF same])
    note cc = cursors_cong [OF this]
    have "m_cursor s2 = m_cursor s" "m_reverse_cursor s2 = m_reverse_cursor s"
      "m_num_filtered s2 = m_num_filtered s" "m_num_have_filtered s2 = m_num_have_filtered s
        - of_bool (pp_filtered (?pm ! i) \<and> pp_have (?pm ! i)) + of_bool (pp_filtered p \<and> pp_have p)"
      using same p False by (auto simp: s2_def s1_def unwanted_def)
    moreover have "(pp_filtered (?pm ! i) \<and> \<not> pp_have (?pm ! i)) = (pp_filtered p \<and> \<not> pp_have p)"
      using same p by (auto simp: unwanted_def)
    ultimately show ?thesis
      using c p by (intro cnt_inv_update [OF D(2) i' f(1)]) (simp_all add: f cc)
  next
    case ne: False
    show ?thesis
    proof (cases "unwanted p")
      case True
      with ne have u: "\<not> unwanted (?pm ! i)" by simp
      let ?s = "s\<lparr>m_num_filtered := m_num_filtered s + 1\<rparr>"
      have sk: "m_cursor (skip_cursors ?s i) = cursor_forward (?pm[i := p]) 0"
        "m_reverse_cursor (skip_cursors ?s i) = cursor_backward (?pm[i := p]) (length ?pm)"
        using c by (intro skip_cursors_ok [OF i' u True]; simp)+
      have "s1 = skip_cursors ?s i" using u True p by (simp add: s1_def unwanted_def)
      then show ?thesis using sk u True p
        by (intro cnt_inv_update [OF D(2) i' f(1)]) (simp_all add: f, simp_all add: s2_def unwanted_def)
    next
      case nu: False
      with ne have u: "unwanted (?pm ! i)" by simp
      note uk = unskip_cnt [OF D(2) i' u nu]
      have "m_cursor s2 = cursor_forward (?pm[i := p]) 0" "m_reverse_cursor s2 = cursor_backward (?pm[i := p]) (length ?pm)"
        "m_num_filtered s2 = m_num_filtered s - 1" "m_num_have_filtered s2 = m_num_have_filtered s"
        using u nu p uk(3) unfolding uk(1,2) [symmetric] by (simp_all add: s2_def s1_def Let_def unwanted_def)
      then show ?thesis
        using u nu p by (intro cnt_inv_update [OF D(2) i' f(1)]) (simp_all add: f unwanted_def)
    qed
  qed
  have dl: "dl_inv s2"
    using D(3) i' p unfolding dl_inv_def f flags_ok_def by (auto simp: nth_list_update)
  have st: "stale_at s2 i (prio_of s)" if "\<not> m_dirty s2"
    using that v i' p by (intro stale_update [OF D(1) _ _ f(1)]) (simp_all add: f)
  have k: "prio_ok (m_piece_map s2)" using D(5) p v by (simp add: f prio_ok_update)
  have "fst (set_piece_priority rnd s i v) =
     (if m_dirty s2 then s2 else if prio_of s2 i = prio_of s i then s2 else refile rnd s2 i (prio_of s i))"
  proof -
    have pair: "(if a then (X, True) else if b then (Y, True) else (Z, False)) =
       ((if a then X else if b then Y else Z), a \<or> b)" for a b and X Y Z :: piece_picker
      by simp
    show ?thesis
      unfolding set_piece_priority_def Let_def pair prod.case s1_def [unfolded Let_def, symmetric] s2_def [symmetric]
      using False by simp
  qed
  then show ?thesis using refile_inv [OF st D(6) [OF i'] k cnt dl, of rnd] D(4) f(4) by simp
qed

end
