(* ===== verification/Picker_Marks.thy ===== *)
theory Picker_Marks
  imports Picker_Preserve
begin

text \<open>
  The block operations: \<^verbatim>\<open>mark_as_downloading\<close>, \<^verbatim>\<open>mark_as_writing\<close>, \<^verbatim>\<open>mark_as_finished\<close>,
  \<^verbatim>\<open>write_failed\<close>, \<^verbatim>\<open>abort_download\<close> and \<^verbatim>\<open>clear_peer\<close>. Each changes one block and the
  counters of its piece (\<open>block_step\<close>), after adding an entry or before erasing it.
\<close>

subsection \<open>One block changes\<close>

text \<open>
  \<open>set_block s k b x d full\<close> puts the block \<open>x\<close> at \<open>b\<close> of entry \<open>k\<close>, which becomes \<open>d\<close>, and
  sets the flag \<^verbatim>\<open>full\<close> of its piece.
\<close>

definition set_block :: "piece_picker \<Rightarrow> nat \<Rightarrow> nat \<Rightarrow> block_info \<Rightarrow> downloading_piece \<Rightarrow> bool \<Rightarrow> piece_picker" where
  "set_block s k b x d full =
     (let i = dp_index (m_downloads s ! k) in
      s\<lparr>m_block_info := (m_block_info s)[dp_info (m_downloads s ! k) + b := x],
        m_downloads := (m_downloads s)[k := d],
        m_piece_map := (m_piece_map s)[i := (m_piece_map s ! i)\<lparr>pp_full := full\<rparr>]\<rparr>)"

lemma set_block_inv:
  assumes s: "picker_inv s" and k: "k < length (m_downloads s)"
    and b: "b < blocks_in_piece s (dp_index (m_downloads s ! k))"
    and d: "dp_index d = dp_index (m_downloads s ! k)" "dp_info d = dp_info (m_downloads s ! k)"
    and e: "entry_ok ((dl_blocks s (m_downloads s ! k))[b := x]) d"
  shows "picker_inv (set_block s k b x d full)"
proof -
  note D = picker_invD [OF s]
  let ?i = "dp_index (m_downloads s ! k)" and ?s = "set_block s k b x d full"
  let ?pm = "(m_piece_map s)[?i := (m_piece_map s ! ?i)\<lparr>pp_full := full\<rparr>]"
  have i: "?i < length (m_piece_map s)" using D(3) k by (simp add: dl_inv_def dl_core_def)
  have "dl_core (length (m_piece_map s)) (m_blocks_per_piece s) (m_blocks_in_last_piece s)
      ((m_downloads s)[k := d]) ((m_block_info s)[dp_info (m_downloads s ! k) + b := x])"
    using D(3) k b d e unfolding dl_inv_def blocks_in_piece_nblk dl_blocks_of by (intro core_step) simp_all
  moreover have "flags_ok ?pm ((m_downloads s)[k := d]) = flags_ok (m_piece_map s) (m_downloads s)"
  proof -
    have "map dp_index ((m_downloads s)[k := d]) = map dp_index (m_downloads s)" using d(1) by (rule map_update_same)
    then have "dp_index ` set ((m_downloads s)[k := d]) = dp_index ` set (m_downloads s)" by (metis list.set_map)
    moreover have "flags_ok ?pm (m_downloads s) = flags_ok (m_piece_map s) (m_downloads s)"
      by (rule flags_ok_cong) (simp_all add: map_update_same pp_have_def)
    ultimately show ?thesis unfolding flags_ok_def by simp
  qed
  ultimately have dl: "dl_inv ?s" using D(3) unfolding dl_inv_def set_block_def Let_def by simp
  have "cnt_inv ?s = cnt_inv s"
    by (rule cnt_inv_cong) (simp_all add: set_block_def Let_def bits2_def map_update_same pp_have_def pp_filtered_def)
  moreover have "bkt_inv ?s"
  proof -
    have k': "prio_ok (m_piece_map ?s)"
      using D(5) prio_ok_nth [OF D(5) i] by (simp add: set_block_def Let_def prio_ok_update)
    have pr: "prio_of ?s j = prio_of s j" if "j < length (m_piece_map s)" for j
      using that i by (simp add: set_block_def Let_def nth_list_update priority_def pp_have_def pp_filtered_def)
    show ?thesis
    proof (cases "m_dirty s")
      case False
      then have "bucketed (prio_of s) (m_piece_map s) (m_pieces s) (m_priority_boundries s)"
        using D(1) by (simp add: bkt_inv_def)
      then have "bucketed (prio_of s) ?pm (m_pieces s) (m_priority_boundries s)"
        by (rule bucketed_new_pm) (simp_all add: nth_list_update i)
      then have "bucketed (prio_of ?s) ?pm (m_pieces s) (m_priority_boundries s)"
        by (rule bucketed_cong) (use pr in simp)
      then show ?thesis using k' unfolding bkt_inv_def by (simp add: set_block_def Let_def)
    qed (use k' in \<open>simp add: bkt_inv_def set_block_def Let_def\<close>)
  qed
  ultimately show ?thesis using D dl by (simp add: picker_inv_def set_block_def Let_def)
qed

lemma set_block_at:
  assumes "picker_inv s" "k < length (m_downloads s)" "b < blocks_in_piece s (dp_index (m_downloads s ! k))"
    "dp_info d = dp_info (m_downloads s ! k)"
  shows "block_at (set_block s k b x d full) k b = x" "dp_info (m_downloads s ! k) + b < length (m_block_info s)"
proof -
  have c: "dl_core (length (m_piece_map s)) (m_blocks_per_piece s) (m_blocks_in_last_piece s) (m_downloads s) (m_block_info s)"
    using assms(1) by (simp add: picker_inv_def dl_inv_def)
  have "b < m_blocks_per_piece s"
    using assms(3) c nblk_le unfolding blocks_in_piece_nblk dl_core_def by (meson less_le_trans)
  then show l: "dp_info (m_downloads s ! k) + b < length (m_block_info s)"
    using c slot_bound [of "m_blocks_per_piece s" "m_downloads s" "m_downloads s ! k"] assms(2) unfolding dl_core_def by simp
  show "block_at (set_block s k b x d full) k b = x"
    using l assms(2,4) by (simp add: block_at_def set_block_def Let_def)
qed

text \<open>The entry and its blocks after the change.\<close>

lemma entry_ok_step:
  assumes "entry_ok bs d" "b < length bs" "block_wf x"
    and "dp_requested d' = dp_requested d - of_bool (bi_state (bs ! b) = state_requested) + of_bool (bi_state x = state_requested)"
    and "dp_writing d' = dp_writing d - of_bool (bi_state (bs ! b) = state_writing) + of_bool (bi_state x = state_writing)"
    and "dp_finished d' = dp_finished d - of_bool (bi_state (bs ! b) = state_finished) + of_bool (bi_state x = state_finished)"
    and "dp_requested d' > 0 \<longleftrightarrow> dp_state d' \<noteq> none"
  shows "entry_ok (bs[b := x]) d'"
  using assms unfolding entry_ok_def
  by (auto simp: count_state_update list_all_iff dest!: subsetD [OF set_update_subset_insert])

lemma entry_ok_nonneg:
  assumes "entry_ok bs d" "b < length bs"
  shows "0 \<le> dp_requested d" "0 \<le> dp_writing d" "0 \<le> dp_finished d"
    "bi_state (bs ! b) = state_requested \<Longrightarrow> 1 \<le> dp_requested d"
    "bi_state (bs ! b) = state_writing \<Longrightarrow> 1 \<le> dp_writing d"
    "bi_state (bs ! b) = state_finished \<Longrightarrow> 1 \<le> dp_finished d"
proof -
  have c: "bi_state (bs ! b) = st \<Longrightarrow> 1 \<le> count_state st bs" for st
    using assms(2) nth_mem [OF assms(2)] unfolding count_state_def
    by (metis (mono_tags, lifting) filter_empty_conv length_0_conv less_one linorder_not_less of_nat_1 of_nat_mono)
  show "0 \<le> dp_requested d" "0 \<le> dp_writing d" "0 \<le> dp_finished d"
    using assms(1) by (simp_all add: entry_ok_def count_state_def)
  show "bi_state (bs ! b) = state_requested \<Longrightarrow> 1 \<le> dp_requested d"
    "bi_state (bs ! b) = state_writing \<Longrightarrow> 1 \<le> dp_writing d"
    "bi_state (bs ! b) = state_finished \<Longrightarrow> 1 \<le> dp_finished d"
    using assms(1) c by (simp_all add: entry_ok_def)
qed

lemma set_full_same [simp]: "pm[i := (pm ! i)\<lparr>pp_full := pp_full (pm ! i)\<rparr>] = pm"
proof -
  have "(pm ! i)\<lparr>pp_full := pp_full (pm ! i)\<rparr> = pm ! i" by simp
  then show ?thesis by simp
qed

lemmas block_defs = upd_block_def upd_dp_def update_full_def block_at_def set_block_def Let_def

subsection \<open>A new entry\<close>

lemma start_download_ok:
  assumes s: "picker_inv s" and i: "i < num_pieces s" "\<not> pp_downloading (m_piece_map s ! i)" "\<not> pp_have (m_piece_map s ! i)"
  obtains s' k where "start_download rnd s i = (s', k)" "picker_inv s'" "k < length (m_downloads s')"
    "dp_index (m_downloads s' ! k) = i" "dp_state (m_downloads s' ! k) = none" "dp_requested (m_downloads s' ! k) = 0"
    "dp_writing (m_downloads s' ! k) = 0" "dp_finished (m_downloads s' ! k) = 0"
    "dl_blocks s' (m_downloads s' ! k) = replicate (blocks_in_piece s i) block_info_init"
    "blocks_in_piece s' = blocks_in_piece s" "m_blocks_per_piece s' = m_blocks_per_piece s"
    "pm_view (m_piece_map s') = pm_view ((m_piece_map s)[i := (m_piece_map s ! i)\<lparr>pp_downloading := True\<rparr>])"
proof -
  note D = picker_invD [OF s]
  have i': "i < length (m_piece_map s)" using i by (simp add: num_pieces_def)
  define s1 where "s1 = upd_pos s i (\<lambda>p. p\<lparr>pp_downloading := True\<rparr>)"
  define s2 where "s2 = (if m_dirty s1 then s1 else if prio_of s i \<ge> 0
     then picker_update rnd s1 (nat (prio_of s i)) (pp_index (m_piece_map s1 ! i)) else s1)"
  obtain s3 k where s3: "add_download_piece s2 i = (s3, k)" by fastforce
  have k1: "prio_ok (m_piece_map s1)" unfolding s1_def by (rule upd_pos_prio_ok [OF s i']) simp
  have st: "stale_at s1 i (prio_of s)" if "\<not> m_dirty s1"
    using that unfolding s1_def by (intro upd_pos_stale [OF s i']) simp_all
  have same: "prio_of s1 i = prio_of s i" if "prio_of s i < 0"
  proof -
    have "priority (m_seeds s) (m_piece_map s1 ! i) < 0"
      using that priority_neg [OF prio_ok_nth [OF D(5) i']] priority_neg [OF prio_ok_nth [OF k1, of i]] i'
      by (simp add: s1_def pp_filtered_def pp_have_def)
    moreover have "-1 \<le> priority (m_seeds s) (m_piece_map s1 ! i)" by (rule priority_ge [OF prio_ok_nth [OF k1]]) (simp add: s1_def i')
    ultimately show ?thesis using that D(6) [OF i'] by (simp add: s1_def)
  qed
  have m: "moved s1 s2" "bkt_inv s2" unfolding s2_def using update_moved [OF st same k1, of rnd] by simp_all
  note F = moved_fields [OF m(1)]
  have c1: "cnt_inv s1" using D(2) by (simp add: s1_def upd_pos_parts pp_have_def pp_filtered_def)
  have core: "dl_core (length (m_piece_map s)) (m_blocks_per_piece s2) (m_blocks_in_last_piece s) (m_downloads s2) (m_block_info s2)"
    and fl: "flags_ok (m_piece_map s) (m_downloads s)"
    using D(3) by (simp_all add: F dl_inv_def s1_def)
  have ni: "i \<notin> dp_index ` set (m_downloads s2)" using fl i i' by (simp add: F s1_def flags_ok_def)
  note A = add_download_piece_core [OF core i' ni s3]
  obtain dls bi where e3: "s3 = s2\<lparr>m_downloads := dls, m_block_info := bi\<rparr>" using A(10) by blast
  have v: "pm_view (m_piece_map s3) = pm_view ((m_piece_map s)[i := (m_piece_map s ! i)\<lparr>pp_downloading := True\<rparr>])"
    using F(14) by (simp add: e3 s1_def)
  have bp: "blocks_in_piece s3 = blocks_in_piece s"
    using F by (simp add: fun_eq_iff blocks_in_piece_def e3 s1_def)
  have "flags_ok (m_piece_map s3) (m_downloads s3)"
  proof -
    have "flags_ok (m_piece_map s3) (m_downloads s3) =
      flags_ok ((m_piece_map s)[i := (m_piece_map s ! i)\<lparr>pp_downloading := True\<rparr>]) (m_downloads s3)"
      by (rule flags_ok_cong) (rule pm_view_map [OF v], simp)+
    then show ?thesis using fl i i' A(9) unfolding flags_ok_def by (auto simp: nth_list_update F s1_def pp_have_def)
  qed
  then have dl: "dl_inv s3" using A(1) F by (simp add: dl_inv_def e3 s1_def)
  have cnt: "cnt_inv s3" using moved_parts(1) [OF m(1)] c1 by (simp add: e3 cnt_inv_def num_pieces_def)
  have "bkt_inv s3" using m(2) by (simp add: e3 bkt_inv_def)
  then have inv: "picker_inv s3" using dl cnt D(4) F by (simp add: picker_inv_def e3 s1_def)
  have sd: "start_download rnd s i = (s3, k)"
  proof -
    have "(if prio_of s i \<ge> 0 \<and> \<not> m_dirty s1
       then picker_update rnd s1 (nat (prio_of s i)) (pp_index (m_piece_map s1 ! i)) else s1) = s2"
      by (simp add: s2_def)
    then show ?thesis unfolding start_download_def Let_def s1_def [symmetric] using s3 by simp
  qed
  have bl: "dl_blocks s3 (m_downloads s3 ! k) = replicate (blocks_in_piece s i) block_info_init"
    using A(8) F unfolding dl_blocks_of blocks_in_piece_nblk by (simp add: e3 s1_def)
  have "m_blocks_per_piece s3 = m_blocks_per_piece s" using F by (simp add: e3 s1_def)
  from that [OF sd inv A(2-7) bl bp this v] show ?thesis .
qed

subsection \<open>The operations on an entry\<close>

lemma entry_of:
  assumes "picker_inv s" "k < length (m_downloads s)"
  shows "entry_ok (dl_blocks s (m_downloads s ! k)) (m_downloads s ! k)"
    "dp_index (m_downloads s ! k) < num_pieces s"
    "length (dl_blocks s (m_downloads s ! k)) = blocks_in_piece s (dp_index (m_downloads s ! k))"
  using assms unfolding picker_inv_def dl_inv_def dl_core_def dl_blocks_of blocks_in_piece_nblk num_pieces_def by simp_all

lemma dl_blocks_nth:
  "b < blocks_in_piece s (dp_index (m_downloads s ! k)) \<Longrightarrow> dl_blocks s (m_downloads s ! k) ! b = block_at s k b"
  by (simp add: dl_blocks_def block_at_def)

lemma block_wf_at:
  assumes "picker_inv s" "k < length (m_downloads s)" "b < blocks_in_piece s (dp_index (m_downloads s ! k))"
  shows "block_wf (block_at s k b)"
  using entry_of [OF assms(1,2)] dl_blocks_nth [OF assms(3)] assms(3) nth_mem [of b "dl_blocks s (m_downloads s ! k)"]
  unfolding entry_ok_def list_all_iff by metis

lemma find_dl_at:
  assumes "picker_inv s" "k < length (m_downloads s)"
  shows "find_dl_piece s (dp_index (m_downloads s ! k)) = Some k"
    "pp_downloading (m_piece_map s ! dp_index (m_downloads s ! k))"
proof -
  have "dl_inv s" using assms(1) by (simp add: picker_inv_def)
  then have "sorted_wrt (<) (map dp_index (m_downloads s))" "dp_index (m_downloads s ! k) < length (m_piece_map s)"
    "flags_ok (m_piece_map s) (m_downloads s)"
    using assms(2) by (simp_all add: dl_inv_def dl_core_def)
  with assms(2) show "find_dl_piece s (dp_index (m_downloads s ! k)) = Some k"
    "pp_downloading (m_piece_map s ! dp_index (m_downloads s ! k))"
    by (simp_all add: find_dl_piece_iff flags_ok_def)
qed

text \<open>What the queries see of a block that was just set.\<close>

lemma block_state_set_block:
  assumes s: "picker_inv s" and k: "k < length (m_downloads s)" "dp_index (m_downloads s ! k) = i"
    and b: "b < blocks_in_piece s i" and d: "dp_index d = i" "dp_info d = dp_info (m_downloads s ! k)"
    and inv: "picker_inv (set_block s k b x d full)"
  defines "s' \<equiv> set_block s k b x d full"
  shows "find_dl_piece s' i = Some k" "block_at s' k b = x" "pp_downloading (m_piece_map s' ! i)"
    "pp_have (m_piece_map s' ! i) = pp_have (m_piece_map s ! i)" "m_downloads s' ! k = d" "k < length (m_downloads s')"
    "blocks_in_piece s' = blocks_in_piece s"
proof -
  have dk: "m_downloads s' ! k = d" "k < length (m_downloads s')" using k by (simp_all add: s'_def set_block_def Let_def)
  have "dp_index (m_downloads s' ! k) = i" using dk d by simp
  with find_dl_at [OF inv, folded s'_def, OF dk(2)] show "find_dl_piece s' i = Some k" "pp_downloading (m_piece_map s' ! i)" by simp_all
  show "block_at s' k b = x" unfolding s'_def by (rule set_block_at) (use s k b d in simp_all)
  have "i < length (m_piece_map s)" using entry_of(2) [OF s k(1)] k(2) by (simp add: num_pieces_def)
  then show "pp_have (m_piece_map s' ! i) = pp_have (m_piece_map s ! i)"
    using k(2) by (simp add: s'_def set_block_def Let_def pp_have_def)
  show "m_downloads s' ! k = d" "k < length (m_downloads s')" by (rule dk)+
  show "blocks_in_piece s' = blocks_in_piece s" by (simp add: fun_eq_iff s'_def set_block_def Let_def blocks_in_piece_def)
qed

lemma blocks_in_piece_upd [simp]:
  "blocks_in_piece (s\<lparr>m_downloads := x\<rparr>) i = blocks_in_piece s i"
  "blocks_in_piece (s\<lparr>m_block_info := y\<rparr>) i = blocks_in_piece s i"
  by (simp_all add: blocks_in_piece_def)

text \<open>
  \<open>mark_step s i b s' k x\<close>: the change an operation makes to block \<open>b\<close> of piece \<open>i\<close>: the
  block at entry \<open>k\<close> is \<open>x\<close> in \<open>s'\<close>.
\<close>

lemma set_block_result:
  fixes full :: bool
  assumes s: "picker_inv s" and k: "k < length (m_downloads s)" "dp_index (m_downloads s ! k) = i"
    and b: "b < blocks_in_piece s i" and d: "dp_index d = i" "dp_info d = dp_info (m_downloads s ! k)"
    and x: "block_wf x"
    and n: "dp_requested d = dp_requested (m_downloads s ! k) - of_bool (bi_state (block_at s k b) = state_requested)
       + of_bool (bi_state x = state_requested)"
      "dp_writing d = dp_writing (m_downloads s ! k) - of_bool (bi_state (block_at s k b) = state_writing)
       + of_bool (bi_state x = state_writing)"
      "dp_finished d = dp_finished (m_downloads s ! k) - of_bool (bi_state (block_at s k b) = state_finished)
       + of_bool (bi_state x = state_finished)"
    and st: "dp_requested d > 0 \<longleftrightarrow> dp_state d \<noteq> none"
  defines "s' \<equiv> set_block s k b x d full"
  shows "picker_inv s'" "find_dl_piece s' i = Some k" "block_at s' k b = x" "pp_downloading (m_piece_map s' ! i)"
    "pp_have (m_piece_map s' ! i) = pp_have (m_piece_map s ! i)"
proof -
  have l: "b < length (dl_blocks s (m_downloads s ! k))" using entry_of(3) [OF s k(1)] b k by simp
  have e: "entry_ok (dl_blocks s (m_downloads s ! k)) (m_downloads s ! k)" by (rule entry_of(1) [OF s k(1)])
  have bn: "dl_blocks s (m_downloads s ! k) ! b = block_at s k b" using b k(2) by (intro dl_blocks_nth) simp
  have "entry_ok ((dl_blocks s (m_downloads s ! k))[b := x]) d"
    using x n st by (intro entry_ok_step [OF e l]) (simp_all add: bn)
  then show inv: "picker_inv s'" unfolding s'_def using b k d by (intro set_block_inv [OF s k(1)]) simp_all
  show "find_dl_piece s' i = Some k" "block_at s' k b = x" "pp_downloading (m_piece_map s' ! i)"
    "pp_have (m_piece_map s' ! i) = pp_have (m_piece_map s ! i)"
    using block_state_set_block [OF s k b d inv [unfolded s'_def]] unfolding s'_def by simp_all
qed

lemma state_counts:
  assumes s: "picker_inv s" and k: "k < length (m_downloads s)" "dp_index (m_downloads s ! k) = i"
    and b: "b < blocks_in_piece s i"
  shows "0 \<le> dp_requested (m_downloads s ! k)" "0 \<le> dp_writing (m_downloads s ! k)" "0 \<le> dp_finished (m_downloads s ! k)"
    "bi_state (block_at s k b) = state_requested \<Longrightarrow> 1 \<le> dp_requested (m_downloads s ! k)"
    "bi_state (block_at s k b) = state_writing \<Longrightarrow> 1 \<le> dp_writing (m_downloads s ! k)"
    "dp_requested (m_downloads s ! k) > 0 \<longleftrightarrow> dp_state (m_downloads s ! k) \<noteq> none"
    "dp_info (m_downloads s ! k) + b < length (m_block_info s)"
    "bi_num_peers (block_at s k b) > 0 \<longleftrightarrow> bi_state (block_at s k b) = state_requested"
    "i < length (m_piece_map s)" "find_dl_piece s i = Some k" "pp_downloading (m_piece_map s ! i)"
proof -
  have l: "b < length (dl_blocks s (m_downloads s ! k))" using entry_of(3) [OF s k(1)] b k by simp
  have e: "entry_ok (dl_blocks s (m_downloads s ! k)) (m_downloads s ! k)" by (rule entry_of(1) [OF s k(1)])
  have bn: "dl_blocks s (m_downloads s ! k) ! b = block_at s k b" using b k(2) by (intro dl_blocks_nth) simp
  show "0 \<le> dp_requested (m_downloads s ! k)" "0 \<le> dp_writing (m_downloads s ! k)" "0 \<le> dp_finished (m_downloads s ! k)"
    "bi_state (block_at s k b) = state_requested \<Longrightarrow> 1 \<le> dp_requested (m_downloads s ! k)"
    "bi_state (block_at s k b) = state_writing \<Longrightarrow> 1 \<le> dp_writing (m_downloads s ! k)"
    using entry_ok_nonneg [OF e l] unfolding bn by blast+
  show "dp_requested (m_downloads s ! k) > 0 \<longleftrightarrow> dp_state (m_downloads s ! k) \<noteq> none" using e unfolding entry_ok_def by blast
  show "dp_info (m_downloads s ! k) + b < length (m_block_info s)" using set_block_at(2) [OF s k(1)] b k(2) by blast
  show "bi_num_peers (block_at s k b) > 0 \<longleftrightarrow> bi_state (block_at s k b) = state_requested"
    using block_wf_at [OF s k(1)] b k(2) by (simp add: block_wf_def)
  show "i < length (m_piece_map s)" using entry_of(2) [OF s k(1)] k(2) by (simp add: num_pieces_def)
  show "find_dl_piece s i = Some k" "pp_downloading (m_piece_map s ! i)" using find_dl_at [OF s k(1)] k(2) by simp_all
qed

lemma mark_as_downloading_inv:
  assumes s: "picker_inv s" and i: "i < num_pieces s" "\<not> pp_have (m_piece_map s ! i)"
    and b: "b < blocks_in_piece s i" and st: "state \<noteq> none"
    and np: "\<And>k. find_dl_piece s i = Some k \<Longrightarrow> bi_num_peers (block_at s k b) \<noteq> -1"
  shows "\<exists>s' r. mark_as_downloading rnd s \<lparr>piece_index = i, block_index = b\<rparr> peer state = Some (s', r) \<and>
     picker_inv s' \<and> is_requested s' \<lparr>piece_index = i, block_index = b\<rparr> = Some r"
proof (cases "pp_downloading (m_piece_map s ! i)")
  case False
  obtain s' k where sd: "start_download rnd s i = (s', k)" "picker_inv s'" "k < length (m_downloads s')"
    "dp_index (m_downloads s' ! k) = i" "dp_state (m_downloads s' ! k) = none" "dp_requested (m_downloads s' ! k) = 0"
    "dl_blocks s' (m_downloads s' ! k) = replicate (blocks_in_piece s i) block_info_init"
    "blocks_in_piece s' = blocks_in_piece s"
    using start_download_ok [OF s i(1) False i(2), of rnd] by metis
  have b': "b < blocks_in_piece s' i" using b sd(8) by simp
  have init: "block_at s' k b = block_info_init" using dl_blocks_nth [of b s' k] sd(4,7) b b' by simp
  note C = state_counts [OF sd(2-4) b']
  let ?x = "\<lparr>bi_peer = peer, bi_num_peers = 1, bi_state = state_requested\<rparr>"
  let ?d = "(m_downloads s' ! k)\<lparr>dp_state := state, dp_requested := 1\<rparr>"
  let ?f = "dp_requested ?d + dp_finished ?d + dp_writing ?d = int (blocks_in_piece s' i)"
  have "picker_inv (set_block s' k b ?x ?d ?f) \<and> is_requested (set_block s' k b ?x ?d ?f) \<lparr>piece_index = i, block_index = b\<rparr> = Some True"
    using set_block_result [OF sd(2-4) b', of ?d ?x ?f] init sd(4-6) st
    by (simp add: is_requested_def block_info_init_def block_wf_def)
  moreover have "mark_as_downloading rnd s \<lparr>piece_index = i, block_index = b\<rparr> peer state = Some (set_block s' k b ?x ?d ?f, True)"
    using False sd init C(7) by (simp add: mark_as_downloading_def block_defs block_info_init_def)
  ultimately show ?thesis by blast
next
  case True
  have i': "i < length (m_piece_map s)" using i by (simp add: num_pieces_def)
  obtain k where k: "find_dl_piece s i = Some k" "k < length (m_downloads s)" "dp_index (m_downloads s ! k) = i"
    by (rule find_dl_piece_downloading [OF picker_invD(3) [OF s] i' True])
  note C = state_counts [OF s k(2,3) b]
  let ?o = "block_at s k b" and ?dk = "m_downloads s ! k"
  let ?x = "?o\<lparr>bi_peer := peer, bi_state := state_requested, bi_num_peers := bi_num_peers ?o + 1\<rparr>"
  let ?d = "?dk\<lparr>dp_requested := dp_requested ?dk + of_bool (bi_state ?o = state_none),
      dp_state := (if dp_state ?dk = none then state else dp_state ?dk)\<rparr>"
  let ?f = "if bi_state ?o = state_none
     then dp_requested ?d + dp_finished ?d + dp_writing ?d = int (blocks_in_piece s i) else pp_full (m_piece_map s ! i)"
  show ?thesis
  proof (cases "bi_state ?o = state_writing \<or> bi_state ?o = state_finished")
    case wf: True
    then have "mark_as_downloading rnd s \<lparr>piece_index = i, block_index = b\<rparr> peer state = Some (s, False)"
      using True k by (simp add: mark_as_downloading_def)
    then show ?thesis using s True k wf by (auto simp: is_requested_def)
  next
    case False
    then have bs: "bi_state ?o = state_none \<or> bi_state ?o = state_requested" by (cases "bi_state ?o") auto
    have "bi_num_peers ?o + 1 > 0" using np [OF k(1)] by (simp add: word_gt_0 eq_neg_iff_add_eq_0)
    then have r: "picker_inv (set_block s k b ?x ?d ?f) \<and> is_requested (set_block s k b ?x ?d ?f) \<lparr>piece_index = i, block_index = b\<rparr> = Some True"
      using set_block_result [OF s k(2,3) b, of ?d ?x ?f] bs st C(1,4,6) k(3)
      by (auto simp: is_requested_def block_wf_def)
    have "mark_as_downloading rnd s \<lparr>piece_index = i, block_index = b\<rparr> peer state = Some (set_block s k b ?x ?d ?f, True)"
      using bs
    proof
      assume "bi_state ?o = state_none"
      then show ?thesis using True k C(7,9)
        by (auto simp: mark_as_downloading_def block_defs intro!: piece_picker.equality)
    next
      assume rq: "bi_state ?o = state_requested"
      then have x: "?x = ?o\<lparr>bi_peer := peer, bi_num_peers := bi_num_peers ?o + 1\<rparr>" by simp
      show ?thesis unfolding x using rq True k C(7,9)
        by (auto simp: mark_as_downloading_def block_defs intro!: piece_picker.equality)
    qed
    then show ?thesis using r by blast
  qed
qed

lemma mark_as_writing_inv:
  assumes s: "picker_inv s" and i: "i < num_pieces s" and b: "b < blocks_in_piece s i"
  shows "\<exists>s' r. mark_as_writing rnd s \<lparr>piece_index = i, block_index = b\<rparr> peer = Some (s', r) \<and>
     picker_inv s' \<and> is_downloaded s' \<lparr>piece_index = i, block_index = b\<rparr> = Some True"
proof (cases "pp_downloading (m_piece_map s ! i)")
  case nd: False
  show ?thesis
  proof (cases "pp_have (m_piece_map s ! i)")
    case True
    then show ?thesis using s nd by (auto simp: mark_as_writing_def have_piece_def is_downloaded_def pp_have_def)
  next
    case False
    obtain s' k where sd: "start_download rnd s i = (s', k)" "picker_inv s'" "k < length (m_downloads s')"
      "dp_index (m_downloads s' ! k) = i" "dp_state (m_downloads s' ! k) = none" "dp_requested (m_downloads s' ! k) = 0"
      "dl_blocks s' (m_downloads s' ! k) = replicate (blocks_in_piece s i) block_info_init"
      "blocks_in_piece s' = blocks_in_piece s" "dp_writing (m_downloads s' ! k) = 0"
      using start_download_ok [OF s i nd False, of rnd] by metis
    have b': "b < blocks_in_piece s' i" using b sd(8) by simp
    have init: "block_at s' k b = block_info_init" using dl_blocks_nth [of b s' k] sd(4,7) b b' by simp
    note C = state_counts [OF sd(2-4) b']
    let ?x = "\<lparr>bi_peer = peer, bi_num_peers = 0, bi_state = state_writing\<rparr>"
    let ?d = "(m_downloads s' ! k)\<lparr>dp_state := none, dp_writing := 1\<rparr>"
    let ?f = "dp_requested ?d + dp_finished ?d + dp_writing ?d = int (blocks_in_piece s' i)"
    have "picker_inv (set_block s' k b ?x ?d ?f) \<and> is_downloaded (set_block s' k b ?x ?d ?f) \<lparr>piece_index = i, block_index = b\<rparr> = Some True"
      using set_block_result [OF sd(2-4) b', of ?d ?x ?f] init sd(4-6,9)
      by (simp add: is_downloaded_def block_info_init_def block_wf_def)
    moreover have "mark_as_writing rnd s \<lparr>piece_index = i, block_index = b\<rparr> peer = Some (set_block s' k b ?x ?d ?f, True)"
      using nd False sd init C(7) by (simp add: mark_as_writing_def have_piece_def pp_have_def block_defs block_info_init_def)
    ultimately show ?thesis by blast
  qed
next
  case True
  have i': "i < length (m_piece_map s)" using i by (simp add: num_pieces_def)
  obtain k where k: "find_dl_piece s i = Some k" "k < length (m_downloads s)" "dp_index (m_downloads s ! k) = i"
    by (rule find_dl_piece_downloading [OF picker_invD(3) [OF s] i' True])
  note C = state_counts [OF s k(2,3) b]
  let ?o = "block_at s k b" and ?dk = "m_downloads s ! k" and ?f = "pp_full (m_piece_map s ! i)"
  show ?thesis
  proof (cases "bi_state ?o = state_writing \<or> bi_state ?o = state_finished")
    case wf: True
    let ?x = "?o\<lparr>bi_peer := peer\<rparr>"
    have "picker_inv (set_block s k b ?x ?dk ?f) \<and> is_downloaded (set_block s k b ?x ?dk ?f) \<lparr>piece_index = i, block_index = b\<rparr> = Some True"
      using set_block_result [OF s k(2,3) b, of ?dk ?x ?f] wf C(6,8) k(3)
      by (auto simp: is_downloaded_def block_wf_def)
    moreover have "mark_as_writing rnd s \<lparr>piece_index = i, block_index = b\<rparr> peer = Some (set_block s k b ?x ?dk ?f, False)"
      using wf True k C(7,9) by (auto simp: mark_as_writing_def block_defs intro!: piece_picker.equality)
    ultimately show ?thesis by blast
  next
    case False
    then have bs: "bi_state ?o = state_none \<or> bi_state ?o = state_requested" by (cases "bi_state ?o") auto
    let ?x = "?o\<lparr>bi_peer := peer, bi_state := state_writing, bi_num_peers := 0\<rparr>"
    let ?d0 = "if bi_state ?o = state_requested then ?dk\<lparr>dp_requested := dp_requested ?dk - 1\<rparr> else ?dk"
    let ?d = "?d0\<lparr>dp_writing := dp_writing ?dk + 1,
        dp_state := (if dp_requested ?d0 = 0 then none else dp_state ?dk)\<rparr>"
    have "picker_inv (set_block s k b ?x ?d ?f) \<and> is_downloaded (set_block s k b ?x ?d ?f) \<lparr>piece_index = i, block_index = b\<rparr> = Some True"
      using set_block_result [OF s k(2,3) b, of ?d ?x ?f] bs C(1,4,6) k(3)
      by (auto simp: is_downloaded_def block_wf_def)
    moreover have "mark_as_writing rnd s \<lparr>piece_index = i, block_index = b\<rparr> peer = Some (set_block s k b ?x ?d ?f, True)"
      using bs True k C(7,9) by (auto simp: mark_as_writing_def block_defs intro!: piece_picker.equality)
    ultimately show ?thesis by blast
  qed
qed

lemma mark_as_finished_inv:
  assumes s: "picker_inv s" and i: "i < num_pieces s" and b: "b < blocks_in_piece s i"
    and nr: "is_requested s \<lparr>piece_index = i, block_index = b\<rparr> = Some False"
  shows "\<exists>s'. mark_as_finished rnd s \<lparr>piece_index = i, block_index = b\<rparr> peer = Some s' \<and>
     picker_inv s' \<and> is_finished s' \<lparr>piece_index = i, block_index = b\<rparr> = Some True"
proof (cases "pp_downloading (m_piece_map s ! i)")
  case nd: False
  show ?thesis
  proof (cases "pp_have (m_piece_map s ! i)")
    case True
    then show ?thesis using s nd by (simp add: mark_as_finished_def have_piece_def is_finished_def pp_have_def)
  next
    case False
    obtain s' k where sd: "start_download rnd s i = (s', k)" "picker_inv s'" "k < length (m_downloads s')"
      "dp_index (m_downloads s' ! k) = i" "dp_state (m_downloads s' ! k) = none" "dp_requested (m_downloads s' ! k) = 0"
      "dl_blocks s' (m_downloads s' ! k) = replicate (blocks_in_piece s i) block_info_init"
      "blocks_in_piece s' = blocks_in_piece s" "dp_finished (m_downloads s' ! k) = 0"
      using start_download_ok [OF s i nd False, of rnd] by metis
    have b': "b < blocks_in_piece s' i" using b sd(8) by simp
    have init: "block_at s' k b = block_info_init" using dl_blocks_nth [of b s' k] sd(4,7) b b' by simp
    note C = state_counts [OF sd(2-4) b']
    let ?x = "\<lparr>bi_peer = peer, bi_num_peers = 0, bi_state = state_finished\<rparr>"
    let ?d = "(m_downloads s' ! k)\<lparr>dp_state := none, dp_finished := 1\<rparr>" and ?f = "pp_full (m_piece_map s' ! i)"
    have "picker_inv (set_block s' k b ?x ?d ?f) \<and> is_finished (set_block s' k b ?x ?d ?f) \<lparr>piece_index = i, block_index = b\<rparr> = Some True"
      using set_block_result [OF sd(2-4) b', of ?d ?x ?f] init sd(4-6,9)
      by (simp add: is_finished_def block_info_init_def block_wf_def)
    moreover have "mark_as_finished rnd s \<lparr>piece_index = i, block_index = b\<rparr> peer = Some (set_block s' k b ?x ?d ?f)"
      using nd False sd init C(7)
      by (auto simp: mark_as_finished_def have_piece_def pp_have_def block_defs block_info_init_def intro!: piece_picker.equality)
    ultimately show ?thesis by blast
  qed
next
  case True
  have i': "i < length (m_piece_map s)" using i by (simp add: num_pieces_def)
  obtain k where k: "find_dl_piece s i = Some k" "k < length (m_downloads s)" "dp_index (m_downloads s ! k) = i"
    by (rule find_dl_piece_downloading [OF picker_invD(3) [OF s] i' True])
  note C = state_counts [OF s k(2,3) b]
  let ?o = "block_at s k b" and ?dk = "m_downloads s ! k" and ?f = "pp_full (m_piece_map s ! i)"
  have nrq: "bi_state ?o \<noteq> state_requested" using nr True k(1) by (simp add: is_requested_def)
  show ?thesis
  proof (cases "bi_state ?o = state_finished")
    case fin: True
    then have "mark_as_finished rnd s \<lparr>piece_index = i, block_index = b\<rparr> peer = Some s"
      using True k by (simp add: mark_as_finished_def)
    then show ?thesis using s True k fin by (auto simp: is_finished_def)
  next
    case False
    with nrq have bs: "bi_state ?o = state_none \<or> bi_state ?o = state_writing" by (cases "bi_state ?o") auto
    let ?x = "?o\<lparr>bi_peer := peer, bi_state := state_finished\<rparr>"
    let ?d = "?dk\<lparr>dp_finished := dp_finished ?dk + 1, dp_writing := dp_writing ?dk - of_bool (bi_state ?o = state_writing)\<rparr>"
    have "picker_inv (set_block s k b ?x ?d ?f) \<and> is_finished (set_block s k b ?x ?d ?f) \<lparr>piece_index = i, block_index = b\<rparr> = Some True"
      using set_block_result [OF s k(2,3) b, of ?d ?x ?f] bs C(1,5,6,8) k(3)
      by (auto simp: is_finished_def block_wf_def)
    moreover have "mark_as_finished rnd s \<lparr>piece_index = i, block_index = b\<rparr> peer = Some (set_block s k b ?x ?d ?f)"
      using bs True k C(7,9) by (auto simp: mark_as_finished_def block_defs intro!: piece_picker.equality)
    ultimately show ?thesis by blast
  qed
qed

end
