(* ===== verification/Picker_Abort.thy ===== *)
theory Picker_Abort
  imports Picker_Marks
begin

text \<open>
  The operations that take a block back: \<^verbatim>\<open>write_failed\<close>, \<^verbatim>\<open>abort_download\<close> and
  \<^verbatim>\<open>clear_peer\<close>. The last block taken back erases the entry of its piece.
\<close>

lemma write_failed_inv:
  assumes s: "picker_inv s" and i: "i < num_pieces s" and b: "b < blocks_in_piece s i"
    and nr: "is_requested s \<lparr>piece_index = i, block_index = b\<rparr> = Some False"
  shows "picker_inv (write_failed rnd s \<lparr>piece_index = i, block_index = b\<rparr>)"
proof (cases "find_dl_piece s i")
  case None
  then show ?thesis using s by (simp add: write_failed_def)
next
  case (Some k)
  have i': "i < length (m_piece_map s)" using i by (simp add: num_pieces_def)
  have "sorted_wrt (<) (map dp_index (m_downloads s))" using s by (simp add: picker_inv_def dl_inv_def dl_core_def)
  then have k: "k < length (m_downloads s)" "dp_index (m_downloads s ! k) = i" using Some find_dl_piece_iff by blast+
  note C = state_counts [OF s k b]
  let ?o = "block_at s k b" and ?dk = "m_downloads s ! k"
  have nrq: "bi_state ?o \<noteq> state_requested" using nr Some C(11) by (simp add: is_requested_def)
  show ?thesis
  proof (cases "bi_state ?o = state_finished")
    case True
    then show ?thesis using s Some by (simp add: write_failed_def)
  next
    case False
    with nrq have bs: "bi_state ?o = state_none \<or> bi_state ?o = state_writing" by (cases "bi_state ?o") auto
    let ?x = "?o\<lparr>bi_peer := 0, bi_state := state_none\<rparr>"
    let ?d = "?dk\<lparr>dp_writing := dp_writing ?dk - of_bool (bi_state ?o = state_writing)\<rparr>"
    let ?f = "dp_requested ?d + dp_finished ?d + dp_writing ?d = int (blocks_in_piece s i)"
    define s1 where "s1 = set_block s k b ?x ?d ?f"
    have r: "picker_inv s1" unfolding s1_def
      using set_block_result(1) [OF s k b, of ?d ?x ?f] bs C(6,8) k(2) by (auto simp: block_wf_def)
    have k1: "k < length (m_downloads s1)" "dp_index (m_downloads s1 ! k) = i"
      using k by (simp_all add: s1_def set_block_def Let_def)
    let ?s2 = "erase_download_piece s1 k"
    have w: "write_failed rnd s \<lparr>piece_index = i, block_index = b\<rparr> =
       (if dl_total (m_downloads s1 ! k) = 0
        then (if m_dirty ?s2 then ?s2 else if prio_of ?s2 i = prio_of s1 i then ?s2 else refile rnd ?s2 i (prio_of s1 i))
        else s1)"
    proof -
      have "update_full (upd_block (if bi_state ?o = state_writing
                then upd_dp s k (\<lambda>d. d\<lparr>dp_writing := dp_writing d - 1\<rparr>) else s) k b
              (\<lambda>b. b\<lparr>bi_peer := 0, bi_state := state_none\<rparr>)) k = s1"
        using bs k C(7,9) unfolding s1_def by (auto simp: block_defs intro!: piece_picker.equality)
      then show ?thesis using Some False unfolding write_failed_def Let_def by simp
    qed
    note E = erase_stale [OF r k1]
    have "-1 \<le> prio_of s1 i" using picker_invD(6) [OF r] E(7) by blast
    then have "picker_inv (if m_dirty ?s2 then ?s2 else if prio_of ?s2 i = prio_of s1 i then ?s2 else refile rnd ?s2 i (prio_of s1 i))"
      using refile_inv [OF E(1) _ E(2-5), of rnd] by simp
    with w r show ?thesis by simp
  qed
qed

lemma erase_dp_state:
  "erase_download_piece (upd_dp s k (\<lambda>d. d\<lparr>dp_state := v\<rparr>)) k = erase_download_piece s k"
proof -
  let ?dls = "m_downloads s"
  let ?dls' = "?dls[k := (?dls ! k)\<lparr>dp_state := v\<rparr>]"
  have m: "map dp_info ?dls' = map dp_info ?dls" by (rule map_update_same) simp
  have fi: "find_info ?dls' off = find_info ?dls off" for off
    unfolding find_info_def using length_takeWhile_map [OF m, of "\<lambda>d. dp_info d \<noteq> off" "\<lambda>x. x \<noteq> off"] by simp
  have kk: "dp_info (?dls' ! k) = dp_info (?dls ! k) \<and> dp_index (?dls' ! k) = dp_index (?dls ! k)"
    by (cases "k < length ?dls") (simp_all add: list_update_beyond not_less)
  note k = kk [THEN conjunct1] kk [THEN conjunct2]
  have h: "vec_erase (?dls'[h := y]) k = vec_erase (?dls[h := y]) k" if "k \<noteq> h" for h y
    using that by (simp add: list_update_swap [of k h] vec_erase_update_same)
  have "erase_download_piece (s\<lparr>m_downloads := ?dls'\<rparr>) k = erase_download_piece s k"
    unfolding erase_download_piece_def
    by (auto simp: fi k Let_def vec_erase_update_same h split: option.split)
  then show ?thesis by (simp add: upd_dp_def)
qed

lemma abort_download_inv:
  assumes s: "picker_inv s" and i: "i < num_pieces s" and b: "b < blocks_in_piece s i"
  shows "\<exists>s'. abort_download rnd s \<lparr>piece_index = i, block_index = b\<rparr> peer = Some s' \<and> picker_inv s'"
proof (cases "pp_downloading (m_piece_map s ! i)")
  case False
  then show ?thesis using s by (simp add: abort_download_def)
next
  case True
  have i': "i < length (m_piece_map s)" using i by (simp add: num_pieces_def)
  obtain k where k: "find_dl_piece s i = Some k" "k < length (m_downloads s)" "dp_index (m_downloads s ! k) = i"
    by (rule find_dl_piece_downloading [OF picker_invD(3) [OF s] i' True])
  note C = state_counts [OF s k(2,3) b]
  let ?o = "block_at s k b" and ?dk = "m_downloads s ! k"
  show ?thesis
  proof (cases "bi_state ?o = state_requested")
    case False
    then show ?thesis using s True k by (simp add: abort_download_def)
  next
    case rq: True
    then have np: "bi_num_peers ?o > 0" using C(8) by simp
    let ?n = "bi_num_peers ?o - 1" and ?fl = "pp_full (m_piece_map s ! i)"
    define x0 where "x0 = (if bi_peer ?o = peer then ?o\<lparr>bi_num_peers := ?n, bi_peer := 0\<rparr> else ?o\<lparr>bi_num_peers := ?n\<rparr>)"
    define s0 where "s0 = set_block s k b x0 ?dk ?fl"
    let ?x = "x0\<lparr>bi_peer := 0, bi_state := state_none\<rparr>"
    let ?d = "?dk\<lparr>dp_requested := dp_requested ?dk - 1\<rparr>"
    let ?f = "dp_requested ?d + dp_finished ?d + dp_writing ?d = int (blocks_in_piece s i)"
    define s1 where "s1 = set_block s k b ?x ?d ?f"
    let ?s2 = "erase_download_piece s1 k"
    have x0: "bi_num_peers x0 = ?n" "bi_state x0 = state_requested" using rq by (simp_all add: x0_def)
    have b0: "block_at s0 k b = x0" unfolding s0_def using set_block_at(1) [OF s k(2), of b ?dk x0 ?fl] b k(3) by simp
    have u0: "upd_block s k b (\<lambda>b. b\<lparr>bi_num_peers := bi_num_peers b - 1\<rparr>) =
        set_block s k b (?o\<lparr>bi_num_peers := ?n\<rparr>) ?dk ?fl" (is "?l = ?u")
      using k C(7,9) by (auto simp: block_defs intro!: piece_picker.equality)
    have u1: "(if bi_peer (block_at ?u k b) = peer then upd_block ?u k b (\<lambda>b. b\<lparr>bi_peer := 0\<rparr>) else ?u) = s0"
      using k C(7,9) unfolding s0_def x0_def by (auto simp: block_defs intro!: piece_picker.equality)
    have u2: "update_full (upd_dp (upd_block s0 k b (\<lambda>b. b\<lparr>bi_peer := 0, bi_state := state_none\<rparr>)) k
         (\<lambda>d. d\<lparr>dp_requested := dp_requested d - 1\<rparr>)) k = s1"
      using k C(7,9) unfolding s0_def s1_def by (auto simp: block_defs intro!: piece_picker.equality)
    have w: "abort_download rnd s \<lparr>piece_index = i, block_index = b\<rparr> peer =
      (if ?n > 0 then Some s0 else if dl_total (m_downloads s1 ! k) = 0
       then Some (if m_dirty ?s2 then ?s2 else if prio_of s1 i = -1 \<and> prio_of ?s2 i \<ge> 0 then picker_add rnd ?s2 i
             else if prio_of s1 i \<ge> 0 then picker_update rnd ?s2 (nat (prio_of s1 i)) (pp_index (m_piece_map ?s2 ! i)) else ?s2)
       else Some (if dp_requested (m_downloads s1 ! k) = 0 then upd_dp s1 k (\<lambda>d. d\<lparr>dp_state := none\<rparr>) else s1))"
      unfolding abort_download_def Let_def piece_block.select_convs k(1) option.case
      by (simp only: True rq np u0 u1 b0 x0 u2 not_True_eq_False if_False if_True simp_thms)
    show ?thesis
    proof (cases "?n > 0")
      case more: True
      have "picker_inv s0" unfolding s0_def
        using set_block_result(1) [OF s k(2,3) b, of ?dk x0 ?fl] more rq x0 C(6) k(3) by (auto simp: block_wf_def)
      then show ?thesis using w more by simp
    next
      case False
      then have n0: "?n = 0" by (simp add: word_gt_0)
      have k1: "k < length (m_downloads s1)" "dp_index (m_downloads s1 ! k) = i" "m_downloads s1 ! k = ?d"
        using k by (simp_all add: s1_def set_block_def Let_def)
      define s1' where "s1' = set_block s k b ?x (?d\<lparr>dp_state := none\<rparr>) ?f"
      have s1': "s1' = upd_dp s1 k (\<lambda>d. d\<lparr>dp_state := none\<rparr>)"
        using k by (auto simp: s1'_def s1_def block_defs intro!: piece_picker.equality)
      have rq1: "1 \<le> dp_requested ?dk" using C(4) rq by simp
      have x: "block_wf ?x" "bi_state ?x = state_none" using n0 x0 by (simp_all add: block_wf_def)
      show ?thesis
      proof (cases "dp_requested ?d = 0")
        case False
        then have "picker_inv s1" unfolding s1_def
          using set_block_result(1) [OF s k(2,3) b, of ?d ?x ?f] x rq C(6) rq1 k(3) by auto
        moreover have "dl_total (m_downloads s1 ! k) \<noteq> 0" using False rq1 C(2,3) k1(3) by (auto simp: dl_total_def)
        ultimately show ?thesis using w n0 False k1(3) by simp
      next
        case z: True
        have i1: "picker_inv s1'" unfolding s1'_def
          using set_block_result(1) [OF s k(2,3) b, of "?d\<lparr>dp_state := none\<rparr>" ?x ?f] x rq z k(3) by auto
        show ?thesis
        proof (cases "dl_total (m_downloads s1 ! k) = 0")
          case False
          then show ?thesis using w n0 z i1 k1(3) s1' by simp
        next
          case tot: True
          have e: "?s2 = erase_download_piece s1' k" unfolding s1' by (rule erase_dp_state [symmetric])
          have p1: "prio_of s1' = prio_of s1" "k < length (m_downloads s1')" "dp_index (m_downloads s1' ! k) = i"
            using k1 by (simp_all add: s1' upd_dp_def)
          note E = erase_stale [OF i1 p1(2,3), folded e, unfolded p1(1)]
          have ge: "-1 \<le> prio_of s1 i" "-1 \<le> prio_of ?s2 i"
            using picker_invD(6) [OF i1, of i] E(7) p1(1) priority_ge [OF prio_ok_nth [OF E(2), of i]]
            by (simp_all add: E(8) fun_eq_iff)
          have "picker_inv (if m_dirty ?s2 then ?s2 else if prio_of s1 i = -1 \<and> prio_of ?s2 i \<ge> 0 then picker_add rnd ?s2 i
             else if prio_of s1 i \<ge> 0 then picker_update rnd ?s2 (nat (prio_of s1 i)) (pp_index (m_piece_map ?s2 ! i)) else ?s2)"
          proof (cases "prio_of s1 i = -1")
            case True
            then have eq: "(if m_dirty ?s2 then ?s2 else if prio_of s1 i = -1 \<and> prio_of ?s2 i \<ge> 0 then picker_add rnd ?s2 i
             else if prio_of s1 i \<ge> 0 then picker_update rnd ?s2 (nat (prio_of s1 i)) (pp_index (m_piece_map ?s2 ! i)) else ?s2) =
              (if m_dirty ?s2 then ?s2 else if prio_of ?s2 i \<ge> 0 then picker_add rnd ?s2 i else ?s2)" by simp
            show ?thesis unfolding eq by (rule add_inv [OF E(1) True E(2-5) ge(2)])
          next
            case False
            then have eq: "(if m_dirty ?s2 then ?s2 else if prio_of s1 i = -1 \<and> prio_of ?s2 i \<ge> 0 then picker_add rnd ?s2 i
             else if prio_of s1 i \<ge> 0 then picker_update rnd ?s2 (nat (prio_of s1 i)) (pp_index (m_piece_map ?s2 ! i)) else ?s2) =
              (if m_dirty ?s2 then ?s2 else if prio_of s1 i \<ge> 0
               then picker_update rnd ?s2 (nat (prio_of s1 i)) (pp_index (m_piece_map ?s2 ! i)) else ?s2)" by simp
            have "prio_of ?s2 i = prio_of s1 i" if "prio_of s1 i < 0" using that False ge(1) by linarith
            from update_inv [OF E(1) this E(2-5), of rnd] show ?thesis unfolding eq by simp
          qed
          then show ?thesis using w n0 tot by simp
        qed
      qed
    qed
  qed
qed

lemma clear_peer_inv:
  assumes s: "picker_inv s"
  shows "picker_inv (clear_peer s peer)"
proof -
  note D = picker_invD [OF s]
  let ?g = "\<lambda>b. if bi_peer b = peer then b\<lparr>bi_peer := 0\<rparr> else b" and ?s = "clear_peer s peer"
  have "entry_ok (blocks_of n bpp bilp (map ?g bi) d) d = entry_ok (blocks_of n bpp bilp bi d) d"
    if l: "dp_info d + bpp \<le> length bi" "bilp \<le> bpp" for n bpp bilp bi d
  proof -
    have "blocks_of n bpp bilp (map ?g bi) d = map ?g (blocks_of n bpp bilp bi d)"
      using l nblk_le [OF l(2), of n "dp_index d"] by (auto simp: blocks_of_def)
    moreover have "count_state st (map ?g bs) = count_state st bs" for st bs
      unfolding count_state_def by (induction bs) auto
    moreover have "list_all block_wf (map ?g bs) = list_all block_wf bs" for bs
      by (induction bs) (auto simp: block_wf_def)
    ultimately show ?thesis by (simp add: entry_ok_def)
  qed
  note e = this
  have "dl_inv ?s"
    using D(3) slot_bound [of "m_blocks_per_piece s" "m_downloads s"] unfolding dl_inv_def dl_core_def clear_peer_def
    by (auto intro!: e [THEN iffD2] intro: order_trans)
  moreover have "cnt_inv ?s" using D(2) by (simp add: cnt_inv_def clear_peer_def num_pieces_def)
  moreover have "bkt_inv ?s" using D(1) by (simp add: bkt_inv_def clear_peer_def)
  ultimately show ?thesis using D(4) by (simp add: picker_inv_def clear_peer_def)
qed

end
