(* ===== verification/Picker_Rebuild.thy ===== *)
theory Picker_Rebuild
  imports Picker_Preserve
begin

text \<open>
  \<^verbatim>\<open>update_pieces\<close>, the counting sort that rebuilds \<^verbatim>\<open>m_pieces\<close> and the boundaries after
  \<^verbatim>\<open>m_dirty\<close> was set, is correct for any \<^verbatim>\<open>std::random_shuffle\<close> that permutes its range.
\<close>

subsection \<open>Counting\<close>

definition bucket :: "(nat \<Rightarrow> int) \<Rightarrow> nat \<Rightarrow> nat \<Rightarrow> nat list" where
  "bucket pf m k = filter (\<lambda>j. pf j = int k) [0..<m]"

lemma bucket_Suc: "bucket pf (Suc m) k = bucket pf m k @ (if pf m = int k then [m] else [])"
  by (simp add: bucket_def)

definition counted :: "int \<Rightarrow> piece_pos list \<Rightarrow> nat \<Rightarrow> piece_pos list \<times> nat list \<Rightarrow> bool" where
  "counted seeds pm m r \<longleftrightarrow>
     (let pf = (\<lambda>i. priority seeds (pm ! i)) in
      length (fst r) = length pm \<and> snd r \<noteq> [] \<and>
      (\<forall>k < length (snd r). snd r ! k = length (bucket pf m k)) \<and>
      (\<forall>j < m. pf j < int (length (snd r))) \<and>
      (\<forall>i < length pm. fst r ! i =
         (if i < m \<and> 0 \<le> pf i then (pm ! i)\<lparr>pp_index := length (bucket pf i (nat (pf i)))\<rparr> else pm ! i)))"

lemma up_count_counted:
  assumes c: "counted seeds pm m r" and m: "m < length pm" and pr: "pp_priority (pm ! m) \<le> 7"
  shows "counted seeds pm (Suc m) (up_count seeds r m)"
proof -
  let ?pf = "\<lambda>i. priority seeds (pm ! i)"
  obtain qm B where r: "r = (qm, B)" by (cases r)
  have l: "length qm = length pm" "B \<noteq> []" and B: "\<And>k. k < length B \<Longrightarrow> B ! k = length (bucket ?pf m k)"
    and bd: "\<And>j. j < m \<Longrightarrow> ?pf j < int (length B)"
    and q: "\<And>i. i < length pm \<Longrightarrow> qm ! i =
       (if i < m \<and> 0 \<le> ?pf i then (pm ! i)\<lparr>pp_index := length (bucket ?pf i (nat (?pf i)))\<rparr> else pm ! i)"
    using c unfolding counted_def r Let_def by auto
  have qm: "qm ! m = pm ! m" using q m by simp
  show ?thesis
  proof (cases "?pf m = -1")
    case True
    have "bucket ?pf (Suc m) k = bucket ?pf m k" for k using True by (simp add: bucket_Suc)
    moreover have "up_count seeds r m = (qm, B)" using True qm by (simp add: up_count_def r)
    ultimately show ?thesis
      using l B bd q True unfolding counted_def Let_def by (auto simp: less_Suc_eq)
  next
    case False
    then have ge: "0 \<le> ?pf m" using priority_ge [OF pr, of seeds] by simp
    define p where "p = nat (?pf m)"
    have p: "?pf m = int p" using ge by (simp add: p_def)
    define B1 where "B1 = (if ?pf m \<ge> int (length B) then vec_resize B (p + 1) 0 else B)"
    have l1: "length B1 = max (length B) (p + 1)" "p < length B1" by (auto simp: B1_def p)
    have empty: "bucket ?pf m k = []" if "length B \<le> k" for k
      using bd that by (fastforce simp: bucket_def filter_empty_conv)
    have B1: "B1 ! k = length (bucket ?pf m k)" if "k < length B1" for k
      using that B empty unfolding B1_def by (auto simp: nth_vec_resize p split: if_splits)
    have up: "up_count seeds r m = (qm[m := (qm ! m)\<lparr>pp_index := B1 ! p\<rparr>], B1[p := B1 ! p + 1])"
      using False qm unfolding up_count_def r by (simp add: Let_def B1_def p)
    show ?thesis unfolding counted_def Let_def up fst_conv snd_conv
    proof (intro conjI allI impI)
      fix k assume "k < length (B1[p := B1 ! p + 1])"
      then show "B1[p := B1 ! p + 1] ! k = length (bucket ?pf (Suc m) k)"
        using B1 by (auto simp: nth_list_update bucket_Suc p)
    next
      fix j assume "j < Suc m"
      then show "?pf j < int (length (B1[p := B1 ! p + 1]))"
        using bd [of j] l1 p by (auto simp: less_Suc_eq)
    next
      fix i assume i: "i < length pm"
      show "qm[m := (qm ! m)\<lparr>pp_index := B1 ! p\<rparr>] ! i =
        (if i < Suc m \<and> 0 \<le> ?pf i then (pm ! i)\<lparr>pp_index := length (bucket ?pf i (nat (?pf i)))\<rparr> else pm ! i)"
        using q [OF i] qm i l m ge B1 [OF l1(2)] by (auto simp: nth_list_update less_Suc_eq p_def)
    qed (use l l1 in auto)
  qed
qed

lemma up_count_fold:
  assumes "counted seeds pm 0 (pm, B)" "prio_ok pm" "m \<le> length pm"
  shows "counted seeds pm m (foldl (up_count seeds) (pm, B) [0..<m])"
  using assms(3)
proof (induction m)
  case (Suc m)
  then show ?case using up_count_counted [of seeds pm m] prio_ok_nth [OF assms(2), of m] by simp
qed (use assms in simp)

lemma up_sums_bounds: "up_sums off (map length bs) = bounds off bs"
  by (induction bs arbitrary: off) (simp_all add: add.commute)

subsection \<open>Placing\<close>

lemma fold_place:
  assumes "\<And>i. i \<in> set is \<Longrightarrow> Q i \<Longrightarrow> T ! pos i = v i" "length mp = length T"
  defines "r \<equiv> foldl (\<lambda>mp i. if Q i then mp[pos i := v i] else mp) mp is"
  shows "length r = length T"
    "\<And>p. p < length T \<Longrightarrow> (\<exists>i \<in> set is. Q i \<and> pos i = p) \<Longrightarrow> r ! p = T ! p"
proof -
  have "length r = length T \<and> (\<forall>p < length T. (\<exists>i \<in> set is. Q i \<and> pos i = p) \<longrightarrow> r ! p = T ! p)"
    using assms(1) unfolding r_def
  proof (induction "is" rule: rev_induct)
    case (snoc a "is")
    let ?r = "foldl (\<lambda>mp i. if Q i then mp[pos i := v i] else mp) mp is"
    have IH: "length ?r = length T" "\<And>p. p < length T \<Longrightarrow> \<exists>i \<in> set is. Q i \<and> pos i = p \<Longrightarrow> ?r ! p = T ! p"
      using snoc by auto
    have "(if Q a then ?r[pos a := v a] else ?r) ! p = T ! p"
      if p: "p < length T" "\<exists>i \<in> set (is @ [a]). Q i \<and> pos i = p" for p
    proof (cases "Q a \<and> pos a = p")
      case True
      then show ?thesis using IH(1) p(1) snoc.prems [of a] by simp
    next
      case False
      then have "\<exists>i \<in> set is. Q i \<and> pos i = p" using p(2) by auto
      then show ?thesis using IH(2) [OF p(1)] False by auto
    qed
    then show ?case using IH(1) by simp
  qed (simp add: assms(2))
  then show "length r = length T"
    "\<And>p. p < length T \<Longrightarrow> (\<exists>i \<in> set is. Q i \<and> pos i = p) \<Longrightarrow> r ! p = T ! p" by auto
qed

lemma concat_nth_take:
  "k < length bs \<Longrightarrow> r < length (bs ! k) \<Longrightarrow> concat bs ! (length (concat (take k bs)) + r) = bs ! k ! r"
  "k < length bs \<Longrightarrow> r < length (bs ! k) \<Longrightarrow> length (concat (take k bs)) + r < length (concat bs)"
proof -
  assume k: "k < length bs" "r < length (bs ! k)"
  have c: "concat bs = concat (take k bs) @ bs ! k @ concat (drop (Suc k) bs)"
    using id_take_nth_drop [OF k(1)] by (metis concat.simps(2) concat_append)
  show "concat bs ! (length (concat (take k bs)) + r) = bs ! k ! r"
    using k(2) by (subst c) (simp add: nth_append)
  show "length (concat (take k bs)) + r < length (concat bs)" using k(2) by (subst c) simp
qed

lemma bucket_nth:
  assumes "i < n" "pf i = int k"
  shows "length (bucket pf i k) < length (bucket pf n k)" "bucket pf n k ! length (bucket pf i k) = i"
proof -
  have "[0..<n] = [0..<i] @ [i..<n]" using assms(1) upt_add_eq_append [of 0 i "n - i"] by simp
  then have "[0..<n] = [0..<i] @ i # [Suc i..<n]" using assms(1) by (simp add: upt_conv_Cons)
  then have "bucket pf n k = bucket pf i k @ i # filter (\<lambda>j. pf j = int k) [Suc i..<n]"
    using assms(2) by (simp add: bucket_def)
  then show "length (bucket pf i k) < length (bucket pf n k)" "bucket pf n k ! length (bucket pf i k) = i" by simp_all
qed

subsection \<open>Shuffling and positions\<close>

lemma up_shuffle_buckets:
  assumes "\<And>st xs. mset (shuf st xs) = mset xs"
  shows "\<exists>cs. up_shuffle shuf (length P) (bounds (length P) bs) (P @ concat bs) = P @ concat cs \<and>
    list_all2 (\<lambda>a b. mset a = mset b) bs cs"
proof (induction bs arbitrary: P)
  case (Cons b bs)
  show ?case
  proof (cases "b = []")
    case True
    obtain cs where "up_shuffle shuf (length P) (bounds (length P) bs) (P @ concat bs) = P @ concat cs"
      "list_all2 (\<lambda>a b. mset a = mset b) bs cs" using Cons.IH [of P] by blast
    then show ?thesis using True by (intro exI [of _ "[] # cs"]) simp
  next
    case False
    let ?b = "shuf (length P) b"
    have lb: "length ?b = length b" using assms by (metis size_mset)
    have "up_shuffle shuf (length P) (bounds (length P) (b # bs)) (P @ concat (b # bs)) =
      up_shuffle shuf (length (P @ ?b)) (bounds (length (P @ ?b)) bs) ((P @ ?b) @ concat bs)"
      using False lb by simp
    moreover obtain cs where "up_shuffle shuf (length (P @ ?b)) (bounds (length (P @ ?b)) bs) ((P @ ?b) @ concat bs)
      = (P @ ?b) @ concat cs" "list_all2 (\<lambda>a b. mset a = mset b) bs cs"
      using Cons.IH [of "P @ ?b"] by blast
    ultimately have "up_shuffle shuf (length P) (bounds (length P) (b # bs)) (P @ concat (b # bs)) = P @ concat (?b # cs)"
      "list_all2 (\<lambda>a b. mset a = mset b) (b # bs) (?b # cs)" using assms by simp_all
    then show ?thesis by blast
  qed
qed simp

lemma up_index_idx:
  assumes "distinct xs" "in_map pm xs"
  shows "idx_at (up_index off xs pm) xs off" "reindexed pm (up_index off xs pm) (set xs)"
proof -
  have "idx_at (up_index off xs pm) xs off \<and> reindexed pm (up_index off xs pm) (set xs)"
    using assms
  proof (induction xs arbitrary: off pm)
    case (Cons x xs)
    let ?pm = "set_index pm x off"
    have x: "x \<notin> set xs" "0 \<le> x" "nat x < length pm" "in_map ?pm xs" using Cons.prems by simp_all
    have IH: "idx_at (up_index (Suc off) xs ?pm) xs (Suc off)" "reindexed ?pm (up_index (Suc off) xs ?pm) (set xs)"
      using Cons.IH [of ?pm] Cons.prems x by auto
    have "int (nat x) \<notin> set xs" using x by simp
    then have "up_index (Suc off) xs ?pm ! nat x = ?pm ! nat x" using IH(2) x(3) unfolding reindexed_def by simp
    then have "pp_index (up_index (Suc off) xs ?pm ! nat x) = off" using x by (simp add: nth_set_index)
    moreover have "reindexed pm (up_index (Suc off) xs ?pm) (set (x # xs))"
    proof (rule reindexed_trans)
      show "reindexed pm ?pm (set (x # xs))" using x(2) by (intro reindexed_set_index) simp_all
      show "reindexed ?pm (up_index (Suc off) xs ?pm) (set (x # xs))" by (rule reindexed_mono [OF IH(2)]) auto
    qed
    ultimately show ?case using IH(1) by simp
  qed simp
  then show "idx_at (up_index off xs pm) xs off" "reindexed pm (up_index off xs pm) (set xs)" by auto
qed

subsection \<open>The rebuilt state\<close>

lemma up_place_concat:
  assumes k: "prio_ok pm" and c: "counted seeds pm (length pm) (qm, B)" and len: "length mp = sum_list B"
  defines "pf \<equiv> \<lambda>i. priority seeds (pm ! i)"
  defines "bs \<equiv> map (\<lambda>k. map int (bucket pf (length pm) k)) [0..<length B]"
  shows "up_sums 0 B = bounds 0 bs" "foldl (up_place seeds qm (up_sums 0 B)) mp [0..<length pm] = concat bs"
    "bkts_ok pf 0 bs" "distinct (concat bs)" "in_map pm (concat bs)"
    "\<And>i. i < length pm \<Longrightarrow> 0 \<le> pf i \<Longrightarrow> int i \<in> set (concat bs)" "bs \<noteq> []"
    "pm_view qm = pm_view pm"
proof -
  let ?n = "length pm"
  have l: "length qm = ?n" "B \<noteq> []" and Bk: "\<And>k. k < length B \<Longrightarrow> B ! k = length (bucket pf ?n k)"
    and bd: "\<And>j. j < ?n \<Longrightarrow> pf j < int (length B)"
    and q: "\<And>i. i < ?n \<Longrightarrow> qm ! i = (if 0 \<le> pf i then (pm ! i)\<lparr>pp_index := length (bucket pf i (nat (pf i)))\<rparr> else pm ! i)"
    using c unfolding counted_def Let_def pf_def by auto
  have ge: "-1 \<le> pf i" if "i < ?n" for i unfolding pf_def by (rule priority_ge [OF prio_ok_nth [OF k that]])
  have lb: "map length bs = B" unfolding bs_def by (intro nth_equalityI) (simp_all add: Bk)
  show sums: "up_sums 0 B = bounds 0 bs" using up_sums_bounds [of 0 bs] lb by simp
  show "bs \<noteq> []" using l(2) by (simp add: bs_def)
  have v: "pos_view (qm ! i) = pos_view (pm ! i)" if i: "i < ?n" for i
  proof (cases "0 \<le> pf i")
    case True
    have "length (bucket pf i (nat (pf i))) \<le> i" unfolding bucket_def by (metis diff_zero length_filter_le length_upt)
    then have "length (bucket pf i (nat (pf i))) \<noteq> we_have_index" using i k by (simp add: prio_ok_def)
    moreover have "\<not> pp_have (pm ! i)" using True unfolding pf_def by (rule priority_have)
    ultimately show ?thesis using True q [OF i] by (simp add: pos_view_def pp_have_def)
  next
    case False
    then show ?thesis using q [OF i] by simp
  qed
  then show "pm_view qm = pm_view pm" unfolding pm_view_def by (intro nth_equalityI) (simp_all add: l)
  have pq: "priority seeds (qm ! i) = pf i" if "i < ?n" for i using v [OF that] unfolding pf_def by (metis pos_view_simps(8))
  have nb: "bs ! k = map int (bucket pf ?n k)" if "k < length bs" for k using that by (simp add: bs_def)
  have lbs: "length bs = length B" by (simp add: bs_def)
  have mem: "x \<in> set (concat bs) \<longleftrightarrow> (\<exists>i < ?n. x = int i \<and> 0 \<le> pf i)" for x
    using bd unfolding bs_def bucket_def by (auto simp: nat_less_iff intro!: bexI [of _ "nat _"])
  show "in_map pm (concat bs)" unfolding in_map_def
  proof
    fix x assume "x \<in> set (concat bs)"
    then obtain i where "i < ?n" "x = int i" using mem by blast
    then show "0 \<le> x \<and> nat x < ?n" by simp
  qed
  show "int i \<in> set (concat bs)" if "i < ?n" "0 \<le> pf i" for i using that unfolding mem by blast
  show ok: "bkts_ok pf 0 bs"
  proof -
    have "bkts_ok pf m (map (\<lambda>k. map int (bucket pf ?n k)) [m..<m + d])" for m d
    proof (induction d arbitrary: m)
      case (Suc d)
      have "[m..<m + Suc d] = m # [Suc m..<Suc m + d]" by (simp add: upt_conv_Cons)
      then show ?case using Suc.IH [of "Suc m"] by (simp add: bucket_def)
    qed simp
    from this [of 0 "length B"] show ?thesis by (simp add: bs_def)
  qed
  show dist: "distinct (concat bs)"
  proof -
    have "distinct (concat (map (\<lambda>k. map int (bucket pf ?n k)) [0..<d]))" for d
      by (induction d) (auto simp: bucket_def distinct_map)
    then show ?thesis by (simp add: bs_def)
  qed
  define pos where "pos i = (if pf i = 0 then 0 else bounds 0 bs ! (nat (pf i) - 1)) + pp_index (qm ! i)" for i
  have pos: "pos i < length (concat bs)" "concat bs ! pos i = int i" if i: "i < ?n" "pf i \<noteq> -1" for i
  proof -
    define k where "k = nat (pf i)"
    have k: "pf i = int k" "k < length bs" using i ge [OF i(1)] bd [OF i(1)] by (simp_all add: k_def lbs)
    have "(if pf i = 0 then 0 else bounds 0 bs ! (nat (pf i) - 1)) = length (concat (take k bs))"
      unfolding k(1) nat_int using k(2) by (cases k) (simp_all only: of_nat_0 if_True nth_bounds, simp_all add: nth_bounds)
    then have p: "pos i = length (concat (take k bs)) + length (bucket pf i k)"
      using q [OF i(1)] k by (simp add: pos_def)
    note bn = bucket_nth [of i ?n pf k, OF i(1) k(1)]
    have "length (bucket pf i k) < length (bs ! k)" "bs ! k ! length (bucket pf i k) = int i"
      using bn nb [OF k(2)] by simp_all
    with concat_nth_take [OF k(2)] show "pos i < length (concat bs)" "concat bs ! pos i = int i" by (simp_all add: p)
  qed
  have lenT: "length mp = length (concat bs)" using len lb by (simp add: length_concat)
  let ?f = "foldl (\<lambda>mp i. if pf i \<noteq> -1 then mp[pos i := int i] else mp) mp [0..<?n]"
  have "foldl (up_place seeds qm (up_sums 0 B)) mp [0..<?n] = ?f"
    unfolding sums by (rule foldl_cong) (simp_all add: up_place_def pq pos_def Let_def)
  moreover have "?f = concat bs"
  proof (rule nth_equalityI)
    note F = fold_place [of "[0..<?n]" "\<lambda>i. pf i \<noteq> -1" "concat bs" pos int mp, OF _ lenT]
    show le: "length ?f = length (concat bs)" by (rule F(1)) (use pos in auto)
    fix p assume "p < length ?f"
    then have p: "p < length (concat bs)" using le by simp
    then obtain i where i: "i < ?n" "concat bs ! p = int i" "0 \<le> pf i" using mem nth_mem [OF p] by metis
    then have "pos i = p" using pos [of i] p dist by (metis nth_eq_iff_index_eq neg_0_le_iff_le not_one_le_zero)
    then show "?f ! p = concat bs ! p" using i p pos by (intro F(2)) force+
  qed
  ultimately show "foldl (up_place seeds qm (up_sums 0 B)) mp [0..<?n] = concat bs" by simp
qed

lemma bkts_ok_mset:
  "list_all2 (\<lambda>a b. mset a = mset b) bs cs \<Longrightarrow> bkts_ok pf k bs \<Longrightarrow> bkts_ok pf k cs"
proof (induction bs cs arbitrary: k rule: list_all2_induct)
  case (Cons b bs c cs)
  then have "set b = set c" by (auto dest: mset_eq_setD)
  with Cons show ?case by simp
qed simp

lemma buckets_mset:
  assumes "list_all2 (\<lambda>a b. mset a = mset b) bs cs"
  shows "mset (concat bs) = mset (concat cs)" "bounds off bs = bounds off cs"
proof -
  show "mset (concat bs) = mset (concat cs)" using assms by (induction rule: list_all2_induct) simp_all
  have "map length bs = map length cs" using assms by (induction rule: list_all2_induct) (auto dest: mset_eq_length)
  then show "bounds off bs = bounds off cs" by (rule bounds_cong_length)
qed

lemma last_up_sums: "B \<noteq> [] \<Longrightarrow> last (up_sums off B) = off + sum_list B"
proof (induction B arbitrary: off)
  case (Cons b B)
  then show ?case by (cases B) simp_all
qed simp

lemma update_pieces_bucketed:
  assumes k: "prio_ok (m_piece_map s)" and sh: "\<And>st xs. mset (shuf st xs) = mset xs"
  defines "s' \<equiv> update_pieces shuf s"
  shows "moved (s\<lparr>m_dirty := False\<rparr>) s'"
    "bucketed (prio_of s') (m_piece_map s') (m_pieces s') (m_priority_boundries s')"
proof -
  let ?pm = "m_piece_map s" and ?sd = "m_seeds s"
  let ?B0 = "if m_priority_boundries s = [] then vec_resize [] 1 0 else m_priority_boundries s"
  obtain qm B where r: "foldl (up_count ?sd) (?pm, map (\<lambda>_. 0) ?B0) [0..<length ?pm] = (qm, B)" by fastforce
  have "counted ?sd ?pm 0 (?pm, map (\<lambda>_. 0) ?B0)" by (auto simp: counted_def bucket_def vec_resize_def)
  from up_count_fold [OF this k order_refl] have c: "counted ?sd ?pm (length ?pm) (qm, B)" unfolding r .
  have lq: "length qm = length ?pm" "B \<noteq> []" using c by (simp_all add: counted_def Let_def)
  let ?mp0 = "vec_resize (m_pieces s) (if up_sums 0 B = [] then 0 else last (up_sums 0 B)) 0"
  have "up_sums 0 B \<noteq> []" using lq(2) by (cases B) simp_all
  then have l0: "length ?mp0 = sum_list B" using last_up_sums [OF lq(2), of 0] by simp
  define bs where "bs = map (\<lambda>k. map int (bucket (prio_of s) (length ?pm) k)) [0..<length B]"
  note P = up_place_concat [OF k c l0, folded bs_def]
  obtain cs where cs: "up_shuffle shuf 0 (bounds 0 bs) (concat bs) = concat cs" "list_all2 (\<lambda>a b. mset a = mset b) bs cs"
    using up_shuffle_buckets [of shuf "[]" bs, OF sh] by auto
  have s': "s' = s\<lparr>m_pieces := concat cs, m_piece_map := up_index 0 (concat cs) qm,
      m_priority_boundries := bounds 0 cs, m_dirty := False\<rparr>"
    unfolding s'_def update_pieces_def r Let_def prod.case lq(1) P(2) unfolding P(1) cs(1)
    using buckets_mset(2) [OF cs(2), of 0] by simp
  have ms: "mset (concat bs) = mset (concat cs)" by (rule buckets_mset(1) [OF cs(2)])
  have sets: "set (concat cs) = set (concat bs)" using ms by (metis mset_eq_setD)
  have d: "distinct (concat cs)" using P(4) mset_eq_imp_distinct_iff [OF ms] by blast
  have im: "in_map ?pm (concat cs)" "in_map qm (concat cs)" using P(5) lq(1) by (simp_all only: in_map_def sets)
  let ?pm' = "up_index 0 (concat cs) qm"
  note U = up_index_idx [OF d im(2), of 0]
  have lp: "length ?pm' = length ?pm" using reindexed_length [OF U(2)] lq(1) by simp
  have b: "bucketed (prio_of s) ?pm' (concat cs) (bounds 0 cs)"
  proof (rule bucketedI)
    show "cs \<noteq> []" using P(7) cs(2) by auto
    show "bkts_ok (prio_of s) 0 cs" by (rule bkts_ok_mset [OF cs(2) P(3)])
    show "in_map ?pm' (concat cs)" using im(1) lp by (simp add: in_map_def)
    show "int i \<in> set (concat cs)" if "i < length ?pm'" "0 \<le> prio_of s i" for i
      using P(6) [of i] that lp unfolding sets by simp
  qed (rule d U(1))+
  have "pos_view (?pm' ! i) = pos_view (?pm ! i)" if i: "i < length ?pm" for i
  proof -
    have "pos_view (?pm' ! i) = pos_view (qm ! i)"
    proof (cases "int i \<in> set (concat cs)")
      case True
      have "pp_index (?pm' ! i) < length (concat cs)" using bucketed_index(1) [OF b True] by simp
      then have "pp_index (?pm' ! i) \<noteq> we_have_index" using bucketed_length [OF b] lp k by (simp add: prio_ok_def)
      moreover have "\<not> pp_have (?pm ! i)" using bucketed_mem [OF b, of i] True i lp priority_have by simp
      then have "\<not> pp_have (qm ! i)" using flags_pm_view(1) [OF P(8) i] by simp
      moreover have eq: "?pm' ! i = (qm ! i)\<lparr>pp_index := pp_index (?pm' ! i)\<rparr>"
        using U(2) i lq(1) unfolding reindexed_def by auto
      moreover have "pos_view (?pm' ! i) = (?pm' ! i)\<lparr>pp_index := 0\<rparr>" "pos_view (qm ! i) = (qm ! i)\<lparr>pp_index := 0\<rparr>"
        using calculation(1,2) by (simp_all add: pos_view_def pp_have_def)
      moreover have "(?pm' ! i)\<lparr>pp_index := 0\<rparr> = (qm ! i)\<lparr>pp_index := 0\<rparr>" by (subst eq) simp
      ultimately show ?thesis by simp
    next
      case False
      then show ?thesis using U(2) i lq(1) unfolding reindexed_def by simp
    qed
    also have "\<dots> = pos_view (?pm ! i)" by (rule pm_view_nth [OF P(8) i])
    finally show ?thesis .
  qed
  then have v: "pm_view ?pm' = pm_view ?pm" unfolding pm_view_def by (intro nth_equalityI) (simp_all add: lp)
  show "moved (s\<lparr>m_dirty := False\<rparr>) s'" using v by (simp add: moved_def s')
  have "bucketed (prio_of s') ?pm' (concat cs) (bounds 0 cs)"
    using priority_pm_view [OF v] lp by (intro bucketed_cong [OF b]) (simp add: s')
  then show "bucketed (prio_of s') (m_piece_map s') (m_pieces s') (m_priority_boundries s')" by (simp add: s')
qed

lemma update_pieces_inv:
  assumes s: "picker_inv s" and sh: "\<And>st xs. mset (shuf st xs) = mset xs"
  shows "picker_inv (update_pieces shuf s)" "\<not> m_dirty (update_pieces shuf s)"
proof -
  note D = picker_invD [OF s]
  note U = update_pieces_bucketed [OF D(5) sh]
  have "picker_inv (update_pieces shuf s)"
    using moved_inv [OF U(1) _ _ _ _ U(2)] D by simp
  then show "picker_inv (update_pieces shuf s)" .
  show "\<not> m_dirty (update_pieces shuf s)" using moved_fields(12) [OF U(1)] by simp
qed

end
