(* ===== verification/Picker_State.thy ===== *)
theory Picker_State
  imports Picker_Abort Picker_Rebuild
begin

text \<open>
  The piece picker as a state machine. \<open>picker_inv\<close>, which every operation preserves, implies
  the assertions of \<^verbatim>\<open>check_invariant\<close>; \<^verbatim>\<open>init\<close> establishes it; \<open>picker_step\<close> has one rule for
  each public operation that changes the picker, guarded by what the operation itself asserts
  of its arguments.
\<close>

subsection \<open>The asserted invariant follows\<close>

lemma mod_4_add: "(a * 4 + 4 - q) mod 4 = 0 \<longleftrightarrow> q mod 4 = (0::int)"
  by presburger

lemma priority_mod:
  assumes "pp_priority p \<le> 7" "priority seeds p \<noteq> -1"
  shows "pp_downloading p \<longleftrightarrow> priority seeds p mod 4 = 0"
proof -
  have nf: "\<not> (pp_filtered p \<or> pp_have p \<or> uint (pp_peer_count p) + seeds = 0)"
    using assms(2) unfolding priority_def by (rule contrapos_nn) simp
  then have nz: "pp_priority p \<noteq> 0" by (simp add: pp_filtered_def)
  define q where "q = (if pp_priority p \<ge> 4 then int (pp_priority p) - 3 else int (pp_priority p))"
  define a where "a = (if pp_priority p \<ge> 4 then uint (pp_peer_count p) div 2 else uint (pp_peer_count p))"
  have eq: "priority seeds p = (if pp_priority p = 7 then 1 - of_bool (pp_downloading p)
      else if pp_downloading p then a * 4 else a * 4 + 4 - q)"
    using nf by (simp add: priority_def Let_def q_def a_def)
  have "q mod 4 \<noteq> 0" if "pp_priority p \<noteq> 7"
    using that assms(1) nz unfolding q_def by (auto simp: mod_pos_pos_trivial)
  then show ?thesis unfolding eq using mod_4_add [of a q] by auto
qed

lemma verify_buckets_bounds:
  assumes "bkts_ok (prio_of s) k bs" "m_pieces s = xs @ concat bs"
    "\<forall>x \<in> set (concat bs). 0 \<le> x \<and> nat x < length (m_piece_map s)"
  shows "verify_buckets s (length xs) (int k) (bounds (length xs) bs)"
  using assms
proof (induction bs arbitrary: k xs)
  case (Cons b bs)
  have "verify_buckets s (length (xs @ b)) (int (Suc k)) (bounds (length (xs @ b)) bs)"
    using Cons.prems by (intro Cons.IH) auto
  moreover have "verify_priority s (length xs) (length xs + length b) (int k)"
    using Cons.prems(1,2,3) by (simp add: verify_priority_def list_all_iff) (metis UnI1 nat_less_iff)
  ultimately show ?case by (simp add: add.commute)
qed simp

lemma check_download_entry:
  assumes "entry_ok (dl_blocks s d) d"
  shows "check_download s d"
proof -
  have "block_ok b" if "block_wf b" for b
    using that unfolding block_ok_def block_wf_def by (metis block_state.distinct word_neq_0_conv)
  then show ?thesis using assms unfolding check_download_def entry_ok_def list_all_iff by auto
qed

lemma cursors_apart:
  assumes "cnt_inv s"
  shows "m_cursor s \<le> num_pieces s \<and> m_reverse_cursor s \<le> num_pieces s \<and>
    (m_reverse_cursor s > m_cursor s \<or> m_cursor s = num_pieces s \<and> m_reverse_cursor s = 0)"
proof -
  let ?pm = "m_piece_map s" and ?c = "m_cursor s" and ?r = "m_reverse_cursor s"
  have c: "?c \<le> length ?pm" "\<forall>j. j < ?c \<longrightarrow> unwanted (?pm ! j)" "?c < length ?pm \<longrightarrow> \<not> unwanted (?pm ! ?c)"
    using assms cursor_forward_iff [of 0 ?pm ?c] by (auto simp: cnt_inv_def)
  have r: "?r \<le> length ?pm" "\<forall>j. ?r \<le> j \<and> j < length ?pm \<longrightarrow> unwanted (?pm ! j)"
    "0 < ?r \<longrightarrow> \<not> unwanted (?pm ! (?r - 1))"
    using assms cursor_backward_iff [of "length ?pm" ?pm ?r] by (auto simp: cnt_inv_def num_pieces_def)
  show ?thesis
  proof (cases "?c < length ?pm")
    case True
    then have "?c < ?r" using c(3) r(2) by (meson not_less)
    then show ?thesis using c r by (simp add: num_pieces_def)
  next
    case False
    then have "?r = 0" using c(1,2) r(1,3) by (metis diff_less le_less_trans less_one not_gr_zero order_le_less_trans
          le_antisym not_less nat_less_le diff_le_self)
    then show ?thesis using False c by (simp add: num_pieces_def)
  qed
qed

lemma length_filter_distinct:
  "distinct xs \<Longrightarrow> length (filter ((=) x) xs) = (if x \<in> set xs then 1 else 0)"
  by (induction xs) auto

lemma check_piece_inv:
  assumes s: "picker_inv s" and i: "i < num_pieces s"
  shows "check_piece s i"
proof -
  let ?p = "m_piece_map s ! i"
  have i': "i < length (m_piece_map s)" using i by (simp add: num_pieces_def)
  have dl: "dl_inv s" and bk: "bkt_inv s" and ge: "-1 \<le> prio_of s i"
    using picker_invD [OF s] i' by blast+
  have le: "pp_priority ?p \<le> 7" using picker_invD(5) [OF s] i' by (rule prio_ok_nth)
  have fl: "pp_have ?p \<longrightarrow> \<not> pp_downloading ?p" "pp_downloading ?p \<longleftrightarrow> i \<in> dp_index ` set (m_downloads s)"
    using dl i' unfolding dl_inv_def flags_ok_def by blast+
  have dist: "distinct (map dp_index (m_downloads s))"
    using dl unfolding dl_inv_def dl_core_def by (simp only: strict_sorted_iff)
  have cnt: "length (filter (\<lambda>d. dp_index d = i) (m_downloads s)) = (if pp_downloading ?p then 1 else 0)"
  proof -
    have "length (filter (\<lambda>d. dp_index d = i) (m_downloads s)) = length (filter ((=) i) (map dp_index (m_downloads s)))"
      by (simp add: filter_map comp_def eq_commute)
    also have "\<dots> = (if pp_downloading ?p then 1 else 0)"
      using length_filter_distinct [OF dist] fl(2) by simp
    finally show ?thesis .
  qed
  have bkt: "prio_of s i < int (length (m_priority_boundries s)) \<and>
      (if prio_of s i \<ge> 0 then pp_index ?p < length (m_pieces s) \<and> m_pieces s ! pp_index ?p = int i
       else prio_of s i = -1 \<and> int i \<notin> set (m_pieces s))" if nd: "\<not> m_dirty s"
  proof -
    have b: "bucketed (prio_of s) (m_piece_map s) (m_pieces s) (m_priority_boundries s)"
      using bk nd unfolding bkt_inv_def by blast
    then obtain bs where bs: "m_priority_boundries s = bounds 0 bs" "bkts_ok (prio_of s) 0 bs" "m_pieces s = concat bs"
      unfolding bucketed_def by blast
    have "prio_of s i < int (length bs)" if "int i \<in> set (m_pieces s)"
      using bkts_ok_nonneg [OF bs(2), of "int i"] that bs(3) by simp
    moreover have "bs \<noteq> []" using b bs(1) by (metis bounds_Nil_iff bucketed_def)
    ultimately show ?thesis
      using bucketed_mem [OF b i'] bucketed_index [OF b, of "int i"] ge bs(1) by auto
  qed
  have md: "prio_of s i = -1 \<or> pp_downloading ?p = (prio_of s i mod 4 = 0)" by (rule disjCI, rule ccontr) (use priority_mod [OF le, of "m_seeds s"] in simp)
  show ?thesis unfolding check_piece_def Let_def by (intro conjI fl(1) md cnt impI bkt [THEN conjunct1] bkt [THEN conjunct2])
qed

lemma picker_inv_check_state:
  assumes s: "picker_inv s"
  shows "check_state s"
proof -
  have c: "cnt_inv s" and d: "dl_inv s" and m: "0 \<le> m_seeds s" using picker_invD [OF s] by blast+
  have dls: "sorted_wrt (<) (map dp_index (m_downloads s))" "list_all (check_download s) (m_downloads s)"
    using d check_download_entry unfolding dl_inv_def dl_core_def list_all_iff by (auto simp: dl_blocks_of)
  have bkt: "m_priority_boundries s \<noteq> [] \<and> verify_buckets s 0 0 (m_priority_boundries s) \<and>
      last (m_priority_boundries s) = length (m_pieces s) \<and> list_all (\<lambda>i. prio_of s (nat i) \<ge> 0) (m_pieces s)"
    if nd: "\<not> m_dirty s"
  proof -
    have b: "bucketed (prio_of s) (m_piece_map s) (m_pieces s) (m_priority_boundries s)"
      using picker_invD(1) [OF s] nd unfolding bkt_inv_def by blast
    then obtain bs where bs: "bs \<noteq> []" "m_pieces s = concat bs" "m_priority_boundries s = bounds 0 bs"
        "bkts_ok (prio_of s) 0 bs" and im: "in_map (m_piece_map s) (m_pieces s)"
      unfolding bucketed_def by blast
    have "verify_buckets s 0 0 (bounds 0 bs)"
      using verify_buckets_bounds [OF bs(4), of "[]"] bs(2) im by (simp add: in_map_def)
    moreover have "\<forall>x \<in> set (m_pieces s). 0 \<le> prio_of s (nat x)"
      using bkts_ok_nonneg [OF bs(4)] bs(2) by force
    ultimately show ?thesis using bs by (simp add: last_bounds list_all_iff)
  qed
  have "list_all (check_piece s) [0..<num_pieces s]" using check_piece_inv [OF s] by (simp add: list_all_iff)
  then show ?thesis
    unfolding check_state_def using c m dls bkt cursors_apart [OF c] by (auto simp: cnt_inv_def)
qed

subsection \<open>The initial state\<close>

lemma picker_init_inv:
  assumes s: "picker_inv s \<or> s = piece_picker_init" and n: "length (m_piece_map s) \<le> n" "n < we_have_index"
    and b: "0 < bpp" "bilp \<le> bpp"
  shows "picker_inv (picker_init s bpp bilp n)" "num_pieces (picker_init s bpp bilp n) = n"
proof -
  define pm where "pm = map (\<lambda>p. p\<lparr>pp_peer_count := 0, pp_downloading := False, pp_index := 0\<rparr>)
     (vec_resize (m_piece_map s) n (piece_pos_init 0 0))"
  let ?t = "picker_init s bpp bilp n"
  have t: "m_piece_map ?t = pm" "m_downloads ?t = []" "m_dirty ?t" "m_seeds ?t = m_seeds s"
    "m_blocks_per_piece ?t = bpp" "m_blocks_in_last_piece ?t \<le> bpp" "m_num_have ?t = 0" "m_num_have_filtered ?t = 0"
    "m_num_filtered ?t = m_num_filtered s + m_num_have_filtered s" "length pm = n"
    "m_cursor ?t = cursor_forward pm 0" "m_reverse_cursor ?t = cursor_backward pm n"
    using b by (simp_all add: picker_init_def Let_def pm_def)
  show np: "num_pieces ?t = n" by (simp add: num_pieces_def t)
  have nh: "\<forall>p \<in> set pm. \<not> pp_have p \<and> \<not> pp_downloading p" by (auto simp: pm_def pp_have_def we_have_index_def)
  have old: "prio_ok (m_piece_map s)" "0 \<le> m_seeds s" "m_num_filtered s + m_num_have_filtered s =
      int (length (filter pp_filtered (m_piece_map s)))"
  proof -
    have "length (filter pp_filtered xs) =
        length (filter (\<lambda>p. pp_filtered p \<and> \<not> pp_have p) xs) + length (filter (\<lambda>p. pp_filtered p \<and> pp_have p) xs)" for xs
      by (induction xs) auto
    then show "prio_ok (m_piece_map s)" "0 \<le> m_seeds s" "m_num_filtered s + m_num_have_filtered s =
      int (length (filter pp_filtered (m_piece_map s)))"
      using s by (auto simp: picker_inv_def bkt_inv_def cnt_inv_def piece_picker_init_def prio_ok_def)
  qed
  have ok: "prio_ok pm"
    using old(1) n t(10) by (auto simp: prio_ok_def pm_def vec_resize_def piece_pos_init_def dest!: in_set_takeD)
  have fl: "length (filter pp_filtered pm) = length (filter pp_filtered (m_piece_map s))"
    using n(1) by (simp add: pm_def vec_resize_grow filter_map comp_def pp_filtered_def [abs_def] piece_pos_init_def)
  have "bkt_inv ?t" by (simp add: bkt_inv_def t ok)
  moreover have "cnt_inv ?t"
    using nh fl old(3) np by (simp add: cnt_inv_def t filter_empty_conv cong: filter_cong)
  moreover have "dl_inv ?t"
    using nh b t(5,6) by (simp add: dl_inv_def dl_core_def flags_ok_def slots_ok_def t)
  ultimately show "picker_inv ?t" using old(2) t(4) by (simp add: picker_inv_def)
qed


subsection \<open>The state machine\<close>

abbreviation valid_block :: "piece_picker \<Rightarrow> piece_block \<Rightarrow> bool" where
  "valid_block s b \<equiv> piece_index b < num_pieces s \<and> block_index b < blocks_in_piece s (piece_index b)"

inductive picker_step :: "piece_picker \<Rightarrow> piece_picker \<Rightarrow> bool" where
  step_inc_all: "picker_step s (inc_refcount_all s)"
| step_dec_all: "picker_step s (dec_refcount_all s)"
| step_inc: "i < num_pieces s \<Longrightarrow> picker_step s (inc_refcount rnd s i)"
| step_dec: "i < num_pieces s \<Longrightarrow> 0 < pp_peer_count (m_piece_map s ! i) \<Longrightarrow> picker_step s (dec_refcount rnd s i)"
| step_inc_mask: "inc_refcount_mask s bits = Some t \<Longrightarrow> picker_step s t"
| step_dec_mask: "dec_refcount_mask s bits = Some t \<Longrightarrow> picker_step s t"
| step_update: "(\<And>st xs. mset (shuf st xs) = mset xs) \<Longrightarrow> picker_step s (update_pieces shuf s)"
| step_have: "i < num_pieces s \<Longrightarrow> we_have s i = Some t \<Longrightarrow> picker_step s t"
| step_dont_have: "i < num_pieces s \<Longrightarrow> picker_step s (we_dont_have rnd s i)"
| step_priority: "i < num_pieces s \<Longrightarrow> v \<le> 7 \<Longrightarrow> picker_step s (fst (set_piece_priority rnd s i v))"
| step_restore: "i < num_pieces s \<Longrightarrow> pp_downloading (m_piece_map s ! i) \<Longrightarrow> restore_piece rnd s i = Some t \<Longrightarrow>
    picker_step s t"
| step_downloading: "valid_block s b \<Longrightarrow> \<not> have_piece s (piece_index b) \<Longrightarrow> state \<noteq> none \<Longrightarrow>
    num_peers s b \<noteq> Some (2 ^ 14 - 1) \<Longrightarrow> mark_as_downloading rnd s b peer state = Some (t, r) \<Longrightarrow> picker_step s t"
| step_writing: "valid_block s b \<Longrightarrow> mark_as_writing rnd s b peer = Some (t, r) \<Longrightarrow> picker_step s t"
| step_finished: "valid_block s b \<Longrightarrow> is_requested s b = Some False \<Longrightarrow> mark_as_finished rnd s b peer = Some t \<Longrightarrow>
    picker_step s t"
| step_failed: "valid_block s b \<Longrightarrow> is_requested s b = Some False \<Longrightarrow> picker_step s (write_failed rnd s b)"
| step_abort: "valid_block s b \<Longrightarrow> abort_download rnd s b peer = Some t \<Longrightarrow> picker_step s t"
| step_clear_peer: "picker_step s (clear_peer s peer)"
| step_init: "num_pieces s \<le> n \<Longrightarrow> n < we_have_index \<Longrightarrow> 0 < bpp \<Longrightarrow> bilp \<le> bpp \<Longrightarrow>
    picker_step s (picker_init s bpp bilp n)"

inductive picker_reachable :: "piece_picker \<Rightarrow> bool" where
  reach_init: "n < we_have_index \<Longrightarrow> 0 < bpp \<Longrightarrow> bilp \<le> bpp \<Longrightarrow>
    picker_reachable (picker_init piece_picker_init bpp bilp n)"
| reach_step: "picker_reachable s \<Longrightarrow> picker_step s t \<Longrightarrow> picker_reachable t"

lemma block_eta [simp]: "\<lparr>piece_index = piece_index b, block_index = block_index b\<rparr> = (b :: piece_block)"
  by simp

text \<open>The guard on the number of peers, in the form of the preservation lemma.\<close>

lemma num_peers_not_max:
  assumes "dl_inv s" "i < length (m_piece_map s)" "num_peers s b \<noteq> Some (2 ^ 14 - 1)" "piece_index b = i"
    "find_dl_piece s i = Some k"
  shows "bi_num_peers (block_at s k (block_index b)) \<noteq> -1"
proof
  assume m: "bi_num_peers (block_at s k (block_index b)) = -1"
  have so: "sorted_wrt (<) (map dp_index (m_downloads s))"
    using assms(1) unfolding dl_inv_def dl_core_def by blast
  have "k < length (m_downloads s)" "dp_index (m_downloads s ! k) = i"
    using find_dl_piece_iff [OF so] assms(5) by blast+
  then have "i \<in> dp_index ` set (m_downloads s)" by (metis image_eqI nth_mem)
  then have "pp_downloading (m_piece_map s ! i)"
    using assms(1,2) unfolding dl_inv_def flags_ok_def by blast
  then have "num_peers s b = Some (unat (- 1 :: 14 word))"
    using assms(4,5) m by (simp add: num_peers_def)
  moreover have "unat (- 1 :: 14 word) = 2 ^ 14 - 1" by (simp add: unsigned_minus_1_eq_mask mask_eq_exp_minus_1)
  ultimately show False using assms(3) by simp
qed

lemma picker_step_inv:
  assumes "picker_step s t" "picker_inv s"
  shows "picker_inv t"
  using assms
proof (cases rule: picker_step.cases)
  case (step_inc_mask bits)
  then show ?thesis using refcount_mask_inv(1) [OF assms(2), of bits] by auto
next
  case (step_dec_mask bits)
  then show ?thesis using refcount_mask_inv(2) [OF assms(2), of bits] by auto
next
  case (step_have i)
  then show ?thesis using we_have_inv [OF assms(2), of i] by auto
next
  case (step_restore i rnd)
  then show ?thesis using restore_piece_inv [OF assms(2), of i rnd] by auto
next
  case (step_downloading b state rnd peer r)
  then show ?thesis
    using mark_as_downloading_inv [OF assms(2), of "piece_index b" "block_index b" state rnd peer]
      num_peers_not_max [OF picker_invD(3) [OF assms(2)], of "piece_index b" b]
    by (simp add: num_pieces_def have_piece_def pp_have_def block_eta)
next
  case (step_writing b rnd peer r)
  then show ?thesis using mark_as_writing_inv [OF assms(2), of "piece_index b" "block_index b" rnd peer] by simp
next
  case (step_finished b rnd peer)
  then show ?thesis using mark_as_finished_inv [OF assms(2), of "piece_index b" "block_index b" rnd peer] by simp
next
  case (step_failed b rnd)
  then show ?thesis using write_failed_inv [OF assms(2), of "piece_index b" "block_index b" rnd] by simp
next
  case (step_abort b rnd peer)
  then show ?thesis using abort_download_inv [OF assms(2), of "piece_index b" "block_index b" rnd peer] by simp
next
  case (step_init n bpp bilp)
  then show ?thesis using picker_init_inv [of s n bpp bilp] assms(2) by (simp add: num_pieces_def)
qed (use assms(2) in \<open>simp_all add: inc_refcount_all_inv dec_refcount_all_inv inc_refcount_inv dec_refcount_inv
      update_pieces_inv we_dont_have_inv set_piece_priority_inv clear_peer_inv\<close>)

lemma picker_reachable_inv: "picker_reachable s \<Longrightarrow> picker_inv s"
proof (induction rule: picker_reachable.induct)
  case (reach_init n bpp bilp)
  then show ?case by (intro picker_init_inv) (auto simp: piece_picker_init_def)
next
  case (reach_step s t)
  then show ?case using picker_step_inv by blast
qed

end
