(* ===== verification/Picker_View.thy ===== *)
theory Picker_View
  imports Picker_State
begin

text \<open>
  What the client of the picker sees. Filing a piece in another bucket changes nothing but
  positions, so the availability \<^verbatim>\<open>get_availability\<close> reports and the priorities
  \<^verbatim>\<open>piece_priorities\<close> reports follow a plain counter and a plain vector; and
  \<^verbatim>\<open>distributed_copies\<close> is the minimum it is documented to be.
\<close>

subsection \<open>The bucket operations only move pieces\<close>

definition pos_blind :: "(piece_pos \<Rightarrow> 'a) \<Rightarrow> bool" where
  "pos_blind f \<longleftrightarrow> (\<forall>p i. f (p\<lparr>pp_index := i\<rparr>) = f p)"

lemma pos_blindI [intro]: "(\<And>p i. f (p\<lparr>pp_index := i\<rparr>) = f p) \<Longrightarrow> pos_blind f"
  by (simp add: pos_blind_def)

lemma blind_set_index: "pos_blind f \<Longrightarrow> map f (set_index pm x v) = map f pm"
  by (simp add: set_index_def map_update_same pos_blind_def)

lemma blind_add_loop:
  "pos_blind f \<Longrightarrow> map f (fst (snd (add_loop mp pm B q i x))) = map f pm"
proof (induction mp pm B q i x rule: add_loop.induct)
  case (1 mp pm B q i x)
  show ?case
    using 1(1) [OF refl refl refl] 1(2)
    by (subst add_loop.simps) (auto simp: Let_def blind_set_index split: prod.split)
qed

lemma blind_remove_loop:
  "pos_blind f \<Longrightarrow> map f (fst (snd (remove_loop mp pm B q n e))) = map f pm"
proof (induction mp pm B q n e rule: remove_loop.induct)
  case (1 mp pm B q n e)
  show ?case
    using 1(1) 1(2)
    by (subst remove_loop.simps) (auto simp: Let_def blind_set_index split: prod.split)
qed

lemma blind_update_down:
  "pos_blind f \<Longrightarrow> map f (fst (snd (update_down mp pm B p np e t))) = map f pm"
proof (induction mp pm B p np e t rule: update_down.induct)
  case (1 mp pm B p np e t)
  show ?case
    using 1(1) 1(2)
    by (subst update_down.simps) (auto simp: Let_def blind_set_index split: prod.split)
qed

lemma blind_update_up:
  "pos_blind f \<Longrightarrow> map f (fst (snd (update_up mp pm B p np e t))) = map f pm"
proof (induction mp pm B p np e t rule: update_up.induct)
  case (1 mp pm B p np e t)
  show ?case
    using 1(1) 1(2)
    by (subst update_up.simps) (auto simp: Let_def blind_set_index split: prod.split)
qed

lemma blind_add: "pos_blind f \<Longrightarrow> map f (m_piece_map (picker_add rnd s i)) = map f (m_piece_map s)"
  by (simp add: picker_add_def Let_def case_prod_unfold blind_set_index blind_add_loop)

lemma blind_remove: "pos_blind f \<Longrightarrow> map f (m_piece_map (picker_remove s p e)) = map f (m_piece_map s)"
  by (simp add: picker_remove_def case_prod_unfold blind_remove_loop)

lemma blind_shuffle: "pos_blind f \<Longrightarrow> map f (m_piece_map (picker_shuffle rnd s p e)) = map f (m_piece_map s)"
  by (simp add: picker_shuffle_def Let_def case_prod_unfold blind_set_index)

lemma blind_update: "pos_blind f \<Longrightarrow> map f (m_piece_map (picker_update rnd s p e)) = map f (m_piece_map s)"
  by (simp add: picker_update_def Let_def case_prod_unfold blind_set_index blind_shuffle blind_remove
      blind_update_down blind_update_up)

lemma blind_refile: "pos_blind f \<Longrightarrow> map f (m_piece_map (refile rnd s i p)) = map f (m_piece_map s)"
  by (simp add: refile_def blind_add blind_update)

lemma seeds_moves [simp]:
  "m_seeds (picker_add rnd s i) = m_seeds s" "m_seeds (picker_remove s p e) = m_seeds s"
  "m_seeds (picker_shuffle rnd s p e) = m_seeds s"
  by (simp_all add: picker_add_def picker_remove_def picker_shuffle_def Let_def split: prod.split)

lemma seeds_update [simp]: "m_seeds (picker_update rnd s p e) = m_seeds s"
  by (simp add: picker_update_def Let_def split: prod.split)

lemma seeds_refile [simp]: "m_seeds (refile rnd s i p) = m_seeds s"
  by (simp add: refile_def)


lemma blind_up_index: "pos_blind f \<Longrightarrow> map f (up_index k mp pm) = map f pm"
  by (induction mp arbitrary: k pm) (simp_all add: blind_set_index)

lemma blind_up_count: "pos_blind f \<Longrightarrow> map f (fst (up_count seeds r i)) = map f (fst r)"
  by (simp add: up_count_def Let_def case_prod_unfold map_update_same pos_blind_def)

lemma blind_up_counts: "pos_blind f \<Longrightarrow> map f (fst (foldl (up_count seeds) r is)) = map f (fst r)"
  by (induction "is" arbitrary: r) (simp_all add: blind_up_count)

lemma blind_update_pieces: "pos_blind f \<Longrightarrow> map f (m_piece_map (update_pieces shuf s)) = map f (m_piece_map s)"
  by (simp add: update_pieces_def Let_def case_prod_unfold blind_up_index blind_up_counts)

lemma blind_erase:
  "(\<And>p d. f (p\<lparr>pp_downloading := d\<rparr>) = f p) \<Longrightarrow> map f (m_piece_map (erase_download_piece s k)) = map f (m_piece_map s)"
  by (simp add: erase_download_piece_def Let_def case_prod_unfold map_update_same)

lemma seeds_update_pieces [simp]: "m_seeds (update_pieces shuf s) = m_seeds s"
  by (simp add: update_pieces_def Let_def case_prod_unfold)

subsection \<open>Availability\<close>

lemma get_availability_count:
  "get_availability s = map (\<lambda>c. uint c + m_seeds s) (map pp_peer_count (m_piece_map s))"
  by (simp add: get_availability_def)

lemma count_blind: "pos_blind pp_peer_count" "pos_blind pp_priority"
  by auto

lemmas count_keeps = count_blind [THEN blind_refile] count_blind [THEN blind_update] count_blind [THEN blind_add]
  count_blind [THEN blind_remove]

lemma uint_plus_1: "x \<noteq> - 1 \<Longrightarrow> uint (x + 1 :: 16 word) = uint x + 1"
proof -
  assume "x \<noteq> - 1"
  then have "uint x \<noteq> 2 ^ 16 - 1" by (simp add: word_uint_eq_iff unsigned_minus_1_eq_mask mask_eq_exp_minus_1)
  then have "uint x + 1 < 2 ^ 16" using uint_lt2p [of x] by simp
  then show ?thesis by (simp add: uint_word_ariths)
qed

lemma uint_minus_1: "0 < x \<Longrightarrow> uint (x - 1 :: 16 word) = uint x - 1"
proof -
  assume "0 < x"
  then have "0 < uint x" by (simp add: word_less_def)
  then show ?thesis using uint_lt2p [of x] by (simp add: uint_word_ariths)
qed

lemma counts_inc: "map pp_peer_count (m_piece_map (inc_refcount rnd s i)) =
    (map pp_peer_count (m_piece_map s))[i := pp_peer_count (m_piece_map s ! i) + 1]"
  by (simp add: inc_refcount_def Let_def count_keeps upd_pos_def map_update)

lemma counts_dec: "map pp_peer_count (m_piece_map (dec_refcount rnd s i)) =
    (map pp_peer_count (m_piece_map s))[i := pp_peer_count (m_piece_map s ! i) - 1]"
  by (simp add: dec_refcount_def Let_def count_keeps upd_pos_def map_update)

lemma seeds_refcount [simp]:
  "m_seeds (inc_refcount rnd s i) = m_seeds s" "m_seeds (dec_refcount rnd s i) = m_seeds s"
  by (simp_all add: inc_refcount_def dec_refcount_def Let_def upd_pos_def)


lemma length_availability [simp]: "length (get_availability s) = num_pieces s"
  by (simp add: get_availability_def num_pieces_def)

lemma nth_availability: "i < num_pieces s \<Longrightarrow> get_availability s ! i = uint (pp_peer_count (m_piece_map s ! i)) + m_seeds s"
  by (simp add: get_availability_def num_pieces_def)

definition count_room :: "piece_picker \<Rightarrow> nat \<Rightarrow> bool" where
  "count_room s i \<longleftrightarrow> pp_peer_count (m_piece_map s ! i) \<noteq> - 1"

definition count_used :: "piece_picker \<Rightarrow> nat \<Rightarrow> bool" where
  "count_used s i \<longleftrightarrow> 0 < pp_peer_count (m_piece_map s ! i)"

lemma count_nth: "i < num_pieces s \<Longrightarrow> pp_peer_count (m_piece_map s ! i) = map pp_peer_count (m_piece_map s) ! i"
  by (simp add: num_pieces_def)

lemma num_pieces_refcount [simp]:
  "num_pieces (inc_refcount rnd s i) = num_pieces s" "num_pieces (dec_refcount rnd s i) = num_pieces s"
  using arg_cong [OF counts_inc [of rnd s i], of length] arg_cong [OF counts_dec [of rnd s i], of length]
  by (simp_all add: num_pieces_def)

lemma availability_inc:
  assumes "i < num_pieces s" "count_room s i"
  shows "get_availability (inc_refcount rnd s i) = (get_availability s)[i := get_availability s ! i + 1]"
  using assms unfolding get_availability_count counts_inc
  by (simp add: map_update count_room_def uint_plus_1 num_pieces_def add.assoc add.commute [of 1])

lemma availability_dec:
  assumes "i < num_pieces s" "count_used s i"
  shows "get_availability (dec_refcount rnd s i) = (get_availability s)[i := get_availability s ! i - 1]"
  using assms unfolding get_availability_count counts_dec
  by (simp add: map_update count_used_def uint_minus_1 num_pieces_def algebra_simps)

lemma refcount_nth:
  assumes "i < num_pieces s" "j < num_pieces s"
  shows "pp_peer_count (m_piece_map (inc_refcount rnd s i) ! j) =
      (if j = i then pp_peer_count (m_piece_map s ! i) + 1 else pp_peer_count (m_piece_map s ! j))"
    "pp_peer_count (m_piece_map (dec_refcount rnd s i) ! j) =
      (if j = i then pp_peer_count (m_piece_map s ! i) - 1 else pp_peer_count (m_piece_map s ! j))"
  using assms counts_inc [of rnd s i] counts_dec [of rnd s i]
  by (simp_all add: count_nth nth_list_update) (simp_all add: num_pieces_def)

lemma room_used: "(x :: 16 word) \<noteq> - 1 \<Longrightarrow> 0 < x + 1"
  using uint_plus_1 [of x] uint_ge_0 [of x] by (simp add: word_less_def)

text \<open>
  The contract of a vector of reference counts: what the client of \<^verbatim>\<open>inc_refcount\<close> and
  \<^verbatim>\<open>dec_refcount\<close> relies on when peers announce pieces and leave.
\<close>

locale refcounts =
  fixes avail :: "'s \<Rightarrow> int list"
    and incr :: "'s \<Rightarrow> nat \<Rightarrow> 's"
    and decr :: "'s \<Rightarrow> nat \<Rightarrow> 's"
    and room :: "'s \<Rightarrow> nat \<Rightarrow> bool"
    and used :: "'s \<Rightarrow> nat \<Rightarrow> bool"
  assumes avail_incr: "i < length (avail s) \<Longrightarrow> room s i \<Longrightarrow> avail (incr s i) = (avail s)[i := avail s ! i + 1]"
    and avail_decr: "i < length (avail s) \<Longrightarrow> used s i \<Longrightarrow> avail (decr s i) = (avail s)[i := avail s ! i - 1]"
    and room_incr: "i < length (avail s) \<Longrightarrow> j < length (avail s) \<Longrightarrow> j \<noteq> i \<Longrightarrow> room (incr s i) j = room s j"
    and used_incr: "i < length (avail s) \<Longrightarrow> room s i \<Longrightarrow> used (incr s i) i"
    and used_incr_other: "i < length (avail s) \<Longrightarrow> j < length (avail s) \<Longrightarrow> j \<noteq> i \<Longrightarrow> used (incr s i) j = used s j"
    and used_decr_other: "i < length (avail s) \<Longrightarrow> j < length (avail s) \<Longrightarrow> j \<noteq> i \<Longrightarrow> used (decr s i) j = used s j"
begin

lemma incr_all:
  "distinct xs \<Longrightarrow> \<forall>i \<in> set xs. i < length (avail s) \<and> room s i \<Longrightarrow>
   avail (foldl incr s xs) = map (\<lambda>j. avail s ! j + (if j \<in> set xs then 1 else 0)) [0..<length (avail s)] \<and>
   (\<forall>j < length (avail s). j \<in> set xs \<or> used s j \<longrightarrow> used (foldl incr s xs) j)"
proof (induction xs arbitrary: s)
  case Nil
  then show ?case by (simp add: map_nth)
next
  case (Cons x xs)
  have x: "x < length (avail s)" "room s x" "x \<notin> set xs" using Cons.prems by auto
  have a: "avail (incr s x) = (avail s)[x := avail s ! x + 1]" by (rule avail_incr [OF x(1,2)])
  have "\<forall>i \<in> set xs. i < length (avail (incr s x)) \<and> room (incr s x) i"
    using Cons.prems x room_incr [OF x(1)] a by (metis distinct.simps(2) length_list_update list.set_intros(2))
  note ih = Cons.IH [of "incr s x", OF _ this]
  have "used (incr s x) j" if "j < length (avail s)" "j = x \<or> used s j" for j
    using that used_incr [OF x(1,2)] used_incr_other [OF x(1)] by blast
  then show ?case using ih Cons.prems(1) x a by (auto simp: nth_list_update intro!: map_cong)
qed

lemma decr_all:
  "distinct xs \<Longrightarrow> \<forall>i \<in> set xs. i < length (avail s) \<and> used s i \<Longrightarrow>
   avail (foldl decr s xs) = map (\<lambda>j. avail s ! j - (if j \<in> set xs then 1 else 0)) [0..<length (avail s)]"
proof (induction xs arbitrary: s)
  case Nil
  then show ?case by (simp add: map_nth)
next
  case (Cons x xs)
  have x: "x < length (avail s)" "used s x" "x \<notin> set xs" using Cons.prems by auto
  have a: "avail (decr s x) = (avail s)[x := avail s ! x - 1]" by (rule avail_decr [OF x(1,2)])
  have "\<forall>i \<in> set xs. i < length (avail (decr s x)) \<and> used (decr s x) i"
    using Cons.prems x used_decr_other [OF x(1)] a by (metis distinct.simps(2) length_list_update list.set_intros(2))
  note ih = Cons.IH [of "decr s x", OF _ this]
  then show ?case using Cons.prems(1) x a by (auto simp: nth_list_update intro!: map_cong)
qed

lemma join_leave:
  assumes "distinct xs" "distinct ys" "set ys = set xs" "\<forall>i \<in> set xs. i < length (avail s) \<and> room s i"
  shows "avail (foldl decr (foldl incr s xs) ys) = avail s"
proof -
  have i: "avail (foldl incr s xs) = map (\<lambda>j. avail s ! j + (if j \<in> set xs then 1 else 0)) [0..<length (avail s)]"
    "\<forall>j < length (avail s). j \<in> set xs \<longrightarrow> used (foldl incr s xs) j"
    using incr_all [OF assms(1,4)] by blast+
  have "avail (foldl decr (foldl incr s xs) ys) =
     map (\<lambda>j. avail (foldl incr s xs) ! j - (if j \<in> set ys then 1 else 0)) [0..<length (avail (foldl incr s xs))]"
    using assms i by (intro decr_all) auto
  also have "\<dots> = map (\<lambda>j. avail s ! j) [0..<length (avail s)]"
    unfolding i(1) using assms(3) by (simp cong: map_cong)
  finally show ?thesis by (simp add: map_nth)
qed

end

interpretation rc: refcounts get_availability "inc_refcount rnd" "dec_refcount rnd'" count_room count_used
proof
  fix s i j
  assume i: "i < length (get_availability s)" and j: "j < length (get_availability s)" "j \<noteq> i"
  show "count_room (inc_refcount rnd s i) j = count_room s j" "count_used (inc_refcount rnd s i) j = count_used s j"
    "count_used (dec_refcount rnd' s i) j = count_used s j"
    using i j by (simp_all add: refcount_nth count_room_def count_used_def)
next
  fix s i
  assume i: "i < length (get_availability s)"
  show "count_room s i \<Longrightarrow> count_used (inc_refcount rnd s i) i"
    using i by (simp add: refcount_nth count_room_def count_used_def room_used)
qed (simp_all add: availability_inc availability_dec)


subsection \<open>Priorities\<close>

lemma priorities_keeps:
  "map pp_priority (m_piece_map (skip_cursors s i)) = map pp_priority (m_piece_map s)"
  by simp

lemma set_piece_priority_priorities:
  "piece_priorities (fst (set_piece_priority rnd s i v)) = (piece_priorities s)[i := v]"
proof (cases "v = pp_priority (m_piece_map s ! i)")
  case True
  then show ?thesis
    by (simp add: set_piece_priority_def piece_priorities_def map_update [symmetric])
next
  case False
  then show ?thesis
    by (simp add: set_piece_priority_def piece_priorities_def Let_def case_prod_unfold count_keeps upd_pos_def map_update)
qed

subsection \<open>Distributed copies\<close>

definition copies :: "piece_pos \<Rightarrow> int" where
  "copies p = uint (pp_peer_count p) + (if pp_have p then 1 else 0)"

definition min_copies :: "piece_pos list \<Rightarrow> int" where
  "min_copies ps = Min (insert 0xffff (copies ` set ps))"

lemma min_copies_snoc: "min_copies (ps @ [p]) = min (min_copies ps) (copies p)"
proof -
  have "insert 0xffff (copies ` set (ps @ [p])) = insert (copies p) (insert 0xffff (copies ` set ps))" by auto
  then show ?thesis by (simp only: min_copies_def Min.insert finite_insert finite_imageI finite_set insert_not_empty
        not_False_eq_True min.commute)
qed

lemma min_copies_le: "p \<in> set ps \<Longrightarrow> min_copies ps \<le> copies p"
  by (simp add: min_copies_def)

lemma filter_below_min: "x < min_copies ps \<Longrightarrow> filter (\<lambda>p. copies p = x) ps = []"
  using min_copies_le by (fastforce simp: filter_empty_conv)

lemma dc_step_fold:
  "foldl dc_step (0xffff, 0, 0) ps =
     (min_copies ps, int (length (filter (\<lambda>p. copies p = min_copies ps) ps)),
      int (length (filter (\<lambda>p. copies p \<noteq> min_copies ps) ps)))"
proof (induction ps rule: rev_induct)
  case Nil
  then show ?case by (simp add: min_copies_def)
next
  case (snoc p ps)
  have len: "length (filter (\<lambda>p. copies p = x) ps) + length (filter (\<lambda>p. copies p \<noteq> x) ps) = length ps" for x
    by (rule sum_length_filter_compl)
  have all: "length (filter (\<lambda>q. copies q \<noteq> copies p) ps) = length ps" if "copies p < min_copies ps"
    using len [of "copies p"] filter_below_min [OF that] by simp
  have "foldl dc_step (0xffff, 0, 0) (ps @ [p]) =
     dc_step (min_copies ps, int (length (filter (\<lambda>p. copies p = min_copies ps) ps)),
      int (length (filter (\<lambda>p. copies p \<noteq> min_copies ps) ps))) p"
    by (simp add: snoc.IH)
  also have "\<dots> = (min_copies (ps @ [p]), int (length (filter (\<lambda>q. copies q = min_copies (ps @ [p])) (ps @ [p]))),
      int (length (filter (\<lambda>q. copies q \<noteq> min_copies (ps @ [p])) (ps @ [p]))))"
    using len [of "min_copies ps"] all filter_below_min [of "copies p" ps]
    by (auto simp: dc_step_def Let_def copies_def [symmetric] min_copies_snoc min_def)
  finally show ?case .
qed

lemma distributed_copies_spec:
  assumes "m_piece_map s \<noteq> []"
  shows "distributed_copies s =
    (min_copies (m_piece_map s) + m_seeds s,
     int (length (filter (\<lambda>p. copies p \<noteq> min_copies (m_piece_map s)) (m_piece_map s))) * 1000 div int (num_pieces s))"
  using assms by (simp add: distributed_copies_def dc_step_fold num_pieces_def)

end
