(* ===== verification/Picker_Claims.thy ===== *)
theory Picker_Claims
  imports Picker_View "HOL-Library.Code_Target_Numeral"
begin

text \<open>
  The properties of the piece picker and of the bit field it is fed with, each with a witness
  at a concrete input.
\<close>

subsection \<open>Preparations\<close>

lemma moved_num_have [simp]:
  "m_num_have (picker_remove s p e) = m_num_have s" "m_sparse_regions (picker_remove s p e) = m_sparse_regions s"
  by (simp_all add: picker_remove_def split: prod.split)

lemma erase_counts [simp]:
  "m_num_have (erase_download_piece s k) = m_num_have s"
  "m_sparse_regions (erase_download_piece s k) = m_sparse_regions s"
  by (simp_all add: erase_download_piece_def Let_def split: prod.split)

lemma take_piece_counts:
  "m_num_have (take_piece s i) = m_num_have s + 1"
  "m_sparse_regions (take_piece s i) = m_sparse_regions s + sparse_delta (m_piece_map s) i"
  by (simp_all add: take_piece_def Let_def skip_cursors_def)

text \<open>The regions of missing pieces: a region starts at a missing piece whose predecessor is not missing.\<close>

fun gap_count :: "bool \<Rightarrow> bool list \<Rightarrow> int" where
  "gap_count prev [] = 0"
| "gap_count prev (h # hs) = (if \<not> h \<and> prev then 1 else 0) + gap_count h hs"

definition missing_regions :: "piece_pos list \<Rightarrow> int" where
  "missing_regions pm = gap_count True (map pp_have pm)"

lemma gap_count_take:
  "i < length hs \<Longrightarrow> \<not> hs ! i \<Longrightarrow>
   gap_count p (hs[i := True]) = gap_count p hs
     + (if i + 1 = length hs \<or> hs ! (i + 1) then 0 else 1) - (if (if i = 0 then p else hs ! (i - 1)) then 1 else 0)"
proof (induction hs arbitrary: i p)
  case (Cons h hs)
  show ?case
  proof (cases i)
    case 0
    with Cons.prems show ?thesis by (cases hs) auto
  next
    case (Suc j)
    with Cons.prems Cons.IH [of j h] show ?thesis by (cases j) auto
  qed
qed simp

lemma missing_regions_delta:
  assumes "i < length pm" "\<not> pp_have (pm ! i)" "pp_have p"
  shows "missing_regions (pm[i := p]) = missing_regions pm + sparse_delta pm i"
  using gap_count_take [of i "map pp_have pm" True] assms
  by (auto simp: missing_regions_def map_update sparse_delta_def Let_def)

lemma we_have_result:
  assumes s: "picker_inv s" and i: "i < num_pieces s" and nh: "\<not> have_piece s i"
  obtains t where "we_have s i = Some t" "m_num_have t = m_num_have s + 1"
    "m_sparse_regions t = m_sparse_regions s + sparse_delta (m_piece_map s) i"
proof -
  have d: "sparse_delta ((m_piece_map s)[i := (m_piece_map s ! i)\<lparr>pp_downloading := False\<rparr>]) i = sparse_delta (m_piece_map s) i"
    by (simp add: sparse_delta_def Let_def nth_list_update)
  obtain t where t: "we_have s i = Some t" using we_have_inv [OF s i] by blast
  obtain s1 where s1: "(if pp_downloading (m_piece_map s ! i)
        then map_option (erase_download_piece s) (find_dl_piece s i) else Some s) = Some s1"
    "m_piece_map s1 = (m_piece_map s)[i := (m_piece_map s ! i)\<lparr>pp_downloading := False\<rparr>]"
    using we_have_start [OF s i] by metis
  have c: "m_num_have s1 = m_num_have s" "m_sparse_regions s1 = m_sparse_regions s"
    using s1(1) by (auto split: if_splits)
  have "\<not> pp_have (m_piece_map s1 ! i)" using nh i by (simp add: s1(2) have_piece_def pp_have_def num_pieces_def)
  then have "t = (let u = take_piece s1 i in
       if prio_of s i = -1 then u else if m_dirty u then u
       else picker_remove u (nat (prio_of s i)) (pp_index (m_piece_map s ! i)))"
    using t unfolding we_have_def Let_def s1(1) option.case by simp
  then show ?thesis using that [OF t] c d by (simp add: take_piece_counts s1(2) Let_def split: if_splits)
qed

lemma count_bits_nth:
  assumes "count_bits d bs k (pm, u) = (pm', u')" "k + length bs \<le> length pm" "j < length pm"
  shows "length pm' = length pm \<and> pp_peer_count (pm' ! j) =
     pp_peer_count (pm ! j) + (if k \<le> j \<and> j < k + length bs \<and> bs ! (j - k) then d else 0)"
  using assms
proof (induction bs arbitrary: k pm u)
  case (Cons b bs)
  obtain pm1 u1 where p1: "(if b then (pm[k := (pm ! k)\<lparr>pp_peer_count := pp_peer_count (pm ! k) + d\<rparr>], True) else (pm, u)) = (pm1, u1)"
    by (cases "if b then (pm[k := (pm ! k)\<lparr>pp_peer_count := pp_peer_count (pm ! k) + d\<rparr>], True) else (pm, u)")
  have r: "count_bits d bs (Suc k) (pm1, u1) = (pm', u')" using Cons.prems(1) p1 by simp
  have l: "length pm1 = length pm" using p1 by (auto split: if_splits)
  have c1: "pp_peer_count (pm1 ! j) = pp_peer_count (pm ! j) + (if j = k \<and> b then d else 0)"
    using p1 Cons.prems(3) by (auto simp: nth_list_update split: if_splits)
  have "(b # bs) ! (j - k) = (if j = k then b else bs ! (j - Suc k))" if "k \<le> j" using that by (simp add: nth_Cons')
  then show ?case using Cons.IH [OF r] Cons.prems(2,3) l c1 by (auto split: if_splits)
qed auto

lemma inc_mask_availability:
  assumes "bf_size bits \<le> num_pieces s" "\<forall>i < bf_size bits. get_bit bits i \<longrightarrow> count_room s i"
  shows "\<exists>t. inc_refcount_mask s bits = Some t \<and>
    get_availability t = map (\<lambda>i. get_availability s ! i + (if i < bf_size bits \<and> get_bit bits i then 1 else 0)) [0..<num_pieces s]"
proof -
  obtain pm u where r: "count_bits 1 (bits_of bits) 0 (m_piece_map s, False) = (pm, u)" by fastforce
  note n = count_bits_nth [OF r]
  let ?t = "s\<lparr>m_piece_map := pm, m_dirty := (if u then True else m_dirty s)\<rparr>"
  have len: "length pm = length (m_piece_map s)"
    using count_bits_keeps [OF r, of "\<lambda>_. ()"] by (metis (no_types, lifting) length_map)
  have "inc_refcount_mask s bits = Some ?t"
    by (simp add: inc_refcount_mask_def bf_traverse_bits r)
  moreover have "get_availability ?t = map (\<lambda>i. get_availability s ! i + (if i < bf_size bits \<and> get_bit bits i then 1 else 0)) [0..<num_pieces s]"
  proof (rule nth_equalityI)
    fix i assume "i < length (get_availability ?t)"
    then have i: "i < length (m_piece_map s)" using len by (simp add: get_availability_def)
    have c: "pp_peer_count (pm ! i) = pp_peer_count (m_piece_map s ! i) + (if i < bf_size bits \<and> get_bit bits i then 1 else 0)"
      using n [of i] i assms(1) nth_bits_of [of i bits] by (auto simp: num_pieces_def)
    have "get_bit bits i \<Longrightarrow> i < bf_size bits \<Longrightarrow> pp_peer_count (m_piece_map s ! i) \<noteq> - 1"
      using assms(2) by (simp add: count_room_def)
    then have u: "uint (pp_peer_count (pm ! i)) = uint (pp_peer_count (m_piece_map s ! i)) + (if i < bf_size bits \<and> get_bit bits i then 1 else 0)"
      unfolding c by (simp add: uint_plus_1)
    show "get_availability ?t ! i = map (\<lambda>i. get_availability s ! i + (if i < bf_size bits \<and> get_bit bits i then 1 else 0)) [0..<num_pieces s] ! i"
      using i len by (simp add: get_availability_def num_pieces_def u)
  qed (simp add: get_availability_def len num_pieces_def)
  ultimately show ?thesis by blast
qed


lemma bkts_ok_ge: "bkts_ok pf k bs \<Longrightarrow> x \<in> set (concat bs) \<Longrightarrow> int k \<le> pf (nat x)"
  by (induction bs arbitrary: k) fastforce+

lemma bucketed_sorted:
  assumes "bkts_ok pf k bs"
  shows "sorted (map (\<lambda>x. pf (nat x)) (concat bs))"
  using assms
proof (induction bs arbitrary: k)
  case (Cons b bs)
  have "pf (nat x) \<le> pf (nat y)" if "x \<in> set b" "y \<in> set (concat bs)" for x y
    using bkts_ok_ge [of pf "Suc k" bs y] that Cons.prems by auto
  moreover have "sorted (map (\<lambda>x. pf (nat x)) b)"
    using Cons.prems by (intro sorted_wrt_map_mono [of "\<lambda>_ _. True"]) (auto simp: sorted_wrt_iff_nth_less)
  ultimately show ?case using Cons by (auto simp: sorted_append)
qed simp

lemma set_pieces:
  assumes "bucketed pf pm mp B"
  shows "set mp = int ` {i. i < length pm \<and> 0 \<le> pf i}"
proof
  have im: "in_map pm mp" using assms unfolding bucketed_def by blast
  show "set mp \<subseteq> int ` {i. i < length pm \<and> 0 \<le> pf i}"
  proof
    fix x assume x: "x \<in> set mp"
    then have "0 \<le> x" "nat x < length pm" using im unfolding in_map_def by blast+
    moreover from this x have "0 \<le> pf (nat x)" using bucketed_mem [OF assms, of "nat x"] by simp
    ultimately show "x \<in> int ` {i. i < length pm \<and> 0 \<le> pf i}" by (intro image_eqI [of _ _ "nat x"]) auto
  qed
qed (use assms in \<open>auto simp: bucketed_def\<close>)

text \<open>A small torrent: four pieces of two blocks, the last of one.\<close>

definition small :: piece_picker where
  "small = picker_init piece_picker_init 2 1 4"

lemma small_reachable: "picker_reachable small"
  unfolding small_def by (rule reach_init) (simp_all add: we_have_index_def)

lemma small_pieces [simp]: "num_pieces small = 4" "blocks_in_piece small 0 = 2"
  by (simp_all add: small_def picker_init_def Let_def num_pieces_def blocks_in_piece_def)

definition small_seeded :: piece_picker where
  "small_seeded = update_pieces (\<lambda>st xs. xs) (inc_refcount_all small)"

lemma small_seeded_reachable: "picker_reachable small_seeded"
  unfolding small_seeded_def
  by (intro reach_step [OF _ step_update] reach_step [OF _ step_inc_all] small_reachable) simp

lemma small_seeded_clean [simp]: "\<not> m_dirty small_seeded" "num_pieces small_seeded = 4"
  unfolding small_seeded_def by code_simp+

subsection \<open>Properties\<close>

text \<open>C1: In every state the operations can lead to, all the assertions of \<^verbatim>\<open>check_invariant\<close> but the one on
  \<^verbatim>\<open>full\<close> hold: the counters count, the cursors are where the loops would put them, every entry of
  \<^verbatim>\<open>m_downloads\<close> agrees with its blocks, and every piece is in the bucket of its priority.\<close>

theorem picker_invariant:
  assumes "picker_reachable s"
  shows "check_state s"
  using picker_inv_check_state [OF picker_reachable_inv [OF assms]] .

theorem picker_invariant_witness: "picker_reachable small_seeded \<and> check_state small_seeded"
  using small_seeded_reachable picker_invariant [OF small_seeded_reachable] by blast

text \<open>C2: In a reachable state that is not dirty, \<^verbatim>\<open>m_pieces\<close> holds exactly the pieces with a priority of at
  least 0 (wanted, missing and available), each once, in the order of their priority.\<close>

theorem picker_order:
  assumes "picker_reachable s" "\<not> m_dirty s"
  shows "distinct (m_pieces s) \<and> sorted (map (\<lambda>x. prio_of s (nat x)) (m_pieces s)) \<and>
    set (m_pieces s) = int ` {i. i < num_pieces s \<and> 0 \<le> prio_of s i}"
proof -
  have b: "bucketed (prio_of s) (m_piece_map s) (m_pieces s) (m_priority_boundries s)"
    using picker_invD(1) [OF picker_reachable_inv [OF assms(1)]] assms(2) by (simp add: bkt_inv_def)
  then obtain bs where "m_pieces s = concat bs" "bkts_ok (prio_of s) 0 bs" "distinct (m_pieces s)"
    unfolding bucketed_def by blast
  then show ?thesis using bucketed_sorted [of "prio_of s" 0 bs] set_pieces [OF b] by (simp add: num_pieces_def)
qed

theorem picker_order_witness:
  "distinct (m_pieces small_seeded) \<and> set (m_pieces small_seeded) = int ` {i. i < 4 \<and> 0 \<le> prio_of small_seeded i}"
  using picker_order [OF small_seeded_reachable] by simp


lemma small_not_requested: "is_requested small \<lparr>piece_index = 0, block_index = 1\<rparr> = Some False"
  unfolding small_def by code_simp


text \<open>C8: A peer that announces some pieces one by one and later withdraws them, in any order, leaves the
  availability of every piece as it was, whatever random numbers the two operations draw.\<close>

theorem join_leave_availability:
  assumes "distinct xs" "distinct ys" "set ys = set xs" "\<forall>i \<in> set xs. i < num_pieces s \<and> count_room s i"
  shows "get_availability (foldl (dec_refcount rnd') (foldl (inc_refcount rnd) s xs) ys) = get_availability s"
  using rc.join_leave [OF assms(1-3), of s rnd' rnd] assms(4) by simp

theorem join_leave_availability_witness:
  "get_availability (foldl (dec_refcount 5) (foldl (inc_refcount 3) small_seeded [1, 2]) [2, 1]) = get_availability small_seeded"
proof (rule join_leave_availability)
  have "count_room small_seeded 1" "count_room small_seeded 2" unfolding small_seeded_def by code_simp+
  then show "\<forall>i \<in> set [1, 2]. i < num_pieces small_seeded \<and> count_room small_seeded i" by simp
qed auto

text \<open>C9: A peer's bit field adds one to the availability of exactly the pieces whose bit is set.\<close>

theorem mask_availability:
  assumes "bf_size bits \<le> num_pieces s" "\<forall>i < bf_size bits. get_bit bits i \<longrightarrow> count_room s i"
  shows "\<exists>t. inc_refcount_mask s bits = Some t \<and>
    get_availability t = map (\<lambda>i. get_availability s ! i + (if i < bf_size bits \<and> get_bit bits i then 1 else 0)) [0..<num_pieces s]"
  by (rule inc_mask_availability [OF assms])

definition small_mask :: bitfield where
  "small_mask = set_bit (bf_resize_val (\<lambda>_. 0) bitfield_empty 4 False) 2"

lemma small_mask_facts: "bf_size small_mask = 4" "\<forall>i \<in> {0..<4}. get_bit small_mask i \<longleftrightarrow> i = 2"
  "\<forall>i \<in> {0..<4}. count_room small i"
  unfolding small_mask_def small_def by code_simp+

theorem mask_availability_witness:
  "\<exists>t. inc_refcount_mask small small_mask = Some t \<and> get_availability t ! 2 = get_availability small ! 2 + 1"
  using mask_availability [of small_mask small] small_mask_facts by (auto simp: numeral_2_eq_2)

text \<open>C12: \<^verbatim>\<open>distributed_copies\<close> returns the number of copies of the rarest piece (its peers, ourselves and the
  seeds; at most \<^verbatim>\<open>0xffff\<close> of the first two) and the thousandths of the pieces that have more.\<close>

theorem distributed_copies_min:
  assumes "m_piece_map s \<noteq> []"
  shows "distributed_copies s =
    (min_copies (m_piece_map s) + m_seeds s,
     int (length (filter (\<lambda>p. copies p \<noteq> min_copies (m_piece_map s)) (m_piece_map s))) * 1000 div int (num_pieces s))"
  by (rule distributed_copies_spec [OF assms])

theorem distributed_copies_min_witness:
  "m_piece_map small_seeded \<noteq> [] \<and> distributed_copies small_seeded = (min_copies (m_piece_map small_seeded) + 1, 0)"
proof -
  have ne: "m_piece_map small_seeded \<noteq> []" using small_seeded_clean(2) by (auto simp: num_pieces_def)
  have c: "\<forall>p \<in> set (m_piece_map small_seeded). copies p = 0" "m_seeds small_seeded = 1"
    unfolding small_seeded_def by code_simp+
  then have "copies ` set (m_piece_map small_seeded) = (\<lambda>_. 0) ` set (m_piece_map small_seeded)" by (intro image_cong) simp_all
  then have "copies ` set (m_piece_map small_seeded) = {0}" using ne by (simp add: image_constant_conv)
  then have "min_copies (m_piece_map small_seeded) = 0" by (simp add: min_copies_def)
  then show ?thesis using distributed_copies_min [OF ne] ne c by (simp cong: filter_cong)
qed

text \<open>C10: \<^verbatim>\<open>we_have\<close> on a missing piece returns, counts it, and keeps \<^verbatim>\<open>m_sparse_regions\<close> the number of
  regions of missing pieces.\<close>

theorem we_have_counts:
  assumes "picker_reachable s" "i < num_pieces s" "\<not> have_piece s i"
    "m_sparse_regions s = missing_regions (m_piece_map s)"
  shows "\<exists>t. we_have s i = Some t \<and> have_piece t i \<and> m_num_have t = m_num_have s + 1 \<and>
    m_sparse_regions t = missing_regions ((m_piece_map s)[i := (m_piece_map s ! i)\<lparr>pp_index := we_have_index\<rparr>])"
proof -
  have s: "picker_inv s" by (rule picker_reachable_inv [OF assms(1)])
  obtain t where t: "we_have s i = Some t" "m_num_have t = m_num_have s + 1"
    "m_sparse_regions t = m_sparse_regions s + sparse_delta (m_piece_map s) i"
    by (rule we_have_result [OF s assms(2,3)])
  moreover have "have_piece t i" using we_have_inv [OF s assms(2)] t(1) by auto
  moreover have "missing_regions ((m_piece_map s)[i := (m_piece_map s ! i)\<lparr>pp_index := we_have_index\<rparr>]) =
      missing_regions (m_piece_map s) + sparse_delta (m_piece_map s) i"
    using assms(2,3) by (intro missing_regions_delta) (simp_all add: num_pieces_def have_piece_def pp_have_def)
  ultimately show ?thesis using assms(4) by auto
qed

lemma small_regions: "\<not> have_piece small 1" "m_sparse_regions small = missing_regions (m_piece_map small)"
  unfolding small_def by code_simp+

theorem we_have_counts_witness: "\<exists>t. we_have small 1 = Some t \<and> have_piece t 1"
  using we_have_counts [OF small_reachable _ small_regions] by auto


text \<open>Runs of the state machine that can be evaluated.\<close>

datatype picker_op =
    Op_have nat
  | Op_dont_have nat nat
  | Op_restore nat nat
  | Op_downloading nat piece_block nat piece_state_t
  | Op_writing nat piece_block nat
  | Op_finished nat piece_block nat

fun picker_exec :: "piece_picker \<Rightarrow> picker_op \<Rightarrow> piece_picker option" where
  "picker_exec s (Op_have i) = (if i < num_pieces s then we_have s i else None)"
| "picker_exec s (Op_dont_have rnd i) = (if i < num_pieces s then Some (we_dont_have rnd s i) else None)"
| "picker_exec s (Op_restore rnd i) =
     (if i < num_pieces s \<and> pp_downloading (m_piece_map s ! i) then restore_piece rnd s i else None)"
| "picker_exec s (Op_downloading rnd b peer state) =
     (if valid_block s b \<and> \<not> have_piece s (piece_index b) \<and> state \<noteq> none \<and> num_peers s b \<noteq> Some (2 ^ 14 - 1)
      then map_option fst (mark_as_downloading rnd s b peer state) else None)"
| "picker_exec s (Op_writing rnd b peer) =
     (if valid_block s b then map_option fst (mark_as_writing rnd s b peer) else None)"
| "picker_exec s (Op_finished rnd b peer) =
     (if valid_block s b \<and> is_requested s b = Some False then mark_as_finished rnd s b peer else None)"

fun picker_run :: "piece_picker \<Rightarrow> picker_op list \<Rightarrow> piece_picker option" where
  "picker_run s [] = Some s"
| "picker_run s (a # as) = (case picker_exec s a of None \<Rightarrow> None | Some t \<Rightarrow> picker_run t as)"

lemma picker_exec_step: "picker_exec s a = Some t \<Longrightarrow> picker_step s t"
  by (cases a) (auto split: if_splits intro: picker_step.intros)

lemma picker_run_reachable: "picker_reachable s \<Longrightarrow> picker_run s as = Some t \<Longrightarrow> picker_reachable t"
  by (induction "as" arbitrary: s) (auto split: option.splits dest: picker_exec_step reach_step)

lemma run_exists:
  assumes "picker_reachable s" "case picker_run s as of None \<Rightarrow> False | Some t \<Rightarrow> P t"
  shows "\<exists>t. picker_reachable t \<and> P t"
  using assms picker_run_reachable by (auto split: option.splits)

abbreviation blk :: "nat \<Rightarrow> nat \<Rightarrow> piece_block" where
  "blk i b \<equiv> \<lparr>piece_index = i, block_index = b\<rparr>"

lemma sparse_regions_stale:
  "\<exists>s. picker_reachable s \<and> m_sparse_regions s = 2 \<and> missing_regions (m_piece_map s) = 1"
proof (rule run_exists [OF small_reachable, where as = "[Op_have 1, Op_dont_have 0 1]"])
  show "case picker_run small [Op_have 1, Op_dont_have 0 1] of None \<Rightarrow> False
     | Some s \<Rightarrow> m_sparse_regions s = 2 \<and> missing_regions (m_piece_map s) = 1"
    unfolding small_def by code_simp
qed

lemma full_flag_stale:
  "\<exists>s. picker_reachable s \<and> check_state s \<and> \<not> check_invariant s"
proof (rule run_exists [OF small_reachable, where as = "[Op_downloading 0 (blk 0 0) 7 fast, Op_downloading 0 (blk 0 1) 7 fast,
    Op_writing 0 (blk 0 0) 7, Op_writing 0 (blk 0 1) 7, Op_finished 0 (blk 0 0) 7, Op_finished 0 (blk 0 1) 7,
    Op_restore 0 0, Op_finished 0 (blk 0 0) 0]"])
  show "case picker_run small [Op_downloading 0 (blk 0 0) 7 fast, Op_downloading 0 (blk 0 1) 7 fast,
    Op_writing 0 (blk 0 0) 7, Op_writing 0 (blk 0 1) 7, Op_finished 0 (blk 0 0) 7, Op_finished 0 (blk 0 1) 7,
    Op_restore 0 0, Op_finished 0 (blk 0 0) 0] of None \<Rightarrow> False
     | Some s \<Rightarrow> check_state s \<and> \<not> check_invariant s"
    unfolding small_def by code_simp
qed

text \<open>C13: Two pieces of state that the operations do not keep up to date. The one assertion of
  \<^verbatim>\<open>check_invariant\<close> that can fail is that on \<^verbatim>\<open>full\<close>: \<^verbatim>\<open>restore_piece\<close> leaves it set and
  \<^verbatim>\<open>mark_as_finished\<close> does not recompute it for a new entry, so a piece of two blocks that was complete,
  failed its hash check, was restored and got one block again is still marked full. And
  \<^verbatim>\<open>we_dont_have\<close> does not maintain \<^verbatim>\<open>m_sparse_regions\<close>: after a piece in the middle has been had
  and given up again, the picker counts two regions of missing pieces where there is one.\<close>

theorem stale_picker_state:
  "(\<exists>s. picker_reachable s \<and> check_state s \<and> \<not> check_invariant s) \<and>
   (\<exists>s. picker_reachable s \<and> m_sparse_regions s = 2 \<and> missing_regions (m_piece_map s) = 1)"
  using full_flag_stale sparse_regions_stale by blast

text \<open>C11: \<^verbatim>\<open>set_piece_priority\<close> sets the priority of that piece, leaves those of all the others, and
  keeps the picker consistent; it reports whether the piece became filtered or ceased to be.\<close>

theorem set_priority_effect:
  assumes "picker_reachable s" "i < num_pieces s" "v \<le> 7"
  shows "piece_priorities (fst (set_piece_priority rnd s i v)) = (piece_priorities s)[i := v] \<and>
    check_state (fst (set_piece_priority rnd s i v)) \<and>
    (snd (set_piece_priority rnd s i v) \<longleftrightarrow> (v = 0) \<noteq> (piece_priority s i = 0))"
proof -
  have "picker_reachable (fst (set_piece_priority rnd s i v))" by (rule reach_step [OF assms(1) step_priority [OF assms(2,3)]])
  then have "check_state (fst (set_piece_priority rnd s i v))"
    using picker_inv_check_state picker_reachable_inv by blast
  moreover have "snd (set_piece_priority rnd s i v) \<longleftrightarrow> (v = 0) \<noteq> (piece_priority s i = 0)"
    by (simp add: set_piece_priority_def Let_def case_prod_unfold piece_priority_def)
  ultimately show ?thesis using set_piece_priority_priorities by blast
qed

theorem set_priority_effect_witness: "piece_priorities (fst (set_piece_priority 0 small_seeded 2 0)) = (piece_priorities small_seeded)[2 := 0]"
  using set_priority_effect [OF small_seeded_reachable, of 2 0 0] by simp

text \<open>C7: \<^verbatim>\<open>update_pieces\<close> rebuilds the buckets from scratch in every reachable state: it clears
  \<^verbatim>\<open>m_dirty\<close>, keeps the invariant, and changes neither availability nor priorities, for every
  \<^verbatim>\<open>std::random_shuffle\<close> that permutes its range.\<close>

theorem update_pieces_rebuilds:
  assumes "picker_reachable s" "\<And>st xs. mset (shuf st xs) = mset xs"
  shows "\<not> m_dirty (update_pieces shuf s) \<and> check_state (update_pieces shuf s) \<and>
    get_availability (update_pieces shuf s) = get_availability s \<and>
    piece_priorities (update_pieces shuf s) = piece_priorities s"
  using update_pieces_inv [OF picker_reachable_inv [OF assms(1)], of shuf] assms(2) picker_inv_check_state
    count_blind [THEN blind_update_pieces, of shuf s]
  by (simp add: get_availability_count piece_priorities_def)

theorem update_pieces_rebuilds_witness:
  "\<not> m_dirty (update_pieces (\<lambda>st xs. rev xs) small) \<and> check_state (update_pieces (\<lambda>st xs. rev xs) small)"
  using update_pieces_rebuilds [OF small_reachable, of "\<lambda>st xs. rev xs"] by simp

subsection \<open>The bit field\<close>

text \<open>C14: A well-formed bit field is a vector of bits: \<^verbatim>\<open>set_bit\<close>, \<^verbatim>\<open>clear_bit\<close> and
  \<^verbatim>\<open>resize(bits, val)\<close> act on the sequence of its bits as on a vector, whatever is in the memory that
  \<^verbatim>\<open>malloc\<close> and \<^verbatim>\<open>realloc\<close> return, and keep it well-formed. \<^verbatim>\<open>bitfield::count\<close>, with its table lookup per
  half byte and the loop over the last partial byte, is the number of bits that are set, and iterating
  from \<^verbatim>\<open>begin\<close> to \<^verbatim>\<open>end\<close> ends after \<^verbatim>\<open>size\<close> steps and yields every bit in order.\<close>

theorem bitfield_refines_vector:
  assumes "bf_wf b" "i < bf_size b"
  shows "bits_of (set_bit b i) = (bits_of b)[i := True] \<and> bits_of (clear_bit b i) = (bits_of b)[i := False] \<and>
    bits_of (bf_resize_val junk b n v) = vec_resize (bits_of b) n v \<and>
    bf_wf (set_bit b i) \<and> bf_wf (clear_bit b i) \<and> bf_wf (bf_resize_val junk b n v) \<and>
    bf_count b = length (filter (\<lambda>v. v) (bits_of b)) \<and>
    bf_traverse (bf_size b) b (bf_begin b) = Some (map (get_bit b) [0..<bf_size b])"
  using bfs.bits_setb bfs.bits_clrb bfs.bits_resize bfs.invar_setb bfs.invar_clrb bfs.invar_resize assms
    count_correct [of b] bf_traverse_bits [of b] by (simp add: bits_of_def)

theorem bitfield_refines_vector_witness:
  "bits_of (clear_bit small_mask 2) = (bits_of small_mask)[2 := False]"
proof -
  have "bf_wf small_mask"
    unfolding small_mask_def by (intro set_bit_wf bf_resize_val_wf bitfield_empty_wf) simp
  then show ?thesis using bitfield_refines_vector [of small_mask 2] small_mask_facts(1) by simp
qed

end
