(* ===== verification/Picker_Pick.thy ===== *)
theory Picker_Pick
  imports Picker_State
begin

text \<open>
  \<^verbatim>\<open>piece_picker::pick_pieces\<close> and the functions it is made of. What the call does not change
  (the peer's pieces, \<^verbatim>\<open>prefer_whole_pieces\<close>, the peer, its speed and the options) is the record
  \<open>pick_req\<close>; the three vectors of blocks and \<^verbatim>\<open>num_blocks\<close>, which the helpers update in place, are
  the record \<open>picks\<close>. \<open>None\<close> is undefined behaviour: the end iterator of \<^verbatim>\<open>m_downloads\<close> dereferenced,
  or a division by zero. The loop of the random order gets one unit of fuel per block asked for,
  since every turn picks a block.
\<close>

unbundle bit_operations_syntax

subsection \<open>Requests and options\<close>

record pick_req =
  rq_pieces :: bitfield
  rq_whole :: nat
  rq_peer :: nat
  rq_speed :: piece_state_t
  rq_options :: "32 word"

record picks =
  interesting_blocks :: "piece_block list"
  backup_blocks :: "piece_block list"
  backup_blocks2 :: "piece_block list"
  num_blocks :: int

definition rarest_first :: "32 word" where "rarest_first = 1"
definition reverse :: "32 word" where "reverse = 2"
definition on_parole :: "32 word" where "on_parole = 4"
definition prioritize_partials :: "32 word" where "prioritize_partials = 8"
definition sequential :: "32 word" where "sequential = 16"
definition speed_affinity :: "32 word" where "speed_affinity = 32"
definition ignore_whole_pieces :: "32 word" where "ignore_whole_pieces = 64"

abbreviation opt :: "pick_req \<Rightarrow> 32 word \<Rightarrow> bool" where
  "opt q f \<equiv> rq_options q AND f \<noteq> 0"

abbreviation mk_block :: "nat \<Rightarrow> nat \<Rightarrow> piece_block" where
  "mk_block i j \<equiv> \<lparr>piece_index = i, block_index = j\<rparr>"

definition verify_pick :: "piece_picker \<Rightarrow> piece_block list \<Rightarrow> bitfield \<Rightarrow> bool" where
  "verify_pick s picked bits \<longleftrightarrow>
     list_all (\<lambda>b. piece_index b < num_pieces s \<and> get_bit bits (piece_index b) \<and>
       \<not> pp_have (m_piece_map s ! piece_index b) \<and> \<not> pp_filtered (m_piece_map s ! piece_index b)) picked"

subsection \<open>The helpers\<close>

definition append_blocks :: "piece_block list \<Rightarrow> piece_block list \<Rightarrow> int \<Rightarrow> piece_block list \<times> int" where
  "append_blocks dst src n =
     (if src = [] then (dst, n)
      else let to_copy = min (int (length src)) n in (dst @ take (nat to_copy) src, n - to_copy))"

definition append_backup :: "picks \<Rightarrow> picks" where
  "append_backup a = (case append_blocks (interesting_blocks a) (backup_blocks a) (num_blocks a) of
     (ib, n) \<Rightarrow> a\<lparr>interesting_blocks := ib, backup_blocks := [], num_blocks := n\<rparr>)"

definition append_backup2 :: "picks \<Rightarrow> picks" where
  "append_backup2 a = (case append_blocks (interesting_blocks a) (backup_blocks2 a) (num_blocks a) of
     (ib, n) \<Rightarrow> a\<lparr>interesting_blocks := ib, backup_blocks2 := [], num_blocks := n\<rparr>)"

text \<open>\<^verbatim>\<open>requested_from\<close>, on the blocks that are left and with \<^verbatim>\<open>exclusive\<close> so far.\<close>

fun requested_from :: "nat \<Rightarrow> bool \<Rightarrow> block_info list \<Rightarrow> bool \<times> bool" where
  "requested_from peer exclusive [] = (exclusive, True)"
| "requested_from peer exclusive (info # infos) =
     (if bi_state info \<noteq> state_none \<and> bi_peer info \<noteq> peer
      then if bi_state info = state_requested \<and> bi_peer info \<noteq> 0 then (False, False)
           else requested_from peer False infos
      else requested_from peer exclusive infos)"

definition info_at :: "piece_picker \<Rightarrow> downloading_piece \<Rightarrow> nat \<Rightarrow> block_info" where
  "info_at s dp j = m_block_info s ! (dp_info dp + j)"

fun state_num :: "piece_state_t \<Rightarrow> int" where
  "state_num none = 0" | "state_num slow = 1" | "state_num medium = 2" | "state_num fast = 3"

text \<open>The loop over the blocks of a piece in \<^verbatim>\<open>add_blocks_downloading\<close>, and whether it returned.\<close>

fun abd_loop :: "piece_picker \<Rightarrow> pick_req \<Rightarrow> downloading_piece \<Rightarrow> bool \<Rightarrow> nat list \<Rightarrow> picks \<Rightarrow> picks \<times> bool" where
  "abd_loop s q dp exclusive_active [] a = (a, False)"
| "abd_loop s q dp exclusive_active (j # js) a =
     (if bi_state (info_at s dp j) \<noteq> state_none then abd_loop s q dp exclusive_active js a
      else if dp_state dp \<noteq> none \<and> dp_state dp \<noteq> rq_speed q \<and> \<not> exclusive_active \<and> opt q speed_affinity
      then if \<bar>state_num (dp_state dp) - state_num (rq_speed q)\<bar> = 1
           then if int (length (backup_blocks a)) \<ge> num_blocks a then (a, True)
                else abd_loop s q dp exclusive_active js
                       (a\<lparr>backup_blocks := backup_blocks a @ [mk_block (dp_index dp) j]\<rparr>)
           else if int (length (backup_blocks2 a)) \<ge> num_blocks a then (a, True)
                else abd_loop s q dp exclusive_active js
                       (a\<lparr>backup_blocks2 := backup_blocks2 a @ [mk_block (dp_index dp) j]\<rparr>)
      else
        let a' = a\<lparr>interesting_blocks := interesting_blocks a @ [mk_block (dp_index dp) j],
                   num_blocks := num_blocks a - 1\<rparr>
        in if rq_whole q > 0 then abd_loop s q dp exclusive_active js a'
           else if num_blocks a' \<le> 0 then (a', True)
           else abd_loop s q dp exclusive_active js a')"

definition add_blocks_downloading :: "piece_picker \<Rightarrow> pick_req \<Rightarrow> downloading_piece \<Rightarrow> picks \<Rightarrow> picks" where
  "add_blocks_downloading s q dp a =
     (if \<not> get_bit (rq_pieces q) (dp_index dp) then a
      else if pp_filtered (m_piece_map s ! dp_index dp) then a
      else
        let n = blocks_in_piece s (dp_index dp);
            (exclusive, exclusive_active) = requested_from (rq_peer q) True (map (info_at s dp) [0..<n])
        in if opt q on_parole \<and> \<not> exclusive then a
           else if rq_whole q > 0 \<and> \<not> exclusive_active
           then if int (length (backup_blocks2 a)) \<ge> num_blocks a then a
                else a\<lparr>backup_blocks2 := backup_blocks2 a @
                        map (mk_block (dp_index dp)) (filter (\<lambda>j. bi_state (info_at s dp j) = state_none) [0..<n])\<rparr>
           else case abd_loop s q dp exclusive_active [0..<n] a of
               (a', True) \<Rightarrow> a'
             | (a', False) \<Rightarrow> if num_blocks a' \<le> 0 then a'\<lparr>num_blocks := 0\<rparr> else a')"

text \<open>\<^verbatim>\<open>expand_piece\<close>: \<open>expand_down\<close> counts \<^verbatim>\<open>start + 1\<close> down, \<open>expand_up\<close> is the second loop.\<close>

fun expand_down :: "piece_picker \<Rightarrow> bitfield \<Rightarrow> nat \<Rightarrow> nat \<Rightarrow> nat" where
  "expand_down s pieces lower 0 = 0"
| "expand_down s pieces lower (Suc k) =
     (if lower < Suc k \<and> can_pick s k pieces then expand_down s pieces lower k else Suc k)"

function expand_up :: "piece_picker \<Rightarrow> bitfield \<Rightarrow> nat \<Rightarrow> nat \<Rightarrow> nat" where
  "expand_up s pieces upper e =
     (if e < upper \<and> can_pick s e pieces then expand_up s pieces upper (Suc e) else e)"
  by pat_completeness auto
termination
  by (relation "measure (\<lambda>(s, pieces, upper, e). upper - e)") auto

declare expand_up.simps [simp del]

definition expand_piece :: "piece_picker \<Rightarrow> nat \<Rightarrow> nat \<Rightarrow> bitfield \<Rightarrow> nat \<times> nat" where
  "expand_piece s piece whole_pieces pieces =
     (if whole_pieces = 0 then (piece, piece + 1)
      else let start = expand_down s pieces (piece + 1 - whole_pieces) piece
           in (start, expand_up s pieces (min (start + whole_pieces) (num_pieces s)) (piece + 1)))"

definition all_blocks :: "piece_picker \<Rightarrow> nat \<Rightarrow> piece_block list" where
  "all_blocks s k = map (mk_block k) [0..<blocks_in_piece s k]"

definition push_blocks :: "piece_block list \<Rightarrow> picks \<Rightarrow> picks" where
  "push_blocks bs a = a\<lparr>interesting_blocks := interesting_blocks a @ bs, num_blocks := num_blocks a - int (length bs)\<rparr>"

definition add_blocks :: "piece_picker \<Rightarrow> pick_req \<Rightarrow> nat list \<Rightarrow> nat \<Rightarrow> picks \<Rightarrow> picks option" where
  "add_blocks s q ignore piece a =
     (if piece \<in> set ignore then Some a
      else if pp_downloading (m_piece_map s ! piece)
      then if pp_full (m_piece_map s ! piece) then Some a
           else if opt q prioritize_partials then Some a
           else map_option (\<lambda>k. add_blocks_downloading s q (m_downloads s ! k) a) (find_dl_piece s piece)
      else
        let a' = (if rq_whole q = 0
                  then push_blocks (take (nat (num_blocks a)) (all_blocks s piece)) a
                  else let (start, end) = expand_piece s piece (rq_whole q) (rq_pieces q)
                       in push_blocks (concat (map (all_blocks s) [start..<end])) a)
        in Some (if num_blocks a' \<le> 0 then a'\<lparr>num_blocks := 0\<rparr> else a'))"

subsection \<open>\<^verbatim>\<open>pick_pieces\<close>\<close>

text \<open>
  A loop that skips some elements and returns from \<^verbatim>\<open>pick_pieces\<close> as soon as nothing more is asked
  for; the result is what has been picked and whether it returned.
\<close>

fun pick_loop :: "('a \<Rightarrow> picks \<Rightarrow> bool) \<Rightarrow> ('a \<Rightarrow> picks \<Rightarrow> picks option) \<Rightarrow> 'a list \<Rightarrow> picks \<Rightarrow> (picks \<times> bool) option" where
  "pick_loop skip f [] a = Some (a, False)"
| "pick_loop skip f (x # xs) a =
     (if skip x a then pick_loop skip f xs a
      else case f x a of
          None \<Rightarrow> None
        | Some a' \<Rightarrow> if num_blocks a' \<le> 0 then Some (a', True) else pick_loop skip f xs a')"

definition then_pick :: "(picks \<times> bool) option \<Rightarrow> (picks \<Rightarrow> (picks \<times> bool) option) \<Rightarrow> (picks \<times> bool) option" where
  "then_pick r f = (case r of None \<Rightarrow> None | Some (a, returned) \<Rightarrow> if returned then Some (a, True) else f a)"

definition or_return :: "picks \<Rightarrow> (picks \<times> bool) option" where
  "or_return a = Some (a, num_blocks a \<le> 0)"

definition pick_partials :: "piece_picker \<Rightarrow> pick_req \<Rightarrow> picks \<Rightarrow> (picks \<times> bool) option" where
  "pick_partials s q a =
     (if opt q prioritize_partials
      then then_pick (pick_loop
             (\<lambda>dp a. \<not> is_piece_free s (dp_index dp) (rq_pieces q) \<or>
                pp_full (m_piece_map s ! dp_index dp) \<and>
                int (length (backup_blocks a)) \<ge> num_blocks a \<and> int (length (backup_blocks2 a)) \<ge> num_blocks a)
             (\<lambda>dp a. Some (add_blocks_downloading s q dp a)) (m_downloads s) a)
           (\<lambda>a. then_pick (or_return (append_backup a)) (\<lambda>a. or_return (append_backup2 a)))
      else Some (a, False))"

definition pick_each :: "piece_picker \<Rightarrow> pick_req \<Rightarrow> nat list \<Rightarrow> nat list \<Rightarrow> picks \<Rightarrow> (picks \<times> bool) option" where
  "pick_each s q ignore = pick_loop (\<lambda>i a. \<not> is_piece_free s i (rq_pieces q)) (add_blocks s q ignore)"

text \<open>The positions of \<^verbatim>\<open>m_pieces\<close> in the order of the reverse traversal.\<close>

definition reverse_order :: "nat list \<Rightarrow> nat list" where
  "reverse_order B =
     concat (map (\<lambda>i. let prio = (i div 4) * 4 + 4 - 1 - (i mod 4) in
               [(if prio = 0 then 0 else B ! (prio - 1))..<B ! prio]) (rev [0..<length B]))"

definition round_boundries :: "piece_picker \<Rightarrow> piece_picker" where
  "round_boundries s = s\<lparr>m_priority_boundries :=
     vec_resize (m_priority_boundries s) (((length (m_priority_boundries s) + 4 - 1) div 4) * 4)
       (last (m_priority_boundries s))\<rparr>"

text \<open>
  The random order. The inner loop looks for the first piece from \<open>piece\<close> on, cyclically and up to
  \<^verbatim>\<open>start_piece\<close>, that can be picked and is not suggested.
\<close>

definition random_next :: "piece_picker \<Rightarrow> pick_req \<Rightarrow> nat list \<Rightarrow> nat \<Rightarrow> nat \<Rightarrow> nat option" where
  "random_next s q suggested start_piece piece =
     List.find (\<lambda>p. can_pick s p (rq_pieces q) \<and> p \<notin> set suggested)
       (if piece < start_piece then [piece..<start_piece] else [piece..<num_pieces s] @ [0..<start_piece])"

definition random_push :: "piece_picker \<Rightarrow> pick_req \<Rightarrow> picks \<Rightarrow> nat \<Rightarrow> picks" where
  "random_push s q a k =
     push_blocks (if rq_whole q = 0 then take (nat (num_blocks a)) (all_blocks s k) else all_blocks s k) a"

fun random_loop :: "nat \<Rightarrow> piece_picker \<Rightarrow> pick_req \<Rightarrow> nat list \<Rightarrow> nat \<Rightarrow> nat \<Rightarrow> picks \<Rightarrow> picks option" where
  "random_loop 0 s q suggested start_piece piece a = None"
| "random_loop (Suc fuel) s q suggested start_piece piece a =
     (if num_blocks a \<le> 0 then Some a
      else case random_next s q suggested start_piece piece of
          None \<Rightarrow> Some a
        | Some p \<Rightarrow>
            let (start, end) = expand_piece s p (rq_whole q) (rq_pieces q);
                a' = foldl (random_push s q) a [start..<end];
                piece' = (if end = num_pieces s then 0 else end)
            in if piece' = start_piece then Some a'
               else random_loop fuel s q suggested start_piece piece' a')"

text \<open>The three orders, with the picker that is left: \<^verbatim>\<open>update_pieces\<close> and the reverse order change it.\<close>

definition pick_main :: "(nat \<Rightarrow> int list \<Rightarrow> int list) \<Rightarrow> nat \<Rightarrow> piece_picker \<Rightarrow> pick_req \<Rightarrow> nat list \<Rightarrow> picks
    \<Rightarrow> piece_picker \<times> (picks \<times> bool) option" where
  "pick_main shuf rnd s q suggested a =
     (if opt q sequential
      then (s, pick_each s q suggested
              (if opt q reverse then rev [m_cursor s..<m_reverse_cursor s] else [m_cursor s..<m_reverse_cursor s]) a)
      else if opt q rarest_first
      then let s = (if m_dirty s then update_pieces shuf s else s) in
           if opt q reverse
           then let s = round_boundries s in
                (s, pick_each s q suggested
                      (map (\<lambda>p. nat (m_pieces s ! p)) (reverse_order (m_priority_boundries s))) a)
           else (s, pick_each s q suggested (map nat (m_pieces s)) a)
      else (s, if num_pieces s = 0 then None
               else case random_loop (Suc (nat (num_blocks a))) s q suggested
                           (rnd mod num_pieces s) (rnd mod num_pieces s) a of
                   None \<Rightarrow> None
                 | Some a \<Rightarrow> or_return a))"

text \<open>Once more over the full pieces, for their backup blocks only.\<close>

definition repick_full :: "piece_picker \<Rightarrow> pick_req \<Rightarrow> picks \<Rightarrow> downloading_piece \<Rightarrow> picks" where
  "repick_full s q a dp =
     (if \<not> get_bit (rq_pieces q) (dp_index dp) \<or> \<not> pp_full (m_piece_map s ! dp_index dp) then a
      else let a' = add_blocks_downloading s q dp (a\<lparr>interesting_blocks := []\<rparr>)
           in a\<lparr>backup_blocks := backup_blocks a', backup_blocks2 := backup_blocks2 a'\<rparr>)"

definition busy_blocks :: "piece_picker \<Rightarrow> pick_req \<Rightarrow> downloading_piece \<Rightarrow> piece_block list" where
  "busy_blocks s q dp =
     (if \<not> get_bit (rq_pieces q) (dp_index dp) \<or> piece_priority s (dp_index dp) = 0 then []
      else map (mk_block (dp_index dp))
             (filter (\<lambda>j. bi_state (info_at s dp j) = state_requested \<and> bi_peer (info_at s dp j) \<noteq> rq_peer q)
               [0..<blocks_in_piece s (dp_index dp)]))"

fun first_busy :: "piece_picker \<Rightarrow> pick_req \<Rightarrow> downloading_piece list \<Rightarrow> piece_block list" where
  "first_busy s q [] = []"
| "first_busy s q (dp # dps) = (if busy_blocks s q dp \<noteq> [] then busy_blocks s q dp else first_busy s q dps)"

definition pick_rest :: "nat \<Rightarrow> piece_picker \<Rightarrow> pick_req \<Rightarrow> picks \<Rightarrow> (picks \<times> bool) option" where
  "pick_rest rnd s q a =
     (let a = foldl (repick_full s q) a (m_downloads s);
          temp = first_busy s q (m_downloads s)
      in then_pick (or_return (append_backup a)) (\<lambda>a. then_pick (or_return (append_backup2 a)) (\<lambda>a.
           if opt q on_parole \<or> temp = [] then Some (a, True)
           else Some (a\<lparr>interesting_blocks := interesting_blocks a @ [temp ! (rnd mod length temp)]\<rparr>, True))))"

definition adjust_req :: "piece_picker \<Rightarrow> pick_req \<Rightarrow> nat \<Rightarrow> pick_req" where
  "adjust_req s q peers =
     (let q = (if length (m_downloads s) > peers * 3 div 2
               then q\<lparr>rq_options := rq_options q OR prioritize_partials\<rparr> else q)
      in if opt q ignore_whole_pieces then q\<lparr>rq_whole := 0\<rparr> else q)"

definition pick_pieces :: "(nat \<Rightarrow> int list \<Rightarrow> int list) \<Rightarrow> nat \<Rightarrow> nat \<Rightarrow> piece_picker \<Rightarrow> pick_req
    \<Rightarrow> piece_block list \<Rightarrow> int \<Rightarrow> nat list \<Rightarrow> nat \<Rightarrow> (piece_picker \<times> piece_block list) option" where
  "pick_pieces shuf rnd rnd2 s q ib n suggested peers =
     (let q = adjust_req s q peers;
          a = \<lparr>interesting_blocks = ib, backup_blocks = [], backup_blocks2 = [], num_blocks = n\<rparr>
      in case then_pick (pick_partials s q a) (pick_each s q [] suggested) of
           None \<Rightarrow> None
         | Some (a, True) \<Rightarrow> Some (s, interesting_blocks a)
         | Some (a, False) \<Rightarrow>
             (case pick_main shuf rnd s q suggested a of (s, r) \<Rightarrow>
                map_option (\<lambda>(a, _). (s, interesting_blocks a)) (then_pick r (pick_rest rnd2 s q))))"

end
