(* ===== verification/Picker_Choice.thy ===== *)
theory Picker_Choice
  imports Picker_Pick "HOL-Library.Code_Target_Numeral"
begin

text \<open>
  What \<^verbatim>\<open>pick_pieces\<close> promises: the blocks it picks are blocks of pieces the peer has and we want,
  that nobody has requested; it picks no more than it was asked for when whole pieces are not
  preferred; and if it picks fewer, it has picked every block of every untouched piece.
\<close>

subsection \<open>One step\<close>

definition good_block :: "piece_picker \<Rightarrow> pick_req \<Rightarrow> piece_block \<Rightarrow> bool" where
  "good_block s q b \<longleftrightarrow>
     valid_block s b \<and> is_piece_free s (piece_index b) (rq_pieces q) \<and>
     (\<forall>d \<in> set (m_downloads s). dp_index d = piece_index b \<longrightarrow> bi_state (info_at s d (block_index b)) = state_none)"

definition backups_ok :: "piece_picker \<Rightarrow> pick_req \<Rightarrow> picks \<Rightarrow> bool" where
  "backups_ok s q a \<longleftrightarrow> (\<forall>b \<in> set (backup_blocks a) \<union> set (backup_blocks2 a). good_block s q b)"

text \<open>\<open>picked s q a a'\<close>: from \<open>a\<close> to \<open>a'\<close>, only good blocks have been added, and they have been counted.\<close>

definition picked :: "piece_picker \<Rightarrow> pick_req \<Rightarrow> picks \<Rightarrow> picks \<Rightarrow> bool" where
  "picked s q a a' \<longleftrightarrow> (backups_ok s q a \<longrightarrow> backups_ok s q a' \<and>
     (\<exists>bs. interesting_blocks a' = interesting_blocks a @ bs \<and> (\<forall>b \<in> set bs. good_block s q b) \<and>
       num_blocks a \<le> num_blocks a' + int (length bs) \<and>
       (rq_whole q = 0 \<and> 0 \<le> num_blocks a \<longrightarrow>
          num_blocks a' + int (length bs) = num_blocks a \<and> 0 \<le> num_blocks a')))"

lemma picked_refl [simp]: "picked s q a a"
  by (simp add: picked_def)

lemma picked_trans [trans]:
  assumes "picked s q a b" "picked s q b c"
  shows "picked s q a c"
  unfolding picked_def
proof
  assume a: "backups_ok s q a"
  obtain bs where b: "backups_ok s q b" "interesting_blocks b = interesting_blocks a @ bs" "\<forall>b \<in> set bs. good_block s q b"
    "num_blocks a \<le> num_blocks b + int (length bs)"
    "rq_whole q = 0 \<and> 0 \<le> num_blocks a \<longrightarrow> num_blocks b + int (length bs) = num_blocks a \<and> 0 \<le> num_blocks b"
    using assms(1) a unfolding picked_def by blast
  obtain cs where c: "backups_ok s q c" "interesting_blocks c = interesting_blocks b @ cs" "\<forall>b \<in> set cs. good_block s q b"
    "num_blocks b \<le> num_blocks c + int (length cs)"
    "rq_whole q = 0 \<and> 0 \<le> num_blocks b \<longrightarrow> num_blocks c + int (length cs) = num_blocks b \<and> 0 \<le> num_blocks c"
    using assms(2) b(1) unfolding picked_def by blast
  show "backups_ok s q c \<and> (\<exists>bs. interesting_blocks c = interesting_blocks a @ bs \<and> (\<forall>b \<in> set bs. good_block s q b) \<and>
       num_blocks a \<le> num_blocks c + int (length bs) \<and>
       (rq_whole q = 0 \<and> 0 \<le> num_blocks a \<longrightarrow> num_blocks c + int (length bs) = num_blocks a \<and> 0 \<le> num_blocks c))"
    using b c by (intro conjI exI [of _ "bs @ cs"]) auto
qed

lemma picked_backup:
  assumes "\<forall>b \<in> set bs. good_block s q b"
  shows "picked s q a (a\<lparr>backup_blocks := backup_blocks a @ bs\<rparr>)" "picked s q a (a\<lparr>backup_blocks2 := backup_blocks2 a @ bs\<rparr>)"
  using assms by (auto simp: picked_def backups_ok_def)

lemma picked_push:
  assumes "\<forall>b \<in> set bs. good_block s q b" "rq_whole q = 0 \<Longrightarrow> int (length bs) \<le> num_blocks a"
  shows "picked s q a (push_blocks bs a)"
  using assms by (auto simp: picked_def backups_ok_def push_blocks_def)

lemma picked_floor:
  "picked s q a b \<Longrightarrow> 0 < num_blocks a \<Longrightarrow> picked s q a (if num_blocks b \<le> 0 then b\<lparr>num_blocks := 0\<rparr> else b)"
  unfolding picked_def by (auto simp: backups_ok_def)

lemma picked_append:
  assumes "0 \<le> num_blocks a"
  shows "picked s q a (append_backup a)" "picked s q a (append_backup2 a)"
  using assms by (auto simp: picked_def append_backup_def append_backup2_def append_blocks_def Let_def backups_ok_def
      min_def dest: in_set_takeD)

lemma backups_ok_picked: "picked s q a b \<Longrightarrow> backups_ok s q a \<Longrightarrow> backups_ok s q b"
  by (simp add: picked_def)

lemma picked_subset: "picked s q a b \<Longrightarrow> backups_ok s q a \<Longrightarrow> set (interesting_blocks a) \<subseteq> set (interesting_blocks b)"
  by (auto simp: picked_def)

subsection \<open>Pieces being downloaded\<close>

lemma unique_download:
  assumes "dl_inv s" "d \<in> set (m_downloads s)" "d' \<in> set (m_downloads s)" "dp_index d' = dp_index d"
  shows "d' = d"
proof -
  have "sorted_wrt (<) (map dp_index (m_downloads s))" using assms(1) by (simp add: dl_inv_def dl_core_def)
  then have "distinct (map dp_index (m_downloads s))" by (simp add: strict_sorted_iff)
  then show ?thesis using assms(2-4) by (meson distinct_map inj_onD)
qed

lemma download_good:
  assumes "dl_inv s" "d \<in> set (m_downloads s)" "get_bit (rq_pieces q) (dp_index d)" "\<not> pp_filtered (m_piece_map s ! dp_index d)"
    "j < blocks_in_piece s (dp_index d)" "bi_state (info_at s d j) = state_none"
  shows "good_block s q (mk_block (dp_index d) j)"
proof -
  have i: "dp_index d < length (m_piece_map s)" using assms(1,2) by (simp add: dl_inv_def dl_core_def)
  then have "\<not> pp_have (m_piece_map s ! dp_index d)"
    using assms(1,2) unfolding dl_inv_def flags_ok_def by blast
  then show ?thesis using assms i unique_download [OF assms(1,2)]
    by (auto simp: good_block_def is_piece_free_def num_pieces_def)
qed

lemma abd_loop_picked:
  assumes "\<And>j. j \<in> set js \<Longrightarrow> bi_state (info_at s d j) = state_none \<Longrightarrow> good_block s q (mk_block (dp_index d) j)"
    "rq_whole q = 0 \<Longrightarrow> 0 < num_blocks a"
  shows "picked s q a (fst (abd_loop s q d ea js a))"
  using assms
proof (induction js arbitrary: a)
  case (Cons j js)
  let ?b = "mk_block (dp_index d) j"
  have IH: "picked s q b (fst (abd_loop s q d ea js b))" if "rq_whole q = 0 \<Longrightarrow> 0 < num_blocks b" for b
    using Cons.IH [of b] Cons.prems(1) that by simp
  show ?case
  proof (cases "bi_state (info_at s d j) = state_none")
    case True
    then have g: "\<forall>b \<in> set [?b]. good_block s q b" using Cons.prems(1) by simp
    have p: "picked s q a (a\<lparr>interesting_blocks := interesting_blocks a @ [?b], num_blocks := num_blocks a - 1\<rparr>)"
    proof -
      have "int (length [?b]) \<le> num_blocks a" if "rq_whole q = 0" using Cons.prems(2) that by simp
      then show ?thesis using picked_push [OF g, of a] by (simp add: push_blocks_def)
    qed
    let ?r = "\<lambda>b. fst (abd_loop s q d ea js b)"
    have "picked s q a (?r (a\<lparr>backup_blocks := backup_blocks a @ [?b]\<rparr>))"
      by (rule picked_trans [OF picked_backup(1) [OF g] IH]) (simp add: Cons.prems(2))
    moreover have "picked s q a (?r (a\<lparr>backup_blocks2 := backup_blocks2 a @ [?b]\<rparr>))"
      by (rule picked_trans [OF picked_backup(2) [OF g] IH]) (simp add: Cons.prems(2))
    moreover have "(if rq_whole q = 0 \<and> num_blocks a \<le> 1 then True else
        picked s q a (?r (a\<lparr>interesting_blocks := interesting_blocks a @ [?b], num_blocks := num_blocks a - 1\<rparr>)))"
      using picked_trans [OF p IH] by auto
    ultimately show ?thesis using True p
      by (cases "rq_whole q = 0 \<and> num_blocks a \<le> 1") (auto simp: Let_def)
  qed (use IH Cons.prems(2) in simp)
qed simp

lemma add_blocks_downloading_picked:
  assumes "dl_inv s" "d \<in> set (m_downloads s)" "0 < num_blocks a"
  shows "picked s q a (add_blocks_downloading s q d a)"
proof (cases "get_bit (rq_pieces q) (dp_index d) \<and> \<not> pp_filtered (m_piece_map s ! dp_index d)")
  case True
  define n where "n = blocks_in_piece s (dp_index d)"
  obtain ex ea where r: "requested_from (rq_peer q) True (map (info_at s d) [0..<n]) = (ex, ea)" by fastforce
  have g: "good_block s q (mk_block (dp_index d) j)" if "j < n" "bi_state (info_at s d j) = state_none" for j
    using download_good [OF assms(1,2), of q j] True that by (simp add: n_def)
  obtain a' ret where l: "abd_loop s q d ea [0..<n] a = (a', ret)" by fastforce
  have p: "picked s q a a'" using abd_loop_picked [of "[0..<n]" s d q a ea] g assms(3) l by simp
  have b: "picked s q a (a\<lparr>backup_blocks2 := backup_blocks2 a @
      map (mk_block (dp_index d)) (filter (\<lambda>j. bi_state (info_at s d j) = state_none) [0..<n])\<rparr>)"
    using g by (intro picked_backup) auto
  show ?thesis
    using True p b picked_floor [OF p assms(3)] unfolding add_blocks_downloading_def n_def [symmetric] Let_def r prod.case l
    by (auto split: bool.split)
qed (auto simp: add_blocks_downloading_def)

subsection \<open>Untouched pieces\<close>

lemma expand_down_bounds:
  "expand_down s pieces lower k \<le> k \<and> (\<forall>i. expand_down s pieces lower k \<le> i \<and> i < k \<longrightarrow> can_pick s i pieces)"
proof (induction k)
  case (Suc k)
  then show ?case by (auto simp: less_Suc_eq)
qed simp

lemma expand_up_bounds:
  "e \<le> expand_up s pieces upper e \<and> expand_up s pieces upper e \<le> max e upper \<and>
   (\<forall>i. e \<le> i \<and> i < expand_up s pieces upper e \<longrightarrow> can_pick s i pieces)"
proof (induction s pieces upper e rule: expand_up.induct)
  case (1 s pieces upper e)
  show ?case
  proof (cases "e < upper \<and> can_pick s e pieces")
    case True
    then have eq: "expand_up s pieces upper e = expand_up s pieces upper (Suc e)" by (subst expand_up.simps) simp
    show ?thesis unfolding eq using 1 [OF True] True by (metis Suc_leI Suc_le_mono le_SucI le_eq_less_or_eq max.absorb2 max.coboundedI2 not_less_eq_eq)
  next
    case False
    then have "expand_up s pieces upper e = e" by (subst expand_up.simps) auto
    then show ?thesis by auto
  qed
qed

lemma expand_piece_bounds:
  assumes "expand_piece s p whole pieces = (start, end)" "can_pick s p pieces" "p < num_pieces s"
  shows "start \<le> p" "p < end" "end \<le> num_pieces s" "\<And>k. start \<le> k \<Longrightarrow> k < end \<Longrightarrow> can_pick s k pieces"
proof -
  have "start \<le> p \<and> p < end \<and> end \<le> num_pieces s \<and> (\<forall>k. start \<le> k \<and> k < end \<longrightarrow> can_pick s k pieces)"
  proof (cases "whole = 0")
    case True
    then have "start = p" "end = Suc p" using assms(1) by (simp_all add: expand_piece_def)
    then show ?thesis using assms(2,3) by (auto simp: less_Suc_eq)
  next
    case False
    then have se: "start = expand_down s pieces (p + 1 - whole) p"
      "end = expand_up s pieces (min (start + whole) (num_pieces s)) (p + 1)"
      using assms(1) by (auto simp: expand_piece_def Let_def)
    have d: "start \<le> p" "\<And>i. start \<le> i \<Longrightarrow> i < p \<Longrightarrow> can_pick s i pieces"
      using expand_down_bounds [of s pieces "p + 1 - whole" p] unfolding se(1) by blast+
    have u: "p + 1 \<le> end" "end \<le> max (p + 1) (min (start + whole) (num_pieces s))"
      "\<And>i. p + 1 \<le> i \<Longrightarrow> i < end \<Longrightarrow> can_pick s i pieces"
      using expand_up_bounds [of "p + 1" s pieces "min (start + whole) (num_pieces s)"] unfolding se(2) [symmetric] by blast+
    have "can_pick s k pieces" if "start \<le> k" "k < end" for k
      using d(2) [of k] u(3) [of k] assms(2) that by (cases k p rule: linorder_cases) auto
    then show ?thesis using d(1) u(1,2) assms(3) by auto
  qed
  then show "start \<le> p" "p < end" "end \<le> num_pieces s" "\<And>k. start \<le> k \<Longrightarrow> k < end \<Longrightarrow> can_pick s k pieces" by blast+
qed

lemma can_pick_good:
  assumes "dl_inv s" "can_pick s k (rq_pieces q)" "k < num_pieces s"
  shows "\<forall>b \<in> set (all_blocks s k). good_block s q b"
proof -
  have "dp_index d \<noteq> k" if "d \<in> set (m_downloads s)" for d
    using assms that unfolding dl_inv_def flags_ok_def can_pick_def num_pieces_def by blast
  then show ?thesis using assms(2,3) by (auto simp: all_blocks_def good_block_def can_pick_def is_piece_free_def)
qed

lemma expand_blocks:
  assumes "dl_inv s" "expand_piece s p whole (rq_pieces q) = (start, end)" "can_pick s p (rq_pieces q)" "p < num_pieces s"
  shows "\<forall>b \<in> set (concat (map (all_blocks s) [start..<end])). good_block s q b"
    "set (all_blocks s p) \<subseteq> set (concat (map (all_blocks s) [start..<end]))"
  using can_pick_good [OF assms(1)] expand_piece_bounds [OF assms(2-4)] by fastforce+

lemma can_pick_free: "can_pick s p pieces \<longleftrightarrow> is_piece_free s p pieces \<and> \<not> pp_downloading (m_piece_map s ! p)"
  by (auto simp: can_pick_def is_piece_free_def)

lemma add_blocks_picked:
  assumes "dl_inv s" "p < num_pieces s" "is_piece_free s p (rq_pieces q)" "0 < num_blocks a"
  shows "\<exists>a'. add_blocks s q ignore p a = Some a' \<and> picked s q a a' \<and>
    (p \<notin> set ignore \<and> can_pick s p (rq_pieces q) \<and> 0 < num_blocks a' \<longrightarrow> set (all_blocks s p) \<subseteq> set (interesting_blocks a'))"
proof (cases "p \<in> set ignore \<or> pp_downloading (m_piece_map s ! p)")
  case True
  have "\<exists>k < length (m_downloads s). find_dl_piece s p = Some k" if "pp_downloading (m_piece_map s ! p)"
    using find_dl_piece_downloading [OF assms(1), of p] assms(2) that unfolding num_pieces_def by metis
  then show ?thesis
    using True add_blocks_downloading_picked [OF assms(1) nth_mem assms(4)] by (auto simp: add_blocks_def can_pick_def)
next
  case False
  then have c: "can_pick s p (rq_pieces q)" using assms(3) by (simp add: can_pick_free)
  obtain st en where e: "expand_piece s p (rq_whole q) (rq_pieces q) = (st, en)" by fastforce
  define bs where "bs = (if rq_whole q = 0 then take (nat (num_blocks a)) (all_blocks s p) else concat (map (all_blocks s) [st..<en]))"
  define a' where "a' = push_blocks bs a"
  have g: "\<forall>b \<in> set bs. good_block s q b"
    using can_pick_good [OF assms(1) c assms(2)] expand_blocks(1) [OF assms(1) e c assms(2)]
    by (auto simp: bs_def dest: in_set_takeD)
  have r: "add_blocks s q ignore p a = Some (if num_blocks a' \<le> 0 then a'\<lparr>num_blocks := 0\<rparr> else a')"
    using False by (simp add: add_blocks_def a'_def bs_def e Let_def)
  have p: "picked s q a a'"
    unfolding a'_def by (rule picked_push [OF g]) (use assms(4) in \<open>simp add: bs_def\<close>)
  have "set (all_blocks s p) \<subseteq> set (interesting_blocks a')" if "0 < num_blocks a'"
  proof (cases "rq_whole q = 0")
    case True
    then have "length (all_blocks s p) < nat (num_blocks a)"
      using that assms(4) by (auto simp: a'_def push_blocks_def bs_def min_def split: if_splits)
    then show ?thesis using True by (simp add: a'_def push_blocks_def bs_def)
  next
    case False
    then show ?thesis using expand_blocks(2) [OF assms(1) e c assms(2)] by (auto simp: a'_def push_blocks_def bs_def)
  qed
  then show ?thesis using r picked_floor [OF p assms(4)] by auto
qed

subsection \<open>The loops\<close>

lemma pick_loop_picked:
  assumes "0 < num_blocks a" "\<And>x a. x \<in> set xs \<Longrightarrow> 0 < num_blocks a \<Longrightarrow> \<not> skip x a \<Longrightarrow> \<exists>a'. f x a = Some a' \<and> picked s q a a'"
  shows "\<exists>a' r. pick_loop skip f xs a = Some (a', r) \<and> picked s q a a' \<and> r = (num_blocks a' \<le> 0)"
  using assms
proof (induction xs arbitrary: a)
  case (Cons x xs)
  have IH: "\<exists>a' r. pick_loop skip f xs b = Some (a', r) \<and> picked s q b a' \<and> r = (num_blocks a' \<le> 0)" if "0 < num_blocks b" for b
    using Cons.IH [OF that] Cons.prems(2) by simp
  show ?case
  proof (cases "skip x a")
    case False
    then obtain a' where a': "f x a = Some a'" "picked s q a a'" using Cons.prems by auto
    then show ?thesis using IH [of a'] picked_trans [OF a'(2)] False by (cases "num_blocks a' \<le> 0") (auto simp: not_le)
  qed (use IH [OF Cons.prems(1)] in simp)
qed simp

text \<open>A loop that does not return has handled every element that it never skips.\<close>

lemma pick_loop_covers:
  assumes "pick_loop skip f xs a = Some (a', False)" "x \<in> set xs" "0 < num_blocks a" "backups_ok s q a"
    and f: "\<And>x a. x \<in> set xs \<Longrightarrow> 0 < num_blocks a \<Longrightarrow> \<not> skip x a \<Longrightarrow> \<exists>a'. f x a = Some a' \<and> picked s q a a'"
    and x: "\<And>a b. 0 < num_blocks a \<Longrightarrow> \<not> skip x a \<and> (f x a = Some b \<and> 0 < num_blocks b \<longrightarrow> B \<subseteq> set (interesting_blocks b))"
  shows "B \<subseteq> set (interesting_blocks a')"
  using assms(1-5)
proof (induction xs arbitrary: a)
  case (Cons y xs)
  show ?case
  proof (cases "skip y a")
    case True
    then have "y \<noteq> x" using x [OF Cons.prems(3)] by blast
    then show ?thesis using Cons.IH [of a] Cons.prems True by simp
  next
    case False
    then obtain b where b: "f y a = Some b" "picked s q a b" using Cons.prems(3,5) by auto
    then have n: "0 < num_blocks b" "pick_loop skip f xs b = Some (a', False)"
      using Cons.prems(1) False by (auto split: if_splits)
    have ok: "backups_ok s q b" using backups_ok_picked [OF b(2)] Cons.prems(4) .
    show ?thesis
    proof (cases "x \<in> set xs")
      case True
      then show ?thesis using Cons.IH [OF n(2) True n(1) ok] Cons.prems(5) by simp
    next
      case False
      then have "B \<subseteq> set (interesting_blocks b)" using x [OF Cons.prems(3), of b] b(1) n(1) Cons.prems(2) by auto
      moreover have "picked s q b a'" using pick_loop_picked [of b xs skip f s q] n Cons.prems(5) by auto
      ultimately show ?thesis using picked_subset ok by blast
    qed
  qed
qed simp

subsection \<open>The random order\<close>

lemma find_upt_Some: "List.find P [a..<b] = Some p \<Longrightarrow> a \<le> p \<and> p < b \<and> P p \<and> (\<forall>x. a \<le> x \<and> x < p \<longrightarrow> \<not> P x)"
proof -
  assume "List.find P [a..<b] = Some p"
  then obtain i where i: "i < b - a" "P (a + i)" "p = a + i" "\<forall>j < i. \<not> P ([a..<b] ! j)"
    by (auto simp: find_Some_iff)
  have "\<not> P x" if "a \<le> x" "x < p" for x
    using i(1,3,4) that by (auto dest!: spec [of _ "x - a"])
  then show ?thesis using i(1-3) by auto
qed

lemma find_upt_None: "List.find P [a..<b] = None \<longleftrightarrow> (\<forall>x. a \<le> x \<and> x < b \<longrightarrow> \<not> P x)"
  by (auto simp: find_None_iff)

lemma find_append: "List.find P (xs @ ys) = (case List.find P xs of None \<Rightarrow> List.find P ys | Some x \<Rightarrow> Some x)"
  by (induction xs) auto

text \<open>The pieces between the start and the current piece, cyclically.\<close>

definition behind :: "nat \<Rightarrow> nat \<Rightarrow> nat \<Rightarrow> bool" where
  "behind start piece x \<longleftrightarrow> (if start \<le> piece then start \<le> x \<and> x < piece else start \<le> x \<or> x < piece)"

lemma random_next_turn:
  assumes "random_next s q sug start piece = r" "start < num_pieces s" "piece < num_pieces s"
    and ok: "ok = (\<lambda>p. can_pick s p (rq_pieces q) \<and> p \<notin> set sug)"
  shows "r = None \<Longrightarrow> x < num_pieces s \<Longrightarrow> behind start piece x \<or> \<not> ok x"
    "r = Some p \<Longrightarrow> p < num_pieces s \<and> ok p"
    "r = Some p \<Longrightarrow> p < e \<Longrightarrow> e \<le> num_pieces s \<Longrightarrow> x < num_pieces s \<Longrightarrow>
       (e = num_pieces s \<longrightarrow> piece' = 0) \<and> (e < num_pieces s \<longrightarrow> piece' = e) \<Longrightarrow>
       behind start piece' x \<or> piece' = start \<Longrightarrow> behind start piece x \<or> \<not> ok x \<or> p \<le> x \<and> x < e"
proof -
  let ?xs = "if piece < start then [piece..<start] else [piece..<num_pieces s] @ [0..<start]"
  have f: "List.find ok ?xs = r" using assms(1) by (simp add: random_next_def ok)
  show "r = None \<Longrightarrow> x < num_pieces s \<Longrightarrow> behind start piece x \<or> \<not> ok x"
    using f assms(2,3) by (auto simp: behind_def find_append find_upt_None split: if_splits option.splits) (meson not_less)
  have c: "piece \<le> p \<and> p < start \<and> ok p \<and> (\<forall>x. piece \<le> x \<and> x < p \<longrightarrow> \<not> ok x) \<or>
      start \<le> piece \<and> piece \<le> p \<and> p < num_pieces s \<and> ok p \<and> (\<forall>x. piece \<le> x \<and> x < p \<longrightarrow> \<not> ok x) \<or>
      start \<le> piece \<and> p < start \<and> ok p \<and> (\<forall>x. piece \<le> x \<and> x < num_pieces s \<or> x < p \<longrightarrow> \<not> ok x)" if "r = Some p"
  proof (cases "piece < start")
    case True
    then show ?thesis using f find_upt_Some [of ok piece start p] that by simp
  next
    case False
    then have "List.find ok [piece..<num_pieces s] = Some p \<or>
        List.find ok [piece..<num_pieces s] = None \<and> List.find ok [0..<start] = Some p"
      using f that by (auto simp: find_append split: option.splits)
    then show ?thesis using find_upt_Some [of ok piece "num_pieces s" p] find_upt_Some [of ok 0 start p] False
      by (auto simp: find_upt_None)
  qed
  show "r = Some p \<Longrightarrow> p < num_pieces s \<and> ok p" using c assms(2) by auto
  show "r = Some p \<Longrightarrow> p < e \<Longrightarrow> e \<le> num_pieces s \<Longrightarrow> x < num_pieces s \<Longrightarrow>
       (e = num_pieces s \<longrightarrow> piece' = 0) \<and> (e < num_pieces s \<longrightarrow> piece' = e) \<Longrightarrow>
       behind start piece' x \<or> piece' = start \<Longrightarrow> behind start piece x \<or> \<not> ok x \<or> p \<le> x \<and> x < e"
  proof (rule ccontr)
    assume a: "r = Some p" "p < e" "e \<le> num_pieces s" "x < num_pieces s"
      "(e = num_pieces s \<longrightarrow> piece' = 0) \<and> (e < num_pieces s \<longrightarrow> piece' = e)"
      "behind start piece' x \<or> piece' = start" "\<not> (behind start piece x \<or> \<not> ok x \<or> p \<le> x \<and> x < e)"
    have b: "\<not> behind start piece x" "ok x" "x < p \<or> e \<le> x" using a(7) by auto
    have pc: "e = num_pieces s \<and> piece' = 0 \<or> e < num_pieces s \<and> piece' = e" using a(3,5) by linarith
    from c [OF a(1)] show False
    proof (elim disjE conjE)
      assume h: "piece \<le> p" "p < start" "\<forall>x. piece \<le> x \<and> x < p \<longrightarrow> \<not> ok x"
      have "piece \<le> x" "x < start" using b(1) h(1,2) by (auto simp: behind_def split: if_splits)
      then have "e \<le> x" using b(2,3) h(3) by auto
      then show False using a(6) pc \<open>x < start\<close> assms(2) by (auto simp: behind_def split: if_splits)
    next
      assume h: "start \<le> piece" "piece \<le> p" "\<forall>x. piece \<le> x \<and> x < p \<longrightarrow> \<not> ok x"
      have x: "x < start \<or> piece \<le> x" using b(1) h(1) by (auto simp: behind_def)
      then have "x < start \<or> e \<le> x" using b(2,3) h(3) by auto
      then show False using a(2,4,6) pc h(1,2) by (auto simp: behind_def split: if_splits)
    next
      assume h: "start \<le> piece" "p < start" "\<forall>x. piece \<le> x \<and> x < num_pieces s \<or> x < p \<longrightarrow> \<not> ok x"
      have x: "x < start \<or> piece \<le> x" using b(1) h(1) by (auto simp: behind_def)
      then have "x < start" "e \<le> x" using b(2,3) h(3) a(4) by auto
      then show False using a(6) pc assms(2) by (auto simp: behind_def split: if_splits)
    qed
  qed
qed

lemma push_push: "push_blocks ys (push_blocks xs a) = push_blocks (xs @ ys) a"
  by (simp add: push_blocks_def)

lemma push_Nil: "push_blocks [] a = a"
  by (simp add: push_blocks_def)

lemma random_push_whole:
  "rq_whole q > 0 \<Longrightarrow> foldl (random_push s q) (push_blocks xs a) ks = push_blocks (xs @ concat (map (all_blocks s) ks)) a"
  by (induction ks arbitrary: xs) (simp_all add: random_push_def push_push)

lemma random_turn:
  assumes "dl_inv s" "p < num_pieces s" "can_pick s p (rq_pieces q)" "0 < num_blocks a"
    and e: "expand_piece s p (rq_whole q) (rq_pieces q) = (start, end)"
  defines "a' \<equiv> foldl (random_push s q) a [start..<end]"
  shows "picked s q a a'"
    and "0 < num_blocks a' \<Longrightarrow> p \<le> x \<Longrightarrow> x < end \<Longrightarrow> set (all_blocks s x) \<subseteq> set (interesting_blocks a')"
    and "0 < blocks_in_piece s p \<Longrightarrow> num_blocks a' < num_blocks a"
proof -
  define bs where "bs = (if rq_whole q = 0 then take (nat (num_blocks a)) (all_blocks s p) else concat (map (all_blocks s) [start..<end]))"
  note b = expand_piece_bounds [OF e assms(3,2)]
  have one: "start = p \<and> end = Suc p" if "rq_whole q = 0" using e that by (simp add: expand_piece_def)
  have a': "a' = push_blocks bs a"
    using one random_push_whole [of q s "[]" a "[start..<end]"]
    by (cases "rq_whole q = 0") (simp_all add: a'_def bs_def random_push_def push_Nil)
  have g: "\<forall>b \<in> set bs. good_block s q b"
    using can_pick_good [OF assms(1,3,2)] expand_blocks(1) [OF assms(1) e assms(3,2)] by (auto simp: bs_def dest: in_set_takeD)
  show "picked s q a a'"
    unfolding a' by (rule picked_push [OF g]) (use assms(4) in \<open>simp add: bs_def\<close>)
  show "set (all_blocks s x) \<subseteq> set (interesting_blocks a')" if x: "0 < num_blocks a'" "p \<le> x" "x < end" for x
  proof (cases "rq_whole q = 0")
    case True
    then have "length (all_blocks s p) < nat (num_blocks a)"
      using x(1) assms(4) by (auto simp: a' push_blocks_def bs_def min_def split: if_splits)
    moreover have "x = p" using one [OF True] x by simp
    ultimately show ?thesis using True by (simp add: a' push_blocks_def bs_def)
  next
    case False
    then show ?thesis using b x by (fastforce simp: a' push_blocks_def bs_def)
  qed
  show "num_blocks a' < num_blocks a" if "0 < blocks_in_piece s p"
  proof -
    have "all_blocks s p \<noteq> []" using that by (simp add: all_blocks_def)
    then have "bs \<noteq> []" using assms(4) b(1,2) by (auto simp: bs_def)
    then show ?thesis by (simp add: a' push_blocks_def)
  qed
qed

lemma random_loop_picked:
  assumes "dl_inv s" "start < num_pieces s" "\<forall>k < num_pieces s. 0 < blocks_in_piece s k"
  shows "piece < num_pieces s \<Longrightarrow> nat (num_blocks a) < fuel \<Longrightarrow> backups_ok s q a \<Longrightarrow>
    \<forall>x < num_pieces s. behind start piece x \<and> can_pick s x (rq_pieces q) \<and> x \<notin> set sug \<longrightarrow>
      set (all_blocks s x) \<subseteq> set (interesting_blocks a) \<Longrightarrow>
    \<exists>a'. random_loop fuel s q sug start piece a = Some a' \<and> picked s q a a' \<and>
      (0 < num_blocks a' \<longrightarrow> (\<forall>x < num_pieces s. can_pick s x (rq_pieces q) \<and> x \<notin> set sug \<longrightarrow>
         set (all_blocks s x) \<subseteq> set (interesting_blocks a')))"
proof (induction fuel arbitrary: piece a)
  case (Suc fuel)
  define ok where "ok = (\<lambda>p. can_pick s p (rq_pieces q) \<and> p \<notin> set sug)"
  have cov: "set (all_blocks s x) \<subseteq> set (interesting_blocks a)" if "x < num_pieces s" "behind start piece x" "ok x" for x
    using Suc.prems(4) that by (auto simp: ok_def)
  obtain r where r: "random_next s q sug start piece = r" by blast
  note nx = random_next_turn [OF r assms(2) Suc.prems(1) ok_def]
  show ?case
  proof (cases "num_blocks a \<le> 0")
    case False
    then have pos: "0 < num_blocks a" by simp
    show ?thesis
    proof (cases r)
      case None
      have "set (all_blocks s x) \<subseteq> set (interesting_blocks a)" if "x < num_pieces s" "ok x" for x
        using nx(1) [OF None that(1)] cov [of x] that by blast
      then show ?thesis using None r pos by (auto simp: ok_def)
    next
      case (Some p)
      have p: "p < num_pieces s" "can_pick s p (rq_pieces q)" using nx(2) [OF Some] by (auto simp: ok_def)
      obtain st en where e: "expand_piece s p (rq_whole q) (rq_pieces q) = (st, en)" by fastforce
      define a' where "a' = foldl (random_push s q) a [st..<en]"
      define piece' where "piece' = (if en = num_pieces s then 0 else en)"
      note eb = expand_piece_bounds [OF e p(2,1)]
      note T = random_turn [OF assms(1) p pos e, folded a'_def]
      have ok': "backups_ok s q a'" by (rule backups_ok_picked [OF T(1) Suc.prems(3)])
      have cov': "set (all_blocks s x) \<subseteq> set (interesting_blocks a')"
        if x: "x < num_pieces s" "behind start piece' x \<or> piece' = start" "ok x" "0 < num_blocks a'" for x
        using nx(3) [OF Some eb(2,3) x(1), of piece'] x cov [of x] T(2) [OF x(4), of x] picked_subset [OF T(1) Suc.prems(3)]
          eb(3) by (fastforce simp: piece'_def)
      show ?thesis
      proof (cases "piece' = start")
        case True
        then show ?thesis using r Some pos e T(1) cov' by (auto simp: a'_def piece'_def ok_def Let_def)
      next
        case False
        have "piece' < num_pieces s" using eb(3) p(1) by (auto simp: piece'_def)
        moreover have "nat (num_blocks a') < fuel" using T(3) assms(3) p(1) Suc.prems(2) pos by auto
        moreover have "\<exists>b. random_loop fuel s q sug start piece' a' = Some b \<and> picked s q a' b \<and>
            (0 < num_blocks b \<longrightarrow> (\<forall>x < num_pieces s. ok x \<longrightarrow> set (all_blocks s x) \<subseteq> set (interesting_blocks b)))"
        proof (cases "0 < num_blocks a'")
          case True
          then have "\<forall>x < num_pieces s. behind start piece' x \<and> can_pick s x (rq_pieces q) \<and> x \<notin> set sug \<longrightarrow>
              set (all_blocks s x) \<subseteq> set (interesting_blocks a')" using cov' by (auto simp: ok_def)
          from Suc.IH [OF calculation ok' this] show ?thesis by (simp add: ok_def)
        next
          case False
          then have "random_loop fuel s q sug start piece' a' = Some a'" using calculation(2) by (cases fuel) auto
          then show ?thesis using False by auto
        qed
        ultimately show ?thesis using r Some pos e False picked_trans [OF T(1)]
          by (auto simp: a'_def piece'_def ok_def Let_def)
      qed
    qed
  qed auto
qed simp

subsection \<open>The phases\<close>

definition step_ok :: "piece_picker \<Rightarrow> pick_req \<Rightarrow> picks \<Rightarrow> (picks \<times> bool) option \<Rightarrow> bool" where
  "step_ok s q a r \<longleftrightarrow> (\<exists>a'. r = Some (a', num_blocks a' \<le> 0) \<and> picked s q a a')"

lemma step_ok_then:
  assumes "step_ok s q a r" "\<And>b. picked s q a b \<Longrightarrow> 0 < num_blocks b \<Longrightarrow> r = Some (b, False) \<Longrightarrow> step_ok s q b (f b)"
  shows "step_ok s q a (then_pick r f)"
proof -
  obtain b where b: "r = Some (b, num_blocks b \<le> 0)" "picked s q a b" using assms(1) by (auto simp: step_ok_def)
  show ?thesis
  proof (cases "num_blocks b \<le> 0")
    case False
    then have "step_ok s q b (f b)" using assms(2) [OF b(2)] b(1) by simp
    then show ?thesis using b False picked_trans [OF b(2)] by (auto simp: step_ok_def then_pick_def)
  qed (use b in \<open>simp add: step_ok_def then_pick_def\<close>)
qed

lemma step_ok_return: "picked s q a b \<Longrightarrow> step_ok s q a (or_return b)"
  by (simp add: step_ok_def or_return_def)

lemma pick_each_ok:
  assumes "dl_inv s" "\<forall>p \<in> set xs. p < num_pieces s" "0 < num_blocks a"
  shows "step_ok s q a (pick_each s q ign xs a)"
  using pick_loop_picked [OF assms(3), of xs "\<lambda>i a. \<not> is_piece_free s i (rq_pieces q)" "add_blocks s q ign" s q]
    add_blocks_picked [OF assms(1)] assms(2) unfolding pick_each_def step_ok_def by metis

lemma pick_each_covers:
  assumes "dl_inv s" "\<forall>p \<in> set xs. p < num_pieces s" "0 < num_blocks a" "backups_ok s q a"
    "pick_each s q ign xs a = Some (a', False)" "x \<in> set xs" "x \<notin> set ign" "can_pick s x (rq_pieces q)"
  shows "set (all_blocks s x) \<subseteq> set (interesting_blocks a')"
proof (rule pick_loop_covers [OF assms(5) [unfolded pick_each_def] assms(6,3,4)])
  show "\<exists>a'. add_blocks s q ign y a = Some a' \<and> picked s q a a'"
    if "y \<in> set xs" "0 < num_blocks a" "\<not> \<not> is_piece_free s y (rq_pieces q)" for y a
    using add_blocks_picked [OF assms(1), of y q a ign] assms(2) that by blast
  show "\<not> \<not> is_piece_free s x (rq_pieces q) \<and>
      (add_blocks s q ign x a = Some b \<and> 0 < num_blocks b \<longrightarrow> set (all_blocks s x) \<subseteq> set (interesting_blocks b))"
    if "0 < num_blocks a" for a b
    using add_blocks_picked [OF assms(1) _ _ that, of x q ign] assms(2,6-8) by (auto simp: can_pick_free)
qed

lemma pick_partials_ok:
  assumes "dl_inv s" "0 < num_blocks a"
  shows "step_ok s q a (pick_partials s q a)"
proof (cases "opt q prioritize_partials")
  case True
  let ?skip = "\<lambda>dp a. \<not> is_piece_free s (dp_index dp) (rq_pieces q) \<or> pp_full (m_piece_map s ! dp_index dp) \<and>
      num_blocks a \<le> int (length (backup_blocks a)) \<and> num_blocks a \<le> int (length (backup_blocks2 a))"
  have "step_ok s q a (pick_loop ?skip (\<lambda>dp a. Some (add_blocks_downloading s q dp a)) (m_downloads s) a)"
    using pick_loop_picked [OF assms(2), of "m_downloads s" ?skip "\<lambda>dp a. Some (add_blocks_downloading s q dp a)" s q]
      add_blocks_downloading_picked [OF assms(1)] unfolding step_ok_def by auto
  then show ?thesis using True unfolding pick_partials_def
    by (simp, intro step_ok_then step_ok_return picked_append; auto)
qed (use assms in \<open>simp add: pick_partials_def step_ok_def\<close>)

lemma repick_full_picked:
  assumes "dl_inv s" "d \<in> set (m_downloads s)" "0 < num_blocks a"
  shows "picked s q a (repick_full s q a d)" "num_blocks (repick_full s q a d) = num_blocks a"
    "interesting_blocks (repick_full s q a d) = interesting_blocks a"
proof -
  let ?a = "a\<lparr>interesting_blocks := []\<rparr>"
  have "picked s q ?a (add_blocks_downloading s q d ?a)" using assms by (intro add_blocks_downloading_picked) auto
  then have "backups_ok s q a \<Longrightarrow> backups_ok s q (add_blocks_downloading s q d ?a)"
    by (auto dest: backups_ok_picked simp: backups_ok_def)
  then show "picked s q a (repick_full s q a d)" "num_blocks (repick_full s q a d) = num_blocks a"
    "interesting_blocks (repick_full s q a d) = interesting_blocks a"
    by (auto simp: picked_def repick_full_def Let_def backups_ok_def)
qed

lemma repick_all_picked:
  assumes "dl_inv s" "set ds \<subseteq> set (m_downloads s)" "0 < num_blocks a"
  shows "picked s q a (foldl (repick_full s q) a ds)" "num_blocks (foldl (repick_full s q) a ds) = num_blocks a"
    "interesting_blocks (foldl (repick_full s q) a ds) = interesting_blocks a"
proof -
  have "picked s q a (foldl (repick_full s q) a ds) \<and> num_blocks (foldl (repick_full s q) a ds) = num_blocks a \<and>
    interesting_blocks (foldl (repick_full s q) a ds) = interesting_blocks a"
    using assms(2,3)
  proof (induction ds arbitrary: a)
    case (Cons d ds)
    then show ?case using repick_full_picked [OF assms(1), of d a q] picked_trans by fastforce
  qed simp
  then show "picked s q a (foldl (repick_full s q) a ds)" "num_blocks (foldl (repick_full s q) a ds) = num_blocks a"
    "interesting_blocks (foldl (repick_full s q) a ds) = interesting_blocks a" by blast+
qed

text \<open>A block that is only requested from other peers.\<close>

definition busy_block :: "piece_picker \<Rightarrow> pick_req \<Rightarrow> piece_block \<Rightarrow> bool" where
  "busy_block s q b \<longleftrightarrow> valid_block s b \<and> is_piece_free s (piece_index b) (rq_pieces q) \<and>
     (\<exists>d \<in> set (m_downloads s). dp_index d = piece_index b \<and> bi_state (info_at s d (block_index b)) = state_requested \<and>
        bi_peer (info_at s d (block_index b)) \<noteq> rq_peer q)"

lemma first_busy_ok:
  assumes "dl_inv s" "set ds \<subseteq> set (m_downloads s)"
  shows "\<forall>b \<in> set (first_busy s q ds). busy_block s q b"
  using assms(2)
proof (induction ds)
  case (Cons d ds)
  have i: "dp_index d < length (m_piece_map s)" using assms(1) Cons.prems by (auto simp: dl_inv_def dl_core_def)
  then have "\<not> pp_have (m_piece_map s ! dp_index d)"
    using assms(1) Cons.prems unfolding dl_inv_def flags_ok_def by auto
  then have "\<forall>b \<in> set (busy_blocks s q d). busy_block s q b"
    using i Cons.prems by (auto simp: busy_blocks_def busy_block_def is_piece_free_def num_pieces_def piece_priority_def pp_filtered_def)
  then show ?case using Cons by auto
qed simp

lemma pick_rest_ok:
  assumes "dl_inv s" "0 < num_blocks a" "backups_ok s q a"
  shows "\<exists>a' r bs bz. pick_rest rnd s q a = Some (a', r) \<and> interesting_blocks a' = interesting_blocks a @ bs @ bz \<and>
    (\<forall>b \<in> set bs. good_block s q b) \<and> length bz \<le> 1 \<and> (\<forall>b \<in> set bz. busy_block s q b) \<and>
    (rq_whole q = 0 \<longrightarrow> int (length (bs @ bz)) \<le> num_blocks a)"
proof -
  define b where "b = foldl (repick_full s q) a (m_downloads s)"
  define temp where "temp = first_busy s q (m_downloads s)"
  note R = repick_all_picked [OF assms(1) subset_refl assms(2), of q, folded b_def]
  let ?r = "then_pick (or_return (append_backup b)) (\<lambda>a. or_return (append_backup2 a))"
  have "step_ok s q b ?r" using R(2) assms(2) by (intro step_ok_then step_ok_return picked_append) auto
  then obtain c where c: "?r = Some (c, num_blocks c \<le> 0)" "picked s q b c" by (auto simp: step_ok_def)
  obtain bs where bs: "interesting_blocks c = interesting_blocks a @ bs" "\<forall>b \<in> set bs. good_block s q b"
    "rq_whole q = 0 \<longrightarrow> num_blocks c + int (length bs) = num_blocks a \<and> 0 \<le> num_blocks c"
    using picked_trans [OF R(1) c(2)] assms(2,3) by (auto simp: picked_def)
  have e: "pick_rest rnd s q a = then_pick ?r (\<lambda>a. if opt q on_parole \<or> temp = [] then Some (a, True)
       else Some (a\<lparr>interesting_blocks := interesting_blocks a @ [temp ! (rnd mod length temp)]\<rparr>, True))"
    by (simp add: pick_rest_def b_def temp_def Let_def then_pick_def split: option.splits)
  have bz: "busy_block s q (temp ! (rnd mod length temp))" if "temp \<noteq> []"
    using first_busy_ok [OF assms(1) subset_refl, of q, folded temp_def] that by auto
  show ?thesis
  proof (cases "num_blocks c \<le> 0 \<or> opt q on_parole \<or> temp = []")
    case True
    then obtain r where "pick_rest rnd s q a = Some (c, r)" unfolding e c by (auto simp: then_pick_def)
    then show ?thesis using bs by (intro exI [of _ c] exI [of _ r] exI [of _ bs] exI [of _ "[]"]) auto
  next
    case False
    then have "pick_rest rnd s q a = Some (c\<lparr>interesting_blocks := interesting_blocks c @ [temp ! (rnd mod length temp)]\<rparr>, True)"
      unfolding e c by (auto simp: then_pick_def)
    then show ?thesis using bs bz False
      by (intro exI [of _ "c\<lparr>interesting_blocks := _\<rparr>"] exI [of _ True] exI [of _ bs] exI [of _ "[temp ! (rnd mod length temp)]"]) auto
  qed
qed

subsection \<open>The orders\<close>

text \<open>Two states that differ in the order of \<^verbatim>\<open>m_pieces\<close> only.\<close>

definition same_view :: "piece_picker \<Rightarrow> piece_picker \<Rightarrow> bool" where
  "same_view s t \<longleftrightarrow> m_downloads t = m_downloads s \<and> m_block_info t = m_block_info s \<and> m_seeds t = m_seeds s \<and>
     m_blocks_per_piece t = m_blocks_per_piece s \<and> m_blocks_in_last_piece t = m_blocks_in_last_piece s \<and>
     pm_view (m_piece_map t) = pm_view (m_piece_map s)"

lemma same_view_eqs:
  assumes "same_view s t"
  shows "num_pieces t = num_pieces s" "blocks_in_piece t = blocks_in_piece s" "all_blocks t = all_blocks s"
    "info_at t = info_at s" "i < num_pieces s \<Longrightarrow> is_piece_free t i pieces = is_piece_free s i pieces"
    "i < num_pieces s \<Longrightarrow> can_pick t i pieces = can_pick s i pieces" "i < num_pieces s \<Longrightarrow> prio_of t i = prio_of s i"
    "good_block t q = good_block s q" "busy_block t q = busy_block s q"
proof -
  note v = assms [unfolded same_view_def]
  have l: "length (m_piece_map t) = length (m_piece_map s)" using v pm_view_length by blast
  show n: "num_pieces t = num_pieces s" by (simp add: num_pieces_def l)
  show b: "blocks_in_piece t = blocks_in_piece s" using v l by (simp add: fun_eq_iff blocks_in_piece_def)
  then show "all_blocks t = all_blocks s" by (simp add: fun_eq_iff all_blocks_def)
  show i: "info_at t = info_at s" using v by (simp add: fun_eq_iff info_at_def)
  show f: "is_piece_free t i pieces = is_piece_free s i pieces" if "i < num_pieces s" for i pieces
    using v flags_pm_view [of "m_piece_map t" "m_piece_map s" i] that by (simp add: is_piece_free_def num_pieces_def)
  show "can_pick t i pieces = can_pick s i pieces" if "i < num_pieces s"
    using v flags_pm_view [of "m_piece_map t" "m_piece_map s" i] that by (simp add: can_pick_def num_pieces_def)
  show "prio_of t i = prio_of s i" if "i < num_pieces s"
    using v priority_pm_view [of "m_piece_map t" "m_piece_map s" i "m_seeds s"] that by (simp add: num_pieces_def)
  show "good_block t q = good_block s q" "busy_block t q = busy_block s q"
    using v n b i f by (auto simp: fun_eq_iff good_block_def busy_block_def)
qed

lemma same_view_picked: "same_view s t \<Longrightarrow> picked t q a b = picked s q a b"
  "same_view s t \<Longrightarrow> backups_ok t q a = backups_ok s q a"
  by (simp_all add: picked_def backups_ok_def same_view_eqs)

lemma ensure_fresh:
  assumes "picker_inv s" "\<And>st xs. mset (shuf st xs) = mset xs"
  defines "t \<equiv> if m_dirty s then update_pieces shuf s else s"
  shows "picker_inv t" "\<not> m_dirty t" "same_view s t"
    "bucketed (prio_of t) (m_piece_map t) (m_pieces t) (m_priority_boundries t)"
proof -
  note U = update_pieces_inv [OF assms(1,2)]
  show i: "picker_inv t" and d: "\<not> m_dirty t" using U assms(1) by (auto simp: t_def)
  show "bucketed (prio_of t) (m_piece_map t) (m_pieces t) (m_priority_boundries t)"
    using i d by (simp add: picker_inv_def bkt_inv_def)
  have "moved (s\<lparr>m_dirty := False\<rparr>) (update_pieces shuf s)"
    by (rule update_pieces_bucketed(1) [OF picker_invD(5) [OF assms(1)] assms(2)])
  note m = moved_fields [OF this]
  show "same_view s t" using m by (simp add: t_def same_view_def)
qed

lemma last_boundry:
  "bucketed pf pm mp B \<Longrightarrow> B \<noteq> [] \<and> last B = length mp \<and> (\<forall>k < length B. B ! k \<le> length mp)"
proof -
  assume "bucketed pf pm mp B"
  then obtain bs where bs: "bs \<noteq> []" "mp = concat bs" "B = bounds 0 bs" unfolding bucketed_def by blast
  have "B ! k \<le> length mp" if "k < length B" for k
  proof -
    have "length (concat (take (Suc k) bs)) + length (concat (drop (Suc k) bs)) = length (concat bs)"
      by (metis append_take_drop_id concat_append length_append)
    then show ?thesis using that by (simp add: bs nth_bounds)
  qed
  then show ?thesis using bs last_bounds [of bs 0] by simp
qed

lemma round_boundries_inv:
  assumes "picker_inv s" "\<not> m_dirty s"
  shows "picker_inv (round_boundries s)" "same_view s (round_boundries s)"
    "4 dvd length (m_priority_boundries (round_boundries s))"
proof -
  have b: "bucketed (prio_of s) (m_piece_map s) (m_pieces s) (m_priority_boundries s)"
    using assms by (simp add: picker_inv_def bkt_inv_def)
  have "length (m_priority_boundries s) \<le> (length (m_priority_boundries s) + 4 - 1) div 4 * 4" by presburger
  then have "bucketed (prio_of s) (m_piece_map s) (m_pieces s) (m_priority_boundries (round_boundries s))"
    using bucketed_extend [OF b] last_boundry [OF b] by (simp add: round_boundries_def)
  moreover have "moved s (round_boundries s)" by (simp add: moved_def round_boundries_def)
  ultimately show "picker_inv (round_boundries s)"
    using moved_inv [of s "round_boundries s"] picker_invD [OF assms(1)] by (simp add: round_boundries_def)
  show "same_view s (round_boundries s)" by (simp add: same_view_def round_boundries_def)
  show "4 dvd length (m_priority_boundries (round_boundries s))" by (simp add: round_boundries_def)
qed

lemma reverse_order_all:
  assumes "4 dvd length B" "B \<noteq> []" "last B = n" "\<forall>k < length B. B ! k \<le> n"
  shows "set (reverse_order B) = {0..<n}"
proof -
  define f where "f = (\<lambda>i :: nat. i div 4 * 4 + 4 - 1 - i mod 4)"
  have f4: "f (4 * a + b) = 4 * a + (3 - b)" if "b < 4" for a b
    using that by (simp add: f_def)
  have split: "\<exists>a b. i = 4 * a + b \<and> b < 4" for i :: nat
    by (metis mod_less_divisor mult_div_mod_eq zero_less_numeral)
  obtain m where m: "length B = 4 * m" using assms(1) by (elim dvdE)
  have flt: "f i < length B" if "i < length B" for i
  proof -
    obtain a b where i: "i = 4 * a + b" "b < 4" using split by blast
    then have "a < m" using that m by linarith
    then show ?thesis unfolding m i(1) f4 [OF i(2)] by simp
  qed
  have ff: "f (f i) = i" for i
  proof -
    obtain a b where "i = 4 * a + b" "b < 4" using split by blast
    then show ?thesis using f4 [of b a] f4 [of "3 - b" a] by simp
  qed
  have s: "set (reverse_order B) = (\<Union>i < length B. {(if f i = 0 then 0 else B ! (f i - 1))..<B ! f i})"
  proof -
    have "reverse_order B = concat (map (\<lambda>i. [(if f i = 0 then 0 else B ! (f i - 1))..<B ! f i]) (rev [0..<length B]))"
      by (simp only: reverse_order_def f_def Let_def)
    then show ?thesis by (simp add: atLeast0LessThan)
  qed
  have bk: "\<exists>k < length B. (if k = 0 then 0 else B ! (k - 1)) \<le> p \<and> p < B ! k" if "p < n" for p
  proof -
    have ex: "\<exists>k. k < length B \<and> p < B ! k"
      using assms(2,3) that by (intro exI [of _ "length B - 1"]) (simp add: last_conv_nth)
    define k where "k = (LEAST k. k < length B \<and> p < B ! k)"
    have k: "k < length B" "p < B ! k" using LeastI_ex [OF ex] by (auto simp: k_def)
    have "\<not> p < B ! (k - 1)" if "k \<noteq> 0"
      using not_less_Least [of "k - 1" "\<lambda>k. k < length B \<and> p < B ! k", folded k_def] that k(1) by auto
    then have "(if k = 0 then 0 else B ! (k - 1)) \<le> p" by (cases "k = 0") simp_all
    then show ?thesis using k by blast
  qed
  have "p \<in> set (reverse_order B)" if p: "p < n" for p
  proof -
    obtain k where k: "k < length B" "(if k = 0 then 0 else B ! (k - 1)) \<le> p" "p < B ! k"
      using bk [OF p] by blast
    have "p \<in> {(if f (f k) = 0 then 0 else B ! (f (f k) - 1))..<B ! f (f k)}" unfolding ff using k(2,3) by simp
    then show ?thesis unfolding s using flt [OF k(1)] by blast
  qed
  then have "{0..<n} \<subseteq> set (reverse_order B)" by auto
  moreover have "set (reverse_order B) \<subseteq> {0..<n}"
  proof
    fix x assume "x \<in> set (reverse_order B)"
    then obtain i where i: "i < length B" "x < B ! f i" unfolding s by auto
    show "x \<in> {0..<n}" using less_le_trans [OF i(2)] assms(4) flt [OF i(1)] by simp
  qed
  ultimately show ?thesis by blast
qed

lemma wanted_in_cursors:
  assumes "cnt_inv s" "i < num_pieces s" "can_pick s i pieces"
  shows "m_cursor s \<le> i" "i < m_reverse_cursor s" "m_reverse_cursor s \<le> num_pieces s"
proof -
  have u: "\<not> unwanted (m_piece_map s ! i)" using assms(3) by (simp add: can_pick_def unwanted_def)
  show "m_cursor s \<le> i"
    using cursor_forward_iff [of 0 "m_piece_map s" "m_cursor s"] assms(1) u unfolding cnt_inv_def by (metis le0 not_less)
  have "m_reverse_cursor s \<le> num_pieces s \<and> (\<forall>j. m_reverse_cursor s \<le> j \<and> j < num_pieces s \<longrightarrow> unwanted (m_piece_map s ! j))"
    using cursor_backward_iff [OF order_refl, of "m_piece_map s" "m_reverse_cursor s"] assms(1)
    unfolding cnt_inv_def num_pieces_def by simp
  then show "i < m_reverse_cursor s" "m_reverse_cursor s \<le> num_pieces s" using assms(2) u by (blast intro: not_less [THEN iffD1])+
qed

text \<open>What a phase leaves uncovered if it does not return: nothing that can be picked.\<close>

definition covers :: "piece_picker \<Rightarrow> pick_req \<Rightarrow> nat list \<Rightarrow> picks \<Rightarrow> bool" where
  "covers s q ign a \<longleftrightarrow> (\<forall>x < num_pieces s. can_pick s x (rq_pieces q) \<and> x \<notin> set ign \<and> 0 \<le> prio_of s x \<longrightarrow>
     set (all_blocks s x) \<subseteq> set (interesting_blocks a))"

lemma each_in_order:
  assumes "dl_inv t" "same_view s t" "\<forall>p \<in> set xs. p < num_pieces s" "0 < num_blocks a" "backups_ok s q a"
    and "\<And>x. x < num_pieces s \<Longrightarrow> can_pick s x (rq_pieces q) \<Longrightarrow> 0 \<le> prio_of s x \<Longrightarrow> x \<in> set xs"
  shows "step_ok s q a (pick_each t q ign xs a)"
    "pick_each t q ign xs a = Some (b, False) \<Longrightarrow> covers s q ign b"
proof -
  note v = same_view_eqs [OF assms(2)] same_view_picked [OF assms(2)]
  show "step_ok s q a (pick_each t q ign xs a)"
    using pick_each_ok [OF assms(1), of xs a q ign] assms(3,4) by (simp add: v step_ok_def)
  show "pick_each t q ign xs a = Some (b, False) \<Longrightarrow> covers s q ign b"
    using pick_each_covers [OF assms(1), of xs a q ign b] assms(3-6) by (auto simp: v covers_def)
qed

lemma pick_main_ok:
  assumes inv: "picker_inv s" and sh: "\<And>st xs. mset (shuf st xs) = mset xs" and a: "0 < num_blocks a" "backups_ok s q a"
    and n: "0 < num_pieces s" "\<forall>k < num_pieces s. 0 < blocks_in_piece s k"
  obtains t r where "pick_main shuf rnd s q sug a = (t, r)" "picker_inv t" "same_view s t" "step_ok s q a r"
    "\<forall>b. r = Some (b, False) \<longrightarrow> covers s q sug b"
proof -
  note D = picker_invD [OF inv]
  have sv: "same_view s s" by (simp add: same_view_def)
  consider "opt q sequential" | "\<not> opt q sequential" "opt q rarest_first" | "\<not> opt q sequential" "\<not> opt q rarest_first" by blast
  then show thesis
  proof cases
    case 1
    define xs where "xs = (if opt q reverse then rev [m_cursor s..<m_reverse_cursor s] else [m_cursor s..<m_reverse_cursor s])"
    have xs: "\<forall>p \<in> set xs. p < num_pieces s"
      using cursor_backward_iff [OF order_refl, of "m_piece_map s" "m_reverse_cursor s"] D(2)
      by (auto simp: xs_def cnt_inv_def num_pieces_def)
    have "x \<in> set xs" if "x < num_pieces s" "can_pick s x (rq_pieces q)" "0 \<le> prio_of s x" for x
      using wanted_in_cursors [OF D(2) that(1,2)] by (simp add: xs_def)
    note E = each_in_order [OF D(3) sv xs a this, of sug]
    have "pick_main shuf rnd s q sug a = (s, pick_each s q sug xs a)" using 1 by (simp add: pick_main_def xs_def)
    then show thesis using that inv sv E by blast
  next
    case 2
    define s1 where "s1 = (if m_dirty s then update_pieces shuf s else s)"
    define t where "t = (if opt q reverse then round_boundries s1 else s1)"
    note F = ensure_fresh [where shuf = shuf, OF inv sh, folded s1_def]
    note R = round_boundries_inv [OF F(1,2)]
    have t: "picker_inv t" "same_view s t" "\<not> m_dirty t"
      using F R by (auto simp: t_def same_view_def round_boundries_def)
    have b: "bucketed (prio_of t) (m_piece_map t) (m_pieces t) (m_priority_boundries t)"
      using t(1,3) by (simp add: picker_inv_def bkt_inv_def)
    define xs where "xs = (if opt q reverse then map (\<lambda>p. nat (m_pieces t ! p)) (reverse_order (m_priority_boundries t))
      else map nat (m_pieces t))"
    have "set (map (\<lambda>p. nat (m_pieces t ! p)) (reverse_order (m_priority_boundries t))) = nat ` set (m_pieces t)" if "opt q reverse"
    proof -
      have "set (reverse_order (m_priority_boundries t)) = {0..<length (m_pieces t)}"
        using R(3) last_boundry [OF b] that by (intro reverse_order_all) (simp_all add: t_def)
      then have "set (map (\<lambda>p. nat (m_pieces t ! p)) (reverse_order (m_priority_boundries t))) = nat ` ((!) (m_pieces t) ` {0..<length (m_pieces t)})"
        by auto
      then show ?thesis using nth_image [of "length (m_pieces t)" "m_pieces t"] by simp
    qed
    then have set: "set xs = nat ` set (m_pieces t)" by (simp add: xs_def)
    have m: "\<forall>x \<in> set (m_pieces t). 0 \<le> x \<and> nat x < num_pieces s"
      using b same_view_eqs(1) [OF t(2)] by (auto simp: bucketed_def in_map_def num_pieces_def)
    have "x \<in> set xs" if "x < num_pieces s" "0 \<le> prio_of s x" for x
    proof -
      have "int x \<in> set (m_pieces t)"
        using b that same_view_eqs(1,7) [OF t(2)] by (auto simp: bucketed_def num_pieces_def)
      then show ?thesis unfolding set by force
    qed
    then have "\<And>x. x < num_pieces s \<Longrightarrow> can_pick s x (rq_pieces q) \<Longrightarrow> 0 \<le> prio_of s x \<Longrightarrow> x \<in> set xs" by blast
    moreover have "\<forall>p \<in> set xs. p < num_pieces s" using m set by auto
    ultimately have E: "step_ok s q a (pick_each t q sug xs a)" "\<And>b. pick_each t q sug xs a = Some (b, False) \<Longrightarrow> covers s q sug b"
      using each_in_order [OF picker_invD(3) [OF t(1)] t(2) _ a, of xs sug] by blast+
    have "pick_main shuf rnd s q sug a = (t, pick_each t q sug xs a)"
      using 2 by (simp add: pick_main_def xs_def t_def s1_def [symmetric] Let_def)
    then show thesis using that t(1,2) E by blast
  next
    case 3
    define st where "st = rnd mod num_pieces s"
    have st: "st < num_pieces s" using n(1) by (simp add: st_def)
    have "\<forall>x < num_pieces s. behind st st x \<and> can_pick s x (rq_pieces q) \<and> x \<notin> set sug \<longrightarrow>
        set (all_blocks s x) \<subseteq> set (interesting_blocks a)" by (auto simp: behind_def)
    then obtain b where b: "random_loop (Suc (nat (num_blocks a))) s q sug st st a = Some b" "picked s q a b"
      "0 < num_blocks b \<longrightarrow> (\<forall>x < num_pieces s. can_pick s x (rq_pieces q) \<and> x \<notin> set sug \<longrightarrow>
         set (all_blocks s x) \<subseteq> set (interesting_blocks b))"
      using random_loop_picked [OF D(3) st n(2) st lessI a(2)] by blast
    show thesis
    proof (rule that [of s "or_return b"])
      show "pick_main shuf rnd s q sug a = (s, or_return b)" using 3 n(1) b(1) by (simp add: pick_main_def st_def)
      show "step_ok s q a (or_return b)" by (rule step_ok_return [OF b(2)])
      show "\<forall>c. or_return b = Some (c, False) \<longrightarrow> covers s q sug c" using b(3) by (auto simp: or_return_def covers_def)
    qed (use inv sv in auto)
  qed
qed

lemma pick_pieces_ok:
  fixes q :: pick_req and peers :: nat
  assumes inv: "picker_inv s" and sh: "\<And>st xs. mset (shuf st xs) = mset xs" and n: "0 < n"
    and p: "0 < num_pieces s" "\<forall>k < num_pieces s. 0 < blocks_in_piece s k" and sug: "\<forall>p \<in> set sug. p < num_pieces s"
  defines "q' \<equiv> adjust_req s q peers"
  obtains t bs bz where "pick_pieces shuf rnd rnd' s q ib n sug peers = Some (t, ib @ bs @ bz)" "picker_inv t" "same_view s t"
    "\<forall>b \<in> set bs. good_block s q b" "length bz \<le> 1" "\<forall>b \<in> set bz. busy_block s q b"
    "rq_whole q' = 0 \<longrightarrow> int (length (bs @ bz)) \<le> n"
    "n \<le> int (length bs) \<or> (\<forall>x < num_pieces s. can_pick s x (rq_pieces q) \<and> 0 \<le> prio_of s x \<longrightarrow>
       set (all_blocks s x) \<subseteq> set (ib @ bs))"
proof -
  define a where "a = \<lparr>interesting_blocks = ib, backup_blocks = [], backup_blocks2 = [], num_blocks = n\<rparr>"
  have rq: "rq_pieces q' = rq_pieces q" "rq_peer q' = rq_peer q" by (simp_all add: q'_def adjust_req_def Let_def)
  have g: "good_block s q' = good_block s q" "busy_block s q' = busy_block s q"
    by (simp_all add: fun_eq_iff good_block_def busy_block_def rq)
  have a: "0 < num_blocks a" "backups_ok s q' a" using n by (simp_all add: a_def backups_ok_def)
  note dl = picker_invD(3) [OF inv] and result = that
  have s0: "same_view s s" by (simp add: same_view_def)
  define r1 where "r1 = then_pick (pick_partials s q' a) (pick_each s q' [] sug)"
  have "step_ok s q' a r1" unfolding r1_def
    by (rule step_ok_then [OF pick_partials_ok [OF dl a(1)]]) (use pick_each_ok [OF dl sug] in blast)
  then obtain b where b: "r1 = Some (b, num_blocks b \<le> 0)" "picked s q' a b" by (auto simp: step_ok_def)
  have okb: "backups_ok s q' b" by (rule backups_ok_picked [OF b(2) a(2)])
  have fin: thesis
    if c: "pick_pieces shuf rnd rnd' s q ib n sug peers = Some (t, interesting_blocks c)" "picker_inv t" "same_view s t"
      "picked s q' a c" "num_blocks c \<le> 0" for t c
  proof -
    obtain bs where "interesting_blocks c = ib @ bs" "\<forall>b \<in> set bs. good_block s q b" "n \<le> num_blocks c + int (length bs)"
      "rq_whole q' = 0 \<longrightarrow> num_blocks c + int (length bs) = n \<and> 0 \<le> num_blocks c"
      using c(4) a(2) n g unfolding picked_def by (auto simp: a_def)
    then show thesis using result [of t bs "[]"] c by auto
  qed
  have pp: "pick_pieces shuf rnd rnd' s q ib n sug peers =
      (if num_blocks b \<le> 0 then Some (s, interesting_blocks b)
       else (case pick_main shuf rnd s q' sug b of (t, r) \<Rightarrow>
                map_option (\<lambda>(a, _). (t, interesting_blocks a)) (then_pick r (pick_rest rnd' t q'))))"
    unfolding pick_pieces_def Let_def q'_def [symmetric] a_def [symmetric] r1_def [symmetric] b(1) by simp
  show thesis
  proof (cases "num_blocks b \<le> 0")
    case True
    then show thesis using fin [of s b] pp inv s0 b(2) by simp
  next
    case False
    then have posb: "0 < num_blocks b" by simp
    have covs: "set (all_blocks s x) \<subseteq> set (interesting_blocks b)" if "x \<in> set sug" "can_pick s x (rq_pieces q')" for x
    proof -
      obtain c where "pick_partials s q' a = Some (c, False)" "pick_each s q' [] sug c = Some (b, False)" "picked s q' a c" "0 < num_blocks c"
        using b(1) False pick_partials_ok [OF dl a(1), of q'] by (auto simp: r1_def then_pick_def step_ok_def split: if_splits)
      then show ?thesis using pick_each_covers [OF dl sug] backups_ok_picked [OF _ a(2)] that by fastforce
    qed
    obtain t r where m: "pick_main shuf rnd s q' sug b = (t, r)" "picker_inv t" "same_view s t" "step_ok s q' b r"
      "\<forall>c. r = Some (c, False) \<longrightarrow> covers s q' sug c"
      by (rule pick_main_ok [where shuf = shuf and rnd = rnd and sug = sug, OF inv sh posb okb p])
    obtain c where c: "r = Some (c, num_blocks c \<le> 0)" "picked s q' b c" using m(4) by (auto simp: step_ok_def)
    have ac: "picked s q' a c" by (rule picked_trans [OF b(2) c(2)])
    show thesis
    proof (cases "num_blocks c \<le> 0")
      case True
      then show thesis using fin [of t c] pp False m c ac by (simp add: then_pick_def)
    next
      case nc: False
      have okc: "backups_ok t q' c" using backups_ok_picked [OF ac a(2)] same_view_picked(2) [OF m(3)] by simp
      obtain bs1 where bs1: "interesting_blocks c = ib @ bs1" "\<forall>b \<in> set bs1. good_block s q b"
        "rq_whole q' = 0 \<longrightarrow> num_blocks c + int (length bs1) = n"
        using ac a(2) n g unfolding picked_def by (auto simp: a_def)
      obtain d rr bs bz where d: "pick_rest rnd' t q' c = Some (d, rr)" "interesting_blocks d = interesting_blocks c @ bs @ bz"
        "\<forall>b \<in> set bs. good_block t q' b" "length bz \<le> 1" "\<forall>b \<in> set bz. busy_block t q' b"
        "rq_whole q' = 0 \<longrightarrow> int (length (bs @ bz)) \<le> num_blocks c"
        using pick_rest_ok [OF picker_invD(3) [OF m(2)] _ okc, of rnd'] nc by auto
      have "set (all_blocks s x) \<subseteq> set (interesting_blocks c)"
        if "x < num_pieces s" "can_pick s x (rq_pieces q)" "0 \<le> prio_of s x" for x
        using that covs [of x] m(5) c(1) nc picked_subset [OF c(2) okb] rq by (cases "x \<in> set sug") (auto simp: covers_def)
      then have cov: "\<forall>x < num_pieces s. can_pick s x (rq_pieces q) \<and> 0 \<le> prio_of s x \<longrightarrow> set (all_blocks s x) \<subseteq> set (ib @ bs1 @ bs)"
        unfolding bs1(1) by auto
      show thesis
      proof (rule that [of t "bs1 @ bs" bz])
        show "pick_pieces shuf rnd rnd' s q ib n sug peers = Some (t, ib @ (bs1 @ bs) @ bz)"
          using pp False m(1) c(1) nc d(1,2) bs1(1) by (simp add: then_pick_def)
      qed (use m(2,3) bs1 d(3-6) same_view_eqs(8,9) [OF m(3)] g cov in auto)
    qed
  qed
qed

subsection \<open>Every piece has blocks\<close>

lemma bilp_helpers [simp]:
  "m_blocks_in_last_piece (picker_remove s p e) = m_blocks_in_last_piece s"
  "m_blocks_in_last_piece (picker_shuffle r s p e) = m_blocks_in_last_piece s"
  "m_blocks_in_last_piece (picker_add r s i) = m_blocks_in_last_piece s"
  "m_blocks_in_last_piece (upd_pos s i f) = m_blocks_in_last_piece s"
  "m_blocks_in_last_piece (upd_dp s k g) = m_blocks_in_last_piece s"
  "m_blocks_in_last_piece (upd_block s k j h) = m_blocks_in_last_piece s"
  "m_blocks_in_last_piece (update_full s k) = m_blocks_in_last_piece s"
  "m_blocks_in_last_piece (erase_download_piece s k) = m_blocks_in_last_piece s"
  "m_blocks_in_last_piece (fst (add_download_piece s i)) = m_blocks_in_last_piece s"
  "m_blocks_in_last_piece (skip_cursors s i) = m_blocks_in_last_piece s"
  "m_blocks_in_last_piece (take_piece s i) = m_blocks_in_last_piece s"
  by (simp_all add: picker_remove_def picker_shuffle_def picker_add_def upd_pos_def upd_dp_def upd_block_def
      update_full_def erase_download_piece_def add_download_piece_def take_piece_def skip_cursors_def Let_def split: prod.splits)

lemma bilp_update [simp]: "m_blocks_in_last_piece (picker_update r s p e) = m_blocks_in_last_piece s"
  by (simp add: picker_update_def Let_def split: prod.splits)

lemma bilp_refile [simp]: "m_blocks_in_last_piece (refile r s i p) = m_blocks_in_last_piece s"
  by (simp add: refile_def Let_def)

lemma bilp_start [simp]: "m_blocks_in_last_piece (fst (start_download r s i)) = m_blocks_in_last_piece s"
  by (simp add: start_download_def Let_def split: prod.splits)

lemma bilp_ops:
  "m_blocks_in_last_piece (inc_refcount_all s) = m_blocks_in_last_piece s"
  "m_blocks_in_last_piece (dec_refcount_all s) = m_blocks_in_last_piece s"
  "m_blocks_in_last_piece (inc_refcount r s i) = m_blocks_in_last_piece s"
  "m_blocks_in_last_piece (dec_refcount r s i) = m_blocks_in_last_piece s"
  "m_blocks_in_last_piece (update_pieces shuf s) = m_blocks_in_last_piece s"
  "m_blocks_in_last_piece (we_dont_have r s i) = m_blocks_in_last_piece s"
  "m_blocks_in_last_piece (fst (set_piece_priority r s i v)) = m_blocks_in_last_piece s"
  "m_blocks_in_last_piece (write_failed r s b) = m_blocks_in_last_piece s"
  "m_blocks_in_last_piece (clear_peer s p) = m_blocks_in_last_piece s"
  by (simp_all add: inc_refcount_all_def dec_refcount_all_def inc_refcount_def dec_refcount_def update_pieces_def
      we_dont_have_def set_piece_priority_def write_failed_def clear_peer_def Let_def split: prod.splits option.splits)

lemma bilp_masks:
  "inc_refcount_mask s bits = Some t \<Longrightarrow> m_blocks_in_last_piece t = m_blocks_in_last_piece s"
  "dec_refcount_mask s bits = Some t \<Longrightarrow> m_blocks_in_last_piece t = m_blocks_in_last_piece s"
  by (auto simp: inc_refcount_mask_def dec_refcount_mask_def case_prod_unfold)

lemma bilp_partial_ops:
  "we_have s i = Some t \<Longrightarrow> m_blocks_in_last_piece t = m_blocks_in_last_piece s"
  "restore_piece r s i = Some t \<Longrightarrow> m_blocks_in_last_piece t = m_blocks_in_last_piece s"
  "abort_download r s b p = Some t \<Longrightarrow> m_blocks_in_last_piece t = m_blocks_in_last_piece s"
  by (auto simp: we_have_def restore_piece_def abort_download_def Let_def
      split: prod.splits option.splits if_splits)

lemma start_download_bilp: "start_download r s i = (t, k) \<Longrightarrow> m_blocks_in_last_piece t = m_blocks_in_last_piece s"
  by (metis bilp_start fst_conv)

lemma bilp_marks:
  "mark_as_downloading r s b p st = Some (t, x) \<Longrightarrow> m_blocks_in_last_piece t = m_blocks_in_last_piece s"
  "mark_as_writing r s b p = Some (t, x) \<Longrightarrow> m_blocks_in_last_piece t = m_blocks_in_last_piece s"
  "mark_as_finished r s b p = Some t \<Longrightarrow> m_blocks_in_last_piece t = m_blocks_in_last_piece s"
  by (auto simp: mark_as_downloading_def mark_as_writing_def mark_as_finished_def Let_def dest: start_download_bilp
      split: prod.splits option.splits if_splits)

lemma reachable_blocks: "picker_reachable s \<Longrightarrow> 0 < m_blocks_in_last_piece s"
proof (induction rule: picker_reachable.induct)
  case (reach_init n bpp bilp)
  then show ?case by (simp add: picker_init_def Let_def)
next
  case (reach_step s t)
  from reach_step.hyps(2) show ?case
    by (cases rule: picker_step.cases)
      (use reach_step.IH in \<open>auto simp: bilp_ops picker_init_def Let_def dest: bilp_masks bilp_partial_ops bilp_marks\<close>)
qed

lemma reachable_blocks_in_piece: "picker_reachable s \<Longrightarrow> 0 < blocks_in_piece s k"
  using reachable_blocks [of s] picker_reachable_inv [of s] by (simp add: blocks_in_piece_def picker_inv_def dl_inv_def dl_core_def)

lemma good_or_busy_valid:
  "good_block s q b \<or> busy_block s q b \<Longrightarrow> valid_block s b \<and> is_piece_free s (piece_index b) (rq_pieces q)"
  by (auto simp: good_block_def busy_block_def)

lemma verify_pick_blocks:
  "(\<forall>b \<in> set bs. good_block s q b \<or> busy_block s q b) \<Longrightarrow> verify_pick s bs (rq_pieces q)"
  using good_or_busy_valid by (fastforce simp: verify_pick_def list_all_iff is_piece_free_def)

text \<open>The same for a reachable state and an empty vector.\<close>

lemma pick_reachable:
  assumes "picker_reachable s" "\<And>st xs. mset (shuf st xs) = mset xs" "0 < n" "0 < num_pieces s"
    "\<forall>p \<in> set suggested. p < num_pieces s"
  obtains t bs bz where "pick_pieces shuf rnd rnd' s q [] n suggested peers = Some (t, bs @ bz)" "picker_inv t" "same_view s t"
    "\<forall>b \<in> set bs. good_block s q b" "length bz \<le> 1" "\<forall>b \<in> set bz. busy_block s q b"
    "rq_whole (adjust_req s q peers) = 0 \<longrightarrow> int (length (bs @ bz)) \<le> n"
    "n \<le> int (length bs) \<or> (\<forall>x < num_pieces s. can_pick s x (rq_pieces q) \<and> 0 \<le> prio_of s x \<longrightarrow>
       set (all_blocks s x) \<subseteq> set bs)"
proof -
  have "\<forall>k < num_pieces s. 0 < blocks_in_piece s k" using reachable_blocks_in_piece [OF assms(1)] by blast
  from pick_pieces_ok [where shuf = shuf and rnd = rnd and rnd' = rnd' and ib = "[]" and q = q and peers = peers,
      OF picker_reachable_inv [OF assms(1)] assms(2-4) this assms(5)] that
  show thesis by (metis append_Nil)
qed

subsection \<open>Properties\<close>

text \<open>C4: In every reachable state \<open>pick_pieces\<close> returns, without undefined behaviour and for every order and every
  outcome of \<^verbatim>\<open>random()\<close>; it keeps the assertions of \<open>check_invariant\<close>; the blocks it picks pass \<open>verify_pick\<close>
  (the peer has the piece, we want it and do not have it), exist, and have not been requested from
  anyone, except for at most one at the end that is requested from another peer only.\<close>

theorem pick_blocks_valid:
  assumes "picker_reachable s" "\<And>st xs. mset (shuf st xs) = mset xs" "0 < n" "0 < num_pieces s"
    "\<forall>p \<in> set suggested. p < num_pieces s"
  shows "\<exists>t bs bz. pick_pieces shuf rnd rnd2 s q [] n suggested peers = Some (t, bs @ bz) \<and> check_state t \<and>
    verify_pick t (bs @ bz) (rq_pieces q) \<and> list_all (valid_block t) (bs @ bz) \<and>
    list_all (good_block t q) bs \<and> length bz \<le> 1 \<and> list_all (busy_block t q) bz"
proof -
  obtain t bs bz where P: "pick_pieces shuf rnd rnd2 s q [] n suggested peers = Some (t, bs @ bz)" "picker_inv t" "same_view s t"
    "\<forall>b \<in> set bs. good_block s q b" "length bz \<le> 1" "\<forall>b \<in> set bz. busy_block s q b"
    by (rule pick_reachable [where shuf = shuf, OF assms(1-5)])
  note v = same_view_eqs(8,9) [OF P(3)]
  have "\<forall>b \<in> set (bs @ bz). good_block t q b \<or> busy_block t q b" using P(4,6) by (auto simp: v)
  then show ?thesis using P picker_inv_check_state [OF P(2)] verify_pick_blocks [of "bs @ bz" t q] good_or_busy_valid [of t q]
    by (intro exI [of _ t] exI [of _ bs] exI [of _ bz]) (auto simp: v list_all_iff)
qed

text \<open>C6: If whole pieces are not preferred, \<open>pick_pieces\<close> picks at most as many blocks as it was asked for.\<close>

theorem pick_no_more:
  assumes "picker_reachable s" "\<And>st xs. mset (shuf st xs) = mset xs" "0 < n" "0 < num_pieces s"
    "\<forall>p \<in> set suggested. p < num_pieces s" "rq_whole q = 0"
  shows "\<exists>t bs. pick_pieces shuf rnd rnd2 s q [] n suggested peers = Some (t, bs) \<and> int (length bs) \<le> n"
proof -
  obtain t bs bz where P: "pick_pieces shuf rnd rnd2 s q [] n suggested peers = Some (t, bs @ bz)"
    "rq_whole (adjust_req s q peers) = 0 \<longrightarrow> int (length (bs @ bz)) \<le> n"
    by (rule pick_reachable [where shuf = shuf, OF assms(1-5)])
  then show ?thesis using assms(6) by (auto simp: adjust_req_def Let_def)
qed

text \<open>C5: \<open>pick_pieces\<close> does not give up early: if it picks fewer blocks than asked for, then every block of every
  piece that the peer has, that we want, that somebody has and that is not being downloaded is among them.\<close>

theorem pick_enough:
  assumes "picker_reachable s" "\<And>st xs. mset (shuf st xs) = mset xs" "0 < n" "0 < num_pieces s"
    "\<forall>p \<in> set suggested. p < num_pieces s"
  shows "\<exists>t bs. pick_pieces shuf rnd rnd2 s q [] n suggested peers = Some (t, bs) \<and>
    (int (length bs) < n \<longrightarrow> (\<forall>p < num_pieces s. \<forall>j < blocks_in_piece s p.
       can_pick s p (rq_pieces q) \<and> 0 \<le> prio_of s p \<longrightarrow> \<lparr>piece_index = p, block_index = j\<rparr> \<in> set bs))"
proof -
  obtain t bs bz where P: "pick_pieces shuf rnd rnd2 s q [] n suggested peers = Some (t, bs @ bz)"
    "n \<le> int (length bs) \<or> (\<forall>x < num_pieces s. can_pick s x (rq_pieces q) \<and> 0 \<le> prio_of s x \<longrightarrow>
       set (all_blocks s x) \<subseteq> set bs)"
    by (rule pick_reachable [where shuf = shuf, OF assms(1-5)])
  then show ?thesis by (intro exI [of _ t] exI [of _ "bs @ bz"]) (auto simp: all_blocks_def image_subset_iff)
qed

text \<open>A picker of three pieces, all on offer, and a peer that has all of them.\<close>

definition three_pieces :: piece_picker where
  "three_pieces = inc_refcount_all (picker_init piece_picker_init 2 1 3)"

definition has_all :: "nat \<Rightarrow> 32 word \<Rightarrow> pick_req" where
  "has_all whole options = \<lparr>rq_pieces = bf_resize_val (\<lambda>_. 0) bitfield_empty 3 True, rq_whole = whole, rq_peer = 7,
     rq_speed = fast, rq_options = options\<rparr>"

lemma three_pieces_reachable: "picker_reachable three_pieces"
  unfolding three_pieces_def by (intro reach_step [OF _ step_inc_all] reach_init) (simp_all add: we_have_index_def)

lemma three_pieces_facts: "num_pieces three_pieces = 3" "blocks_in_piece three_pieces 1 = 2"
  "can_pick three_pieces 1 (rq_pieces (has_all 0 0))" "0 \<le> prio_of three_pieces 1"
  unfolding three_pieces_def has_all_def by code_simp+

theorem pick_blocks_valid_witness:
  "\<exists>t bs. pick_pieces (\<lambda>_ xs. xs) 1 0 three_pieces (has_all 0 rarest_first) [] 4 [2] 0 = Some (t, bs) \<and> check_state t \<and>
     verify_pick t bs (rq_pieces (has_all 0 rarest_first))"
  using pick_blocks_valid [OF three_pieces_reachable, of "\<lambda>_ xs. xs" 4 "[2]" 1 0 "has_all 0 rarest_first" 0]
  by (auto simp: three_pieces_facts)

theorem pick_no_more_witness:
  "\<exists>t bs. pick_pieces (\<lambda>_ xs. xs) 1 0 three_pieces (has_all 0 sequential) [] 3 [] 0 = Some (t, bs) \<and> length bs \<le> 3"
  using pick_no_more [OF three_pieces_reachable, of "\<lambda>_ xs. xs" 3 "[]" "has_all 0 sequential" 1 0 0]
  by (auto simp: three_pieces_facts has_all_def)

theorem pick_enough_witness:
  "\<exists>t bs. pick_pieces (\<lambda>_ xs. xs) 2 0 three_pieces (has_all 0 0) [] 100 [] 0 = Some (t, bs) \<and>
     (length bs < 100 \<longrightarrow> \<lparr>piece_index = 1, block_index = 1\<rparr> \<in> set bs)"
proof -
  obtain t bs where P: "pick_pieces (\<lambda>_ xs. xs) 2 0 three_pieces (has_all 0 0) [] 100 [] 0 = Some (t, bs)"
    "int (length bs) < 100 \<longrightarrow> (\<forall>p < num_pieces three_pieces. \<forall>j < blocks_in_piece three_pieces p.
       can_pick three_pieces p (rq_pieces (has_all 0 0)) \<and> 0 \<le> prio_of three_pieces p \<longrightarrow>
       \<lparr>piece_index = p, block_index = j\<rparr> \<in> set bs)"
    using pick_enough [OF three_pieces_reachable, of "\<lambda>_ xs. xs" 100 "[]" 2 0 "has_all 0 0" 0]
    by (auto simp: three_pieces_facts(1))
  have "\<lparr>piece_index = 1, block_index = 1\<rparr> \<in> set bs" if "length bs < 100"
    using P(2) that three_pieces_facts by (metis of_nat_less_numeral_iff one_less_numeral_iff semiring_norm(76,77))
  then show ?thesis using P(1) by blast
qed


end
