(* ===== verification/Escape_String.thy ===== *)
theory Escape_String
  imports Prelude "HOL-Library.Code_Target_Numeral"
begin

text \<open>
  \<^verbatim>\<open>src/escape_string.cpp\<close>: URL escaping, hexadecimal, base 32 and base 64, and decimal
  printing. A \<^verbatim>\<open>std::string\<close> is the list of its bytes. \<^verbatim>\<open>unescape_string\<close> returns what it has
  decoded so far together with the error code; \<^verbatim>\<open>from_hex\<close> has the result \<open>None\<close> when it would read
  past the end of its input.
\<close>

unbundle bit_operations_syntax

type_synonym bytes = "byte list"

abbreviation ch :: "char \<Rightarrow> byte" where
  "ch c \<equiv> of_char c"

abbreviation str :: "string \<Rightarrow> bytes" where
  "str s \<equiv> map of_char s"

subsection \<open>Decimal numbers\<close>

text \<open>\<^verbatim>\<open>to_string\<close>: the digits are written from the back of a buffer of 22 characters; \<open>un\<close> is unsigned.\<close>

function to_string_loop :: "64 word \<Rightarrow> bytes \<Rightarrow> bytes" where
  "to_string_loop un p =
     (let p = (ch CHR ''0'' + ucast (un mod 10)) # p; un = un div 10
      in if un = 0 then p else to_string_loop un p)"
  by pat_completeness auto
termination
proof (relation "measure (\<lambda>(un, p). unat un)")
  fix un :: "64 word" and p x xa
  assume "xa = un div 10" "\<not> xa = 0"
  then have "un \<noteq> 0" by auto
  then show "((xa, x), un, p) \<in> measure (\<lambda>(un, p). unat un)"
    using \<open>xa = un div 10\<close> by (simp add: unat_div unat_gt_0)
qed simp

declare to_string_loop.simps [simp del]

definition to_string :: "64 word \<Rightarrow> bytes" where
  "to_string n =
     (let un = (if sint n < 0 then - n else n);
          p = to_string_loop un []
      in if sint n < 0 then ch CHR ''-'' # p else p)"

subsection \<open>URL escaping\<close>

datatype string_error = invalid_escaped_string

definition hex_to_int :: "byte \<Rightarrow> int" where
  "hex_to_int c =
     (if ch CHR ''0'' \<le> c \<and> c \<le> ch CHR ''9'' then uint c - uint (ch CHR ''0'')
      else if ch CHR ''A'' \<le> c \<and> c \<le> ch CHR ''F'' then uint c - uint (ch CHR ''A'') + 10
      else if ch CHR ''a'' \<le> c \<and> c \<le> ch CHR ''f'' then uint c - uint (ch CHR ''a'') + 10
      else -1)"

fun unescape_loop :: "bytes \<Rightarrow> bytes \<Rightarrow> bytes \<times> string_error option" where
  "unescape_loop ret [] = (ret, None)"
| "unescape_loop ret (c # s) =
     (if c = ch CHR ''+'' then unescape_loop (ret @ [ch CHR '' '']) s
      else if c \<noteq> ch CHR ''%'' then unescape_loop (ret @ [c]) s
      else case s of
          [] \<Rightarrow> (ret, Some invalid_escaped_string)
        | h # s \<Rightarrow>
            if hex_to_int h = -1 then (ret, Some invalid_escaped_string)
            else (case s of
                [] \<Rightarrow> (ret, Some invalid_escaped_string)
              | l # s \<Rightarrow>
                  if hex_to_int l = -1 then (ret, Some invalid_escaped_string)
                  else unescape_loop (ret @ [word_of_int (hex_to_int h * 16 + hex_to_int l)]) s))"

definition unescape_string :: "bytes \<Rightarrow> bytes \<times> string_error option" where
  "unescape_string s = unescape_loop [] s"

definition unreserved_chars :: bytes where
  "unreserved_chars = str (''%+'' @ '';?:@=&,$/'' @ ''-_!.~*()'' @
     ''ABCDEFGHIJKLMNOPQRSTUVWXYZabcdefghijklmnopqrstuvwxyz'' @ ''0123456789'')"

definition hex_chars :: bytes where
  "hex_chars = str ''0123456789abcdef''"

text \<open>\<^verbatim>\<open>strchr\<close> also finds the terminating zero.\<close>

definition strchr :: "bytes \<Rightarrow> byte \<Rightarrow> bool" where
  "strchr s c \<longleftrightarrow> c \<in> set (s @ [0])"

definition escape_char :: "nat \<Rightarrow> byte \<Rightarrow> bytes" where
  "escape_char offset c =
     (if strchr (drop offset unreserved_chars) c \<and> c \<noteq> 0 then [c]
      else [ch CHR ''%'', hex_chars ! unat (drop_bit 4 c), hex_chars ! unat (c AND 15)])"

definition escape_string_impl :: "bytes \<Rightarrow> nat \<Rightarrow> bytes" where
  "escape_string_impl s offset = foldl (\<lambda>ret c. ret @ escape_char offset c) [] s"

definition escape_string :: "bytes \<Rightarrow> bytes" where
  "escape_string s = escape_string_impl s 11"

definition escape_path :: "bytes \<Rightarrow> bytes" where
  "escape_path s = escape_string_impl s 10"

definition need_encoding :: "bytes \<Rightarrow> bool" where
  "need_encoding s \<longleftrightarrow> list_ex (\<lambda>c. \<not> strchr unreserved_chars c \<or> c = 0) s"

definition convert_path_to_posix :: "bytes \<Rightarrow> bytes" where
  "convert_path_to_posix path = map (\<lambda>c. if c = ch (char_of (92 :: nat)) then ch CHR ''/'' else c) path"

text \<open>\<^verbatim>\<open>read_until\<close> also returns the new value of \<^verbatim>\<open>str\<close>.\<close>

definition read_until :: "bytes \<Rightarrow> byte \<Rightarrow> bytes \<times> bytes" where
  "read_until s delim =
     (takeWhile (\<lambda>c. c \<noteq> delim) s, dropWhile (\<lambda>c. c = delim) (dropWhile (\<lambda>c. c \<noteq> delim) s))"

subsection \<open>Base 64 and base 32\<close>

definition base64_table :: bytes where
  "base64_table = str ''ABCDEFGHIJKLMNOPQRSTUVWXYZabcdefghijklmnopqrstuvwxyz0123456789+/''"

definition base64_block :: "byte \<Rightarrow> byte \<Rightarrow> byte \<Rightarrow> bytes" where
  "base64_block a b c =
     [drop_bit 2 (a AND 0xfc),
      push_bit 4 (a AND 0x03) OR drop_bit 4 (b AND 0xf0),
      push_bit 2 (b AND 0x0f) OR drop_bit 6 (c AND 0xc0),
      c AND 0x3f]"

function base64encode :: "bytes \<Rightarrow> bytes" where
  "base64encode s =
     (if s = [] then []
      else
        let available_input = min 3 (length s);
            inbuf = take available_input s @ replicate (3 - available_input) 0;
            outbuf = base64_block (inbuf ! 0) (inbuf ! 1) (inbuf ! 2)
        in map (\<lambda>v. base64_table ! unat v) (take (available_input + 1) outbuf)
           @ replicate (3 - available_input) (ch CHR ''='')
           @ base64encode (drop available_input s))"
  by pat_completeness auto
termination
  by (relation "measure length") auto

declare base64encode.simps [simp del]

definition base32_table :: bytes where
  "base32_table = str ''ABCDEFGHIJKLMNOPQRSTUVWXYZ234567''"

definition base32_block :: "byte \<Rightarrow> byte \<Rightarrow> byte \<Rightarrow> byte \<Rightarrow> byte \<Rightarrow> bytes" where
  "base32_block i0 i1 i2 i3 i4 =
     [drop_bit 3 (i0 AND 0xf8),
      push_bit 2 (i0 AND 0x07) OR drop_bit 6 (i1 AND 0xc0),
      drop_bit 1 (i1 AND 0x3e),
      push_bit 4 (i1 AND 0x01) OR drop_bit 4 (i2 AND 0xf0),
      push_bit 1 (i2 AND 0x0f) OR drop_bit 7 (i3 AND 0x80),
      drop_bit 2 (i3 AND 0x7c),
      push_bit 3 (i3 AND 0x03) OR drop_bit 5 (i4 AND 0xe0),
      i4 AND 0x1f]"

function base32encode :: "bytes \<Rightarrow> bytes" where
  "base32encode s =
     (if s = [] then []
      else
        let available_input = min 5 (length s);
            inbuf = take available_input s @ replicate (5 - available_input) 0;
            outbuf = base32_block (inbuf ! 0) (inbuf ! 1) (inbuf ! 2) (inbuf ! 3) (inbuf ! 4);
            num_out = [0, 2, 4, 5, 7, 8] ! available_input
        in map (\<lambda>v. base32_table ! unat v) (take num_out outbuf)
           @ replicate (8 - num_out) (ch CHR ''='')
           @ base32encode (drop available_input s))"
  by pat_completeness auto
termination
  by (relation "measure length") auto

declare base32encode.simps [simp del]

definition toupper :: "byte \<Rightarrow> byte" where
  "toupper c = (if ch CHR ''a'' \<le> c \<and> c \<le> ch CHR ''z'' then c - 32 else c)"

text \<open>
  One group of \<^verbatim>\<open>base32decode\<close>: the loop that fills \<^verbatim>\<open>inbuf\<close> from the characters \<open>cs\<close> and finds the
  start of the padding; \<open>None\<close> is the early return of an empty string.
\<close>

fun base32_read :: "bytes \<Rightarrow> nat \<Rightarrow> nat \<Rightarrow> bytes \<Rightarrow> (bytes \<times> nat) option" where
  "base32_read [] j pad_start inbuf = Some (inbuf, pad_start)"
| "base32_read (c # cs) j pad_start inbuf =
     (let i = toupper c in
      if ch CHR ''A'' \<le> i \<and> i \<le> ch CHR ''Z''
      then base32_read cs (Suc j) pad_start (inbuf[j := i - ch CHR ''A''])
      else if ch CHR ''2'' \<le> i \<and> i \<le> ch CHR ''7''
      then base32_read cs (Suc j) pad_start (inbuf[j := i - ch CHR ''2'' + (ch CHR ''Z'' - ch CHR ''A'') + 1])
      else if i = ch CHR ''=''
      then base32_read cs (Suc j) (if pad_start = 0 then j else pad_start) (inbuf[j := 0])
      else if i = ch CHR ''1''
      then base32_read cs (Suc j) pad_start (inbuf[j := ch CHR ''I'' - ch CHR ''A''])
      else None)"

definition base32_unblock :: "bytes \<Rightarrow> bytes" where
  "base32_unblock inbuf =
     [push_bit 3 (inbuf ! 0) OR drop_bit 2 (inbuf ! 1),
      push_bit 6 (inbuf ! 1 AND 0x3) OR push_bit 1 (inbuf ! 2) OR drop_bit 4 (inbuf ! 3 AND 0x10),
      push_bit 4 (inbuf ! 3 AND 0x0f) OR drop_bit 1 (inbuf ! 4 AND 0x1e),
      push_bit 7 (inbuf ! 4 AND 0x01) OR push_bit 2 (inbuf ! 5 AND 0x1f) OR drop_bit 3 (inbuf ! 6 AND 0x18),
      push_bit 5 (inbuf ! 6 AND 0x07) OR inbuf ! 7]"

function base32decode_loop :: "bytes \<Rightarrow> bytes \<Rightarrow> bytes" where
  "base32decode_loop s ret =
     (if s = [] then ret
      else
        let available_input = min 8 (length s);
            pad_start = (if available_input < 8 then available_input else 0)
        in case base32_read (take available_input s) 0 pad_start (replicate 8 0) of
             None \<Rightarrow> []
           | Some (inbuf, pad_start) \<Rightarrow>
               base32decode_loop (drop available_input s)
                 (ret @ take ([5, 1, 1, 2, 2, 3, 4, 4, 5] ! pad_start) (base32_unblock inbuf)))"
  by pat_completeness auto
termination
  by (relation "measure (\<lambda>(s, ret). length s)") auto

declare base32decode_loop.simps [simp del]

definition base32decode :: "bytes \<Rightarrow> bytes" where
  "base32decode s = base32decode_loop s []"

subsection \<open>Hexadecimal\<close>

definition to_hex :: "bytes \<Rightarrow> bytes" where
  "to_hex s = foldl (\<lambda>ret c. ret @ [hex_chars ! unat (drop_bit 4 c), hex_chars ! unat (c AND 0xf)]) [] s"

definition is_hex :: "bytes \<Rightarrow> bool" where
  "is_hex s \<longleftrightarrow> list_all (\<lambda>c. hex_to_int c \<noteq> -1) s"

text \<open>\<^verbatim>\<open>from_hex\<close>: the success flag and what has been written to \<^verbatim>\<open>out\<close>.\<close>

fun from_hex :: "bytes \<Rightarrow> bytes \<Rightarrow> (bool \<times> bytes) option" where
  "from_hex [] out = Some (True, out)"
| "from_hex (c # s) out =
     (if hex_to_int c = -1 then Some (False, out)
      else case s of
          [] \<Rightarrow> None
        | d # s \<Rightarrow>
            let w = push_bit 4 (word_of_int (hex_to_int c)) in
            if hex_to_int d = -1 then Some (False, out @ [w])
            else from_hex s (out @ [w OR (word_of_int (hex_to_int d) AND 15)]))"


subsection \<open>Hexadecimal digits\<close>

lemma all_bytes:
  assumes "list_all (\<lambda>n. P (of_nat n)) [0..<256]"
  shows "P (c :: byte)"
proof -
  have "unat c < 256" using unsigned_less [of c, where 'a = nat] by simp
  then have "unat c \<in> set [0..<256]" by simp
  then have "P (of_nat (unat c))" using assms by (simp only: list_all_iff)
  then show ?thesis by simp
qed

lemma hex_digit:
  assumes "n < 16"
  shows "hex_to_int (hex_chars ! n) = int n" "hex_chars ! n \<noteq> ch CHR ''%''" "hex_chars ! n \<noteq> ch CHR ''+''"
proof -
  have "list_all (\<lambda>n. hex_to_int (hex_chars ! n) = int n \<and> hex_chars ! n \<noteq> ch CHR ''%'' \<and> hex_chars ! n \<noteq> ch CHR ''+'') [0..<16]"
    by code_simp
  then show "hex_to_int (hex_chars ! n) = int n" "hex_chars ! n \<noteq> ch CHR ''%''" "hex_chars ! n \<noteq> ch CHR ''+''"
    using assms by (simp_all add: list_all_iff)
qed

lemma hex_digit_ok: "n < 16 \<Longrightarrow> hex_to_int (hex_chars ! n) \<noteq> - 1"
  using hex_digit(1) [of n] by simp

lemma low_nibble: "c AND 15 = take_bit 4 (c :: byte)"
  by (simp add: take_bit_eq_mask mask_eq_exp_minus_1)

lemma nibbles:
  fixes c :: byte
  shows "unat (drop_bit 4 c) < 16" "unat (c AND 15) < 16"
    "word_of_int (int (unat (drop_bit 4 c)) * 16 + int (unat (c AND 15))) = c"
    "push_bit 4 (of_nat (unat (drop_bit 4 c))) OR (of_nat (unat (c AND 15)) AND 15) = c"
proof -
  have u: "unat (drop_bit 4 c) = unat c div 16" "unat (c AND 15) = unat c mod 16"
    by (simp_all add: low_nibble drop_bit_eq_div take_bit_eq_mod unat_div unat_mod)
  have "unat c < 256" using unsigned_less [of c, where 'a = nat] by simp
  then show "unat (drop_bit 4 c) < 16" "unat (c AND 15) < 16" using u by simp_all
  have "int (unat (drop_bit 4 c)) * 16 + int (unat (c AND 15)) = int (unat c)"
    unfolding u by (simp add: zdiv_int zmod_int)
  then show "word_of_int (int (unat (drop_bit 4 c)) * 16 + int (unat (c AND 15))) = c" by (simp only:) simp
  show "push_bit 4 (of_nat (unat (drop_bit 4 c))) OR (of_nat (unat (c AND 15)) AND 15) = c"
    unfolding low_nibble by (auto intro!: bit_word_eqI simp: bit_simps)
qed

lemma foldl_append: "foldl (\<lambda>ret c. ret @ f c) r s = r @ concat (map f s)"
  by (induction s arbitrary: r) simp_all

subsection \<open>Round trips\<close>

lemma unescape_hex:
  assumes "h < 16" "l < 16"
  shows "unescape_loop ret (ch CHR ''%'' # hex_chars ! h # hex_chars ! l # s) =
    unescape_loop (ret @ [word_of_int (int h * 16 + int l)]) s"
  using hex_digit [OF assms(1)] hex_digit [OF assms(2)] by simp

lemma unreserved_tail:
  assumes "c \<in> set (drop 10 unreserved_chars)"
  shows "c \<noteq> ch CHR ''%''" "c \<noteq> ch CHR ''+''"
proof -
  have "list_all (\<lambda>c. c \<noteq> ch CHR ''%'' \<and> c \<noteq> ch CHR ''+'') (drop 10 unreserved_chars)" by code_simp
  then show "c \<noteq> ch CHR ''%''" "c \<noteq> ch CHR ''+''" using assms by (simp_all add: list_all_iff)
qed

lemma unescape_escape_char:
  assumes "10 \<le> offset"
  shows "unescape_loop ret (escape_char offset c @ s) = unescape_loop (ret @ [c]) s"
proof (cases "strchr (drop offset unreserved_chars) c \<and> c \<noteq> 0")
  case True
  then have "c \<in> set (drop offset unreserved_chars)" by (auto simp: strchr_def)
  then have "c \<in> set (drop 10 unreserved_chars)" using set_drop_subset_set_drop [OF assms, of unreserved_chars] by blast
  note c = unreserved_tail [OF this]
  show ?thesis using True c by (simp add: escape_char_def)
next
  case False
  then have "escape_char offset c = [ch CHR ''%'', hex_chars ! unat (drop_bit 4 c), hex_chars ! unat (c AND 15)]"
    by (simp only: escape_char_def if_False)
  then show ?thesis
    using unescape_hex [OF nibbles(1,2) [of c], of ret s] by (simp only: append_Cons append_Nil nibbles(3))
qed

lemma unescape_escape:
  assumes "10 \<le> offset"
  shows "unescape_string (escape_string_impl s offset) = (s, None)"
proof -
  have "unescape_loop ret (concat (map (escape_char offset) s)) = (ret @ s, None)" for ret
    by (induction s arbitrary: ret) (simp_all add: unescape_escape_char [OF assms])
  then show ?thesis by (simp add: unescape_string_def escape_string_impl_def foldl_append)
qed

lemma to_hex_concat: "to_hex s = concat (map (\<lambda>c. [hex_chars ! unat (drop_bit 4 c), hex_chars ! unat (c AND 15)]) s)"
  by (simp add: to_hex_def foldl_append)

lemma from_hex_pair:
  assumes "h < 16" "l < 16"
  shows "from_hex (hex_chars ! h # hex_chars ! l # s) out =
    from_hex s (out @ [push_bit 4 (of_nat h) OR (of_nat l AND 15)])"
  using hex_digit [OF assms(1)] hex_digit [OF assms(2)] by simp

lemma from_hex_to_hex: "from_hex (to_hex s) out = Some (True, out @ s)"
  unfolding to_hex_concat
proof (induction s arbitrary: out)
  case (Cons c s)
  show ?case
    using from_hex_pair [OF nibbles(1,2) [of c]] Cons.IH
    by (simp only: list.map concat.simps append_Cons append_Nil nibbles(4) append_assoc)
qed simp

lemma is_hex_to_hex: "is_hex (to_hex s)"
  unfolding to_hex_concat is_hex_def list_all_iff 
  by (induction s) (simp_all add: hex_digit_ok nibbles del: of_nat_unat)

text \<open>\<^verbatim>\<open>from_hex\<close> succeeds exactly on an even number of digits; on an odd number it reads past the end.\<close>

lemma from_hex_outcome:
  "from_hex s out = None \<longleftrightarrow> is_hex s \<and> odd (length s)"
  "(\<exists>r. from_hex s out = Some (True, r)) \<longleftrightarrow> is_hex s \<and> even (length s)"
  by (induction s out rule: from_hex.induct) (auto simp: is_hex_def Let_def split: list.splits)


subsection \<open>Base 32\<close>

lemma byte_eqI:
  fixes a b :: byte
  assumes "bit a 0 = bit b 0" "bit a 1 = bit b 1" "bit a 2 = bit b 2" "bit a 3 = bit b 3"
    "bit a 4 = bit b 4" "bit a 5 = bit b 5" "bit a 6 = bit b 6" "bit a 7 = bit b 7"
  shows "a = b"
proof (rule bit_word_eqI)
  fix n assume "n < LENGTH(8)"
  then have "n = 0 \<or> n = 1 \<or> n = 2 \<or> n = 3 \<or> n = 4 \<or> n = 5 \<or> n = 6 \<or> n = 7" by auto
  then show "bit a n = bit b n" using assms by (elim disjE) simp_all
qed

lemma bit_times_2: "bit (x * 2 :: byte) n \<longleftrightarrow> 0 < n \<and> n < 8 \<and> bit x (n - 1)"
  using bit_double_iff [of x n] by (auto simp: mult.commute)

lemma base32_unblock_block: "base32_unblock (base32_block i0 i1 i2 i3 i4) = [i0, i1, i2, i3, i4]"
  unfolding base32_unblock_def base32_block_def
  by (simp, intro conjI; rule byte_eqI; simp add: bit_simps bit_times_2; simp add: numeral_2_eq_2 numeral_3_eq_3)

lemma base32_block_small: "v \<in> set (base32_block i0 i1 i2 i3 i4) \<Longrightarrow> unat v < 32"
proof -
  assume v: "v \<in> set (base32_block i0 i1 i2 i3 i4)"
  have "take_bit 5 v = v"
    using v unfolding base32_block_def by (auto intro!: byte_eqI simp: bit_simps bit_times_2)
  moreover have "unat (take_bit 5 v) = unat v mod 32" by (simp add: take_bit_eq_mod unat_mod)
  ultimately have "unat v = unat v mod 32" by simp
  then show ?thesis by (metis mod_less_divisor zero_less_numeral)
qed

text \<open>Reading back one character of the table, and the padding.\<close>

lemma base32_read_digit:
  assumes "unat v < 32"
  shows "base32_read (base32_table ! unat v # cs) j p inbuf = base32_read cs (Suc j) p (inbuf[j := v])"
proof -
  define f where "f i = (if ch CHR ''A'' \<le> i \<and> i \<le> ch CHR ''Z'' then Some (i - ch CHR ''A'')
      else if ch CHR ''2'' \<le> i \<and> i \<le> ch CHR ''7'' then Some (i - ch CHR ''2'' + (ch CHR ''Z'' - ch CHR ''A'') + 1)
      else None)" for i
  have "list_all (\<lambda>n. f (toupper (base32_table ! n)) = Some (of_nat n)) [0..<32]"
    unfolding f_def by (simp add: upt_rec base32_table_def toupper_def of_char_def)
  then have "f (toupper (base32_table ! unat v)) = Some (of_nat (unat v))"
    using assms by (simp only: list_all_iff) simp
  then show ?thesis by (auto simp: f_def Let_def split: if_splits)
qed

lemma base32_read_digits:
  assumes "\<forall>v \<in> set vs. unat v < 32" "j + length vs \<le> length inbuf"
  shows "base32_read (map (\<lambda>v. base32_table ! unat v) vs @ cs) j p inbuf =
    base32_read cs (j + length vs) p (take j inbuf @ vs @ drop (j + length vs) inbuf)"
  using assms
proof (induction vs arbitrary: j inbuf)
  case (Cons v vs)
  have "base32_read (map (\<lambda>v. base32_table ! unat v) (v # vs) @ cs) j p inbuf =
     base32_read (map (\<lambda>v. base32_table ! unat v) vs @ cs) (Suc j) p (inbuf[j := v])"
    using Cons.prems base32_read_digit by simp
  also have "\<dots> = base32_read cs (Suc j + length vs) p (take (Suc j) (inbuf[j := v]) @ vs @ drop (Suc j + length vs) (inbuf[j := v]))"
    using Cons.prems by (intro Cons.IH) auto
  also have "take (Suc j) (inbuf[j := v]) = take j inbuf @ [v]"
    using Cons.prems(2) by (simp add: take_Suc_conv_app_nth)
  finally show ?case using Cons.prems by simp
qed simp

lemma base32_read_pad:
  assumes "p \<noteq> 0 \<or> 0 < j" "j + n \<le> length inbuf"
  shows "base32_read (replicate n (ch CHR ''='')) j p inbuf =
    Some (take j inbuf @ replicate n 0 @ drop (j + n) inbuf, if p = 0 \<and> 0 < n then j else p)"
  using assms
proof (induction n arbitrary: j p inbuf)
  case (Suc n)
  have "base32_read (replicate (Suc n) (ch CHR ''='')) j p inbuf =
      base32_read (replicate n (ch CHR ''='')) (Suc j) (if p = 0 then j else p) (inbuf[j := 0])"
    by (simp add: toupper_def)
  also have "\<dots> = Some (take (Suc j) (inbuf[j := 0]) @ replicate n 0 @ drop (Suc j + n) (inbuf[j := 0]), if p = 0 then j else p)"
    using Suc.IH [of "if p = 0 then j else p" "Suc j" "inbuf[j := 0]"] Suc.prems by (auto split: if_splits)
  also have "take (Suc j) (inbuf[j := 0]) = take j inbuf @ [0]"
    using Suc.prems(2) by (simp add: take_Suc_conv_app_nth)
  finally show ?case using Suc.prems by simp
qed simp


lemma base32_group:
  assumes "length inbuf = 5" "k \<in> {1..5}" "\<forall>i \<in> {k..<5}. inbuf ! i = 0"
  defines "out \<equiv> base32_block (inbuf ! 0) (inbuf ! 1) (inbuf ! 2) (inbuf ! 3) (inbuf ! 4)"
    and "m \<equiv> [0, 2, 4, 5, 7, 8] ! k"
  shows "base32_read (map (\<lambda>v. base32_table ! unat v) (take m out) @ replicate (8 - m) (ch CHR ''='')) 0 0 (replicate 8 0)
      = Some (out, if m = 8 then 0 else m)" (is "?l = _")
    and "[5, 1, 1, 2, 2, 3, 4, 4, 5] ! (if m = 8 then 0 else m) = k"
    and "0 < m" "m \<le> 8" "length out = 8"
proof -
  have k: "k = 1 \<or> k = 2 \<or> k = 3 \<or> k = 4 \<or> k = 5" using assms(2) by auto
  then show m: "0 < m" "m \<le> 8" by (auto simp: m_def)
  show lo: "length out = 8" by (simp add: out_def base32_block_def)
  show "[5, 1, 1, 2, 2, 3, 4, 4, 5] ! (if m = 8 then 0 else m) = k" using k by (auto simp: m_def)
  have z: "drop m out = replicate (8 - m) 0"
    using k assms(3) unfolding out_def m_def base32_block_def
    by (elim disjE) (simp_all add: replicate_eq_replicate numeral_eq_Suc)
  have "?l = base32_read (replicate (8 - m) (ch CHR ''='')) m 0 (take m out @ replicate (8 - m) 0)"
    using base32_read_digits [of "take m out" 0 "replicate 8 0" "replicate (8 - m) (ch CHR ''='')" 0] m lo
      base32_block_small set_take_subset [of m out] unfolding out_def by fastforce
  also have "\<dots> = Some (take m out @ replicate (8 - m) 0, if m = 8 then 0 else m)"
    using base32_read_pad [of 0 m "8 - m" "take m out @ replicate (8 - m) 0"] m lo by auto
  also have "take m out @ replicate (8 - m) 0 = out" using z by (metis append_take_drop_id)
  finally show "?l = Some (out, if m = 8 then 0 else m)" .
qed

lemma base32decode_encode_loop: "base32decode_loop (base32encode s) ret = ret @ s"
proof (induction s arbitrary: ret rule: base32encode.induct)
  case (1 s)
  show ?case
  proof (cases "s = []")
    case True
    then show ?thesis by (simp add: base32encode.simps base32decode_loop.simps)
  next
    case False
    define k where "k = min 5 (length s)"
    define inbuf where "inbuf = take k s @ replicate (5 - k) 0"
    define out where "out = base32_block (inbuf ! 0) (inbuf ! 1) (inbuf ! 2) (inbuf ! 3) (inbuf ! 4)"
    define m :: nat where "m = [0, 2, 4, 5, 7, 8] ! k"
    define grp where "grp = map (\<lambda>v. base32_table ! unat v) (take m out) @ replicate (8 - m) (ch CHR ''='')"
    have k: "k \<in> {1..5}" "k \<le> length s" using False by (auto simp: k_def Suc_le_eq)
    have len: "length inbuf = 5" using k by (simp add: inbuf_def)
    have z: "\<forall>i \<in> {k..<5}. inbuf ! i = 0" using k by (auto simp: inbuf_def nth_append)
    note g = base32_group [OF len k(1) z, folded out_def m_def]
    have lg: "length grp = 8" using g(4,5) by (simp add: grp_def)
    have e: "base32encode s = grp @ base32encode (drop k s)"
      using False by (subst base32encode.simps) (simp add: k_def inbuf_def out_def m_def grp_def Let_def)
    have in5: "[inbuf ! 0, inbuf ! 1, inbuf ! 2, inbuf ! 3, inbuf ! 4] = inbuf"
      using len by (auto simp: length_Suc_conv numeral_eq_Suc)
    have u: "take k (base32_unblock out) = take k s"
      unfolding out_def base32_unblock_block in5 using k by (simp add: inbuf_def)
    have "base32decode_loop (base32encode s) ret = base32decode_loop (base32encode (drop k s)) (ret @ take k s)"
      using lg g(1,2) u unfolding e grp_def [symmetric]
      by (subst base32decode_loop.simps) (auto simp: grp_def [symmetric])
    also have "\<dots> = (ret @ take k s) @ drop k s"
      by (rule "1"(1) [OF False, of k inbuf out m]) (simp_all add: k_def inbuf_def out_def m_def)
    finally show ?thesis by simp
  qed
qed

lemma base32_roundtrip: "base32decode (base32encode s) = s"
  by (simp add: base32decode_def base32decode_encode_loop)


subsection \<open>Base 64\<close>

text \<open>A reference decoder, written from RFC 4648, for groups of four characters.\<close>

definition b64_index :: "byte \<Rightarrow> byte" where
  "b64_index c = of_nat (length (takeWhile (\<lambda>d. d \<noteq> c) base64_table))"

fun base64_ref_decode :: "bytes \<Rightarrow> bytes" where
  "base64_ref_decode (c0 # c1 # c2 # c3 # s) =
     (let v0 = b64_index c0; v1 = b64_index c1; v2 = b64_index c2; v3 = b64_index c3 in
      (push_bit 2 v0 OR drop_bit 4 v1) #
      (if c2 = ch CHR ''='' then []
       else (push_bit 4 v1 OR drop_bit 2 v2) #
         (if c3 = ch CHR ''='' then [] else [push_bit 6 v2 OR v3])) @ base64_ref_decode s)"
| "base64_ref_decode _ = []"

lemma base64_digit:
  assumes "unat v < 64"
  shows "b64_index (base64_table ! unat v) = v" "base64_table ! unat v \<noteq> ch CHR ''=''"
proof -
  have "list_all (\<lambda>n. base64_table ! n \<noteq> ch CHR ''='') [0..<64]"
    by (simp add: upt_rec base64_table_def of_char_def)
  moreover have "list_all (\<lambda>n. length (takeWhile (\<lambda>d. d \<noteq> base64_table ! n) base64_table) = n) [0..<64]"
    by code_simp
  ultimately show "base64_table ! unat v \<noteq> ch CHR ''=''" "b64_index (base64_table ! unat v) = v"
    using assms by (simp_all add: list_all_iff b64_index_def)
qed

lemma small_6: "take_bit 6 v = v \<Longrightarrow> unat (v :: byte) < 64"
proof -
  assume "take_bit 6 v = v"
  moreover have "unat (take_bit 6 v) = unat v mod 64" by (simp add: take_bit_eq_mod unat_mod)
  ultimately have "unat v = unat v mod 64" by simp
  then show ?thesis by (metis mod_less_divisor zero_less_numeral)
qed

lemma base64_block_small: "v \<in> set (base64_block a b c) \<Longrightarrow> unat v < 64"
  unfolding base64_block_def by (rule small_6) (auto intro!: byte_eqI simp: bit_simps)

lemma base64_block_bits:
  "push_bit 2 (base64_block a b c ! 0) OR drop_bit 4 (base64_block a b c ! 1) = a"
  "push_bit 4 (base64_block a b c ! 1) OR drop_bit 2 (base64_block a b c ! 2) = b"
  "push_bit 6 (base64_block a b c ! 2) OR base64_block a b c ! 3 = c"
  unfolding base64_block_def by (rule byte_eqI; simp add: bit_simps)+

lemma base64_ref_group:
  assumes "vs = base64_block a b c"
  defines "t \<equiv> \<lambda>i. base64_table ! unat (vs ! i)"
  shows "base64_ref_decode (t 0 # t 1 # t 2 # t 3 # s) = a # b # c # base64_ref_decode s"
    "base64_ref_decode (t 0 # t 1 # t 2 # ch CHR ''='' # s) = a # b # base64_ref_decode s"
    "base64_ref_decode (t 0 # t 1 # ch CHR ''='' # ch CHR ''='' # s) = a # base64_ref_decode s"
proof -
  have "length vs = 4" using assms by (simp add: base64_block_def)
  then have "unat (vs ! i) < 64" if "i < 4" for i using that assms(1) base64_block_small nth_mem by metis
  then have t: "b64_index (t i) = vs ! i" "t i \<noteq> ch CHR ''=''" if "i < 4" for i
    using that base64_digit unfolding t_def by blast+
  show "base64_ref_decode (t 0 # t 1 # t 2 # t 3 # s) = a # b # c # base64_ref_decode s"
    "base64_ref_decode (t 0 # t 1 # t 2 # ch CHR ''='' # s) = a # b # base64_ref_decode s"
    "base64_ref_decode (t 0 # t 1 # ch CHR ''='' # ch CHR ''='' # s) = a # base64_ref_decode s"
    using t base64_block_bits [of a b c] assms(1) by (simp_all add: Let_def)
qed

lemma base64_roundtrip: "base64_ref_decode (base64encode s) = s \<and> length (base64encode s) = 4 * ((length s + 2) div 3)"
proof (induction s rule: base64encode.induct)
  case (1 s)
  consider "s = []" | a where "s = [a]" | a b where "s = [a, b]" | a b c r where "s = a # b # c # r"
    by (metis neq_Nil_conv)
  then show ?case
  proof cases
    case 1
    then show ?thesis by (simp add: base64encode.simps)
  next
    case (2 a)
    then have "base64encode s = base64_table ! unat (base64_block a 0 0 ! 0) # base64_table ! unat (base64_block a 0 0 ! 1)
        # ch CHR ''='' # ch CHR ''='' # base64encode []"
      by (subst base64encode.simps) (simp add: base64_block_def numeral_eq_Suc)
    then show ?thesis using 2 base64_ref_group(3) [OF refl, of a 0 0 "base64encode []"] by (simp add: base64encode.simps [of "[]"])
  next
    case (3 a b)
    then have "base64encode s = base64_table ! unat (base64_block a b 0 ! 0) # base64_table ! unat (base64_block a b 0 ! 1)
        # base64_table ! unat (base64_block a b 0 ! 2) # ch CHR ''='' # base64encode []"
      by (subst base64encode.simps) (simp add: base64_block_def numeral_eq_Suc)
    then show ?thesis using 3 base64_ref_group(2) [OF refl, of a b 0 "base64encode []"] by (simp add: base64encode.simps [of "[]"])
  next
    case (4 a b c r)
    have m: "min 3 (length s) = 3" using 4 by simp
    have "base64encode s = base64_table ! unat (base64_block a b c ! 0) # base64_table ! unat (base64_block a b c ! 1)
        # base64_table ! unat (base64_block a b c ! 2) # base64_table ! unat (base64_block a b c ! 3) # base64encode r"
      using 4 m by (subst base64encode.simps) (simp add: base64_block_def Let_def)
    moreover have "base64_ref_decode (base64encode r) = r \<and> length (base64encode r) = 4 * ((length r + 2) div 3)"
      using "1" [of 3 "[a, b, c]" "base64_block a b c"] 4 m by simp
    moreover have "(length s + 2) div 3 = Suc ((length r + 2) div 3)" using 4 by simp
    ultimately show ?thesis using 4 base64_ref_group(1) [OF refl, of a b c "base64encode r"] by (simp del: base64_ref_decode.simps)
  qed
qed

subsection \<open>Printing numbers\<close>

definition decimal_value :: "bytes \<Rightarrow> nat" where
  "decimal_value s = foldl (\<lambda>v c. v * 10 + (unat c - 48)) 0 s"

definition signed_value :: "bytes \<Rightarrow> int" where
  "signed_value s = (case s of c # r \<Rightarrow> if c = ch CHR ''-'' then - int (decimal_value r) else int (decimal_value s) | [] \<Rightarrow> 0)"

definition is_digit :: "byte \<Rightarrow> bool" where
  "is_digit c \<longleftrightarrow> 48 \<le> unat c \<and> unat c \<le> 57"

lemma digit_char:
  fixes un :: "64 word"
  shows "unat (48 + ucast (un mod 10) :: byte) = 48 + unat un mod 10"
proof -
  have "unat (un mod 10) = unat un mod 10" by (simp add: unat_mod)
  then have u: "unat (ucast (un mod 10) :: byte) = unat un mod 10"
    by (simp add: unsigned_ucast_eq take_bit_eq_mod)
  then show ?thesis by (subst unat_add_lem [THEN iffD1]) simp_all
qed

lemma to_string_loop_value:
  "foldl (\<lambda>v c. v * 10 + (unat c - 48)) 0 (to_string_loop un p) =
     foldl (\<lambda>v c. v * 10 + (unat c - 48)) (unat un) p"
proof (induction un p rule: to_string_loop.induct)
  case (1 un p)
  let ?p = "(ch CHR ''0'' + ucast (un mod 10)) # p"
  show ?case
  proof (cases "un div 10 = 0")
    case True
    then have "unat un < 10" using unat_div [of un 10] by (simp add: div_eq_0_iff)
    then show ?thesis using True by (subst to_string_loop.simps) (simp add: digit_char Let_def)
  next
    case False
    have "unat un = unat (un div 10) * 10 + unat un mod 10" by (simp add: unat_div)
    then show ?thesis using False "1" [OF refl refl False]
      by (subst to_string_loop.simps) (simp add: digit_char Let_def)
  qed
qed

lemma to_string_loop_digits:
  "\<forall>c \<in> set p. is_digit c \<Longrightarrow> unat un < 10 ^ Suc k \<Longrightarrow>
   (\<forall>c \<in> set (to_string_loop un p). is_digit c) \<and> to_string_loop un p \<noteq> [] \<and>
   length (to_string_loop un p) \<le> Suc k + length p"
proof (induction un p arbitrary: k rule: to_string_loop.induct)
  case (1 un p)
  have d: "is_digit (ch CHR ''0'' + ucast (un mod 10))" using digit_char [of un] by (simp add: is_digit_def)
  show ?case
  proof (cases "un div 10 = 0")
    case True
    then show ?thesis using d "1.prems" by (subst (1 2 3) to_string_loop.simps) (simp add: Let_def)
  next
    case False
    then have "unat un div 10 \<noteq> 0" using unat_div [of un 10] unat_0_iff [of "un div 10"] by simp
    then have "unat un \<ge> 10" by (simp add: div_eq_0_iff)
    then obtain j where j: "k = Suc j" using "1.prems"(2) by (cases k) auto
    have "unat (un div 10) < 10 ^ Suc j" using "1.prems"(2) j by (simp add: unat_div less_mult_imp_div_less mult.commute)
    then show ?thesis using "1.IH" [OF refl refl False, of j] d "1.prems"(1) False j
      by (subst (1 2 3) to_string_loop.simps) (simp add: Let_def)
  qed
qed


lemma to_string_value:
  "signed_value (to_string n) = sint n \<and> length (to_string n) \<le> 21"
proof -
  define un where "un = (if sint n < 0 then - n else n)"
  have "unat un < 2 ^ 64" using unsigned_less [of un, where 'a = nat] by simp
  also have "(2 :: nat) ^ 64 < 10 ^ Suc 19" by simp
  finally have lt: "unat un < 10 ^ Suc 19" .
  note d = to_string_loop_digits [of "[]" un 19, simplified, OF lt [simplified]]
  have v: "decimal_value (to_string_loop un []) = unat un"
    using to_string_loop_value [of un "[]"] by (simp add: decimal_value_def)
  have b: "- (2 ^ 63) \<le> sint n" "sint n < 2 ^ 63" using sint_ge [of n] sint_lt [of n] by simp_all
  have m: "uint n = sint n mod 2 ^ 64" by (simp add: uint_sint take_bit_eq_mod)
  have n: "int (unat un) = \<bar>sint n\<bar>"
  proof (cases "sint n < 0")
    case True
    have "uint (- n) = (- uint n) mod 2 ^ 64" by (simp add: uint_word_ariths)
    also have "\<dots> = (- sint n) mod 2 ^ 64" unfolding m by (simp add: mod_minus_eq)
    also have "\<dots> = - sint n" using True b by (intro mod_pos_pos_trivial) auto
    finally show ?thesis using True by (simp add: un_def)
  next
    case False
    then show ?thesis using m b by (simp add: un_def)
  qed
  obtain c r where cr: "to_string_loop un [] = c # r" "is_digit c"
    using d by (cases "to_string_loop un []") auto
  then have "c \<noteq> ch CHR ''-''" by (auto simp: is_digit_def)
  then have "signed_value (to_string n) = sint n"
    using cr v n by (auto simp: signed_value_def to_string_def un_def [symmetric] Let_def)
  moreover have "length (to_string n) \<le> 21"
    using d by (auto simp: to_string_def un_def [symmetric] Let_def)
  ultimately show ?thesis by simp
qed


subsection \<open>Codecs\<close>

text \<open>What the callers that store values in text rely on: decoding undoes encoding for every proper value.\<close>

locale codec =
  fixes ok :: "'a \<Rightarrow> bool"
    and enc :: "'a \<Rightarrow> bytes"
    and dec :: "bytes \<Rightarrow> 'a option"
  assumes dec_enc: "ok s \<Longrightarrow> dec (enc s) = Some s"
begin

lemma enc_inject: "ok s \<Longrightarrow> ok t \<Longrightarrow> enc s = enc t \<longleftrightarrow> s = t"
  using dec_enc by (metis option.inject)

lemma enc_lookup: "\<forall>x \<in> set ks. ok x \<Longrightarrow> ok k \<Longrightarrow> map_of (zip (map enc ks) vs) (enc k) = map_of (zip ks vs) k"
proof (induction ks arbitrary: vs)
  case (Cons x ks)
  then show ?case by (cases vs) (auto simp: enc_inject)
qed simp

end

definition hex_decode :: "bytes \<Rightarrow> bytes option" where
  "hex_decode s = (case from_hex s [] of Some (True, r) \<Rightarrow> Some r | _ \<Rightarrow> None)"

definition url_decode :: "bytes \<Rightarrow> bytes option" where
  "url_decode s = (case unescape_string s of (r, None) \<Rightarrow> Some r | _ \<Rightarrow> None)"

interpretation hex: codec "\<lambda>_. True" to_hex hex_decode
  by unfold_locales (simp add: hex_decode_def from_hex_to_hex)

interpretation b32: codec "\<lambda>_. True" base32encode "\<lambda>s. Some (base32decode s)"
  by unfold_locales (simp add: base32_roundtrip)

interpretation url: codec "\<lambda>_. True" escape_string url_decode
  by unfold_locales (simp add: url_decode_def escape_string_def unescape_escape)

interpretation path: codec "\<lambda>_. True" escape_path url_decode
  by unfold_locales (simp add: url_decode_def escape_path_def unescape_escape)

lemma escaped_unreserved: "c \<in> set (escape_string_impl s offset) \<Longrightarrow> c \<in> set unreserved_chars \<and> c \<noteq> 0"
proof -
  assume "c \<in> set (escape_string_impl s offset)"
  then obtain d where d: "c \<in> set (escape_char offset d)" by (auto simp: escape_string_impl_def foldl_append)
  have h: "list_all (\<lambda>n. hex_chars ! n \<in> set unreserved_chars \<and> hex_chars ! n \<noteq> 0) [0..<16]"
    "ch CHR ''%'' \<in> set unreserved_chars" by code_simp+
  have "hex_chars ! n \<in> set unreserved_chars \<and> hex_chars ! n \<noteq> 0" if "n < 16" for n
    using h(1) that by (simp add: list_all_iff)
  then have "hex_chars ! unat (drop_bit 4 d) \<in> set unreserved_chars \<and> hex_chars ! unat (drop_bit 4 d) \<noteq> 0"
    "hex_chars ! unat (d AND 15) \<in> set unreserved_chars \<and> hex_chars ! unat (d AND 15) \<noteq> 0"
    using nibbles(1,2) by blast+
  then show ?thesis
    using d h(2) by (auto simp: escape_char_def strchr_def dest: in_set_dropD split: if_splits)
qed

subsection \<open>Properties\<close>

lemma escape_facts:
  "unescape_string (escape_string s) = (s, None) \<and> unescape_string (escape_path s) = (s, None) \<and>
   \<not> need_encoding (escape_string s) \<and> \<not> need_encoding (escape_path s) \<and>
   (escape_string s = escape_string t \<longleftrightarrow> s = t)"
proof -
  have "\<not> need_encoding (escape_string_impl s offset)" for offset
    using escaped_unreserved by (auto simp: need_encoding_def list_ex_iff strchr_def)
  then show ?thesis
    using unescape_escape [of 11 s] unescape_escape [of 10 s] url.enc_inject [of s t]
    by (simp add: escape_string_def escape_path_def)
qed


end
