(* ===== verification/IP_Filter.thy ===== *)
theory IP_Filter
  imports Prelude "HOL-Library.List_Lexorder" "HOL-Library.Code_Target_Numeral"
begin

text \<open>
  \<^verbatim>\<open>include/libtorrent/ip_filter.hpp\<close> and \<^verbatim>\<open>src/ip_filter.cpp\<close>. \<^verbatim>\<open>filter_impl\<close> keeps a \<^verbatim>\<open>std::set\<close> of
  ranges ordered by their start; here it is the list of its elements in that order, and an
  iterator is a position in it. The template parameter \<^verbatim>\<open>Addr\<close> is a type of class \<open>linorder\<close>
  with \<^verbatim>\<open>plus_one\<close>, \<^verbatim>\<open>minus_one\<close> and \<^verbatim>\<open>max_addr\<close> as arguments: the three instances are arrays of 4
  and of 16 bytes, compared lexicographically, and 16-bit ports.
\<close>

subsection \<open>Addresses\<close>

definition zero_bytes :: "nat \<Rightarrow> byte list" where
  "zero_bytes n = replicate n 0"

definition max_bytes :: "nat \<Rightarrow> byte list" where
  "max_bytes n = replicate n 0xff"

text \<open>The loops run from the last byte to the first; they are written on the reversed array.\<close>

fun plus_one_rev :: "byte list \<Rightarrow> byte list" where
  "plus_one_rev [] = []"
| "plus_one_rev (b # bs) = (if b < 0xff then (b + 1) # bs else 0 # plus_one_rev bs)"

definition plus_one_bytes :: "byte list \<Rightarrow> byte list" where
  "plus_one_bytes a = rev (plus_one_rev (rev a))"

fun minus_one_rev :: "byte list \<Rightarrow> byte list" where
  "minus_one_rev [] = []"
| "minus_one_rev (b # bs) = (if 0 < b then (b - 1) # bs else 0xff # minus_one_rev bs)"

definition minus_one_bytes :: "byte list \<Rightarrow> byte list" where
  "minus_one_bytes a = rev (minus_one_rev (rev a))"

definition plus_one_port :: "16 word \<Rightarrow> 16 word" where
  "plus_one_port v = v + 1"

definition minus_one_port :: "16 word \<Rightarrow> 16 word" where
  "minus_one_port v = v - 1"

definition max_port :: "16 word" where
  "max_port = 0xffff"

subsection \<open>The filter\<close>

type_synonym 'a range_t = "('a \<times> int) list"

definition filter_init :: "'a \<Rightarrow> 'a range_t" where
  "filter_init z = [(z, 0)]"

definition upper_bound :: "'a::linorder range_t \<Rightarrow> 'a \<Rightarrow> nat" where
  "upper_bound L a = length (takeWhile (\<lambda>r. fst r \<le> a) L)"

text \<open>\<^verbatim>\<open>std::set::insert\<close>: the position of the new or of the equivalent element, and whether it is new.\<close>

definition set_insert :: "'a::linorder range_t \<Rightarrow> 'a \<times> int \<Rightarrow> 'a range_t \<times> nat \<times> bool" where
  "set_insert L r =
     (let k = length (takeWhile (\<lambda>x. fst x < fst r) L) in
      if k < length L \<and> fst (L ! k) = fst r then (L, k, False) else (vec_insert L k r, k, True))"

text \<open>An iterator after an insertion at \<open>k\<close>.\<close>

definition shift :: "nat \<Rightarrow> bool \<Rightarrow> nat \<Rightarrow> nat" where
  "shift k ins j = (if ins \<and> k \<le> j then j + 1 else j)"

text \<open>
  \<^verbatim>\<open>add_rule\<close> in four steps: \<open>rule_open\<close> makes \<open>i\<close> the range that will hold \<open>first\<close>, then the ranges
  between \<open>i\<close> and \<open>j\<close> are erased, \<open>rule_mark\<close> sets the flags, and \<open>rule_close\<close> restores the
  access after \<open>lst\<close> and merges.
\<close>

definition rule_open :: "'a::linorder range_t \<Rightarrow> nat \<Rightarrow> nat \<Rightarrow> 'a \<Rightarrow> int \<Rightarrow> 'a range_t \<times> nat \<times> nat \<times> int" where
  "rule_open L i j first flags =
     (let first_access = snd (L ! i) in
      if fst (L ! i) \<noteq> first \<and> first_access \<noteq> flags
      then case set_insert L (first, flags) of (L, k, ins) \<Rightarrow> (L, k, shift k ins j, first_access)
      else if i \<noteq> 0 \<and> snd (L ! (i - 1)) = flags
      then (L, i - 1, j, snd (L ! (i - 1)))
      else (L, i, j, first_access))"

definition rule_mark :: "'a::linorder range_t \<Rightarrow> nat \<Rightarrow> nat \<Rightarrow> 'a \<Rightarrow> int \<Rightarrow> int \<Rightarrow> 'a range_t \<times> nat" where
  "rule_mark L i j first first_access flags =
     (if fst (L ! i) = first then (L[i := (first, flags)], j)
      else if first_access \<noteq> flags
      then case set_insert L (first, flags) of (L, k, ins) \<Rightarrow> (L, shift k ins j)
      else (L, j))"

definition rule_close ::
  "('a::linorder \<Rightarrow> 'a) \<Rightarrow> ('a \<Rightarrow> 'a) \<Rightarrow> 'a \<Rightarrow> 'a range_t \<Rightarrow> nat \<Rightarrow> 'a \<Rightarrow> int \<Rightarrow> int \<Rightarrow> 'a range_t" where
  "rule_close plus_one minus_one max_addr L j lst last_access flags =
     (let (L, j) =
            (if (j \<noteq> length L \<and> minus_one (fst (L ! j)) \<noteq> lst) \<or> (j = length L \<and> lst \<noteq> max_addr)
             then if last_access \<noteq> flags
                  then case set_insert L (plus_one lst, last_access) of (L, k, ins) \<Rightarrow> (L, k)
                  else (L, j)
             else (L, j))
      in if j \<noteq> length L \<and> snd (L ! j) = flags then vec_erase L j else L)"

definition add_rule :: "('a::linorder \<Rightarrow> 'a) \<Rightarrow> ('a \<Rightarrow> 'a) \<Rightarrow> 'a \<Rightarrow> 'a range_t \<Rightarrow> 'a \<Rightarrow> 'a \<Rightarrow> int \<Rightarrow> 'a range_t" where
  "add_rule plus_one minus_one max_addr L first lst flags =
     (let i = upper_bound L first;
          j = upper_bound L lst;
          i = (if i \<noteq> 0 then i - 1 else i);
          last_access = snd (L ! (j - 1));
          (L, i, j, first_access) = rule_open L i j first flags;
          (L, j) = (if i \<noteq> j then (take (i + 1) L @ drop j L, i + 1) else (L, j));
          (L, j) = rule_mark L i j first first_access flags
      in rule_close plus_one minus_one max_addr L j lst last_access flags)"

definition access :: "'a::linorder range_t \<Rightarrow> 'a \<Rightarrow> int" where
  "access L addr =
     (let i = upper_bound L addr; i = (if i \<noteq> 0 then i - 1 else i) in snd (L ! i))"

record 'a ip_range =
  r_first :: 'a
  r_last :: 'a
  r_flags :: int

fun export_filter :: "('a \<Rightarrow> 'a) \<Rightarrow> 'a \<Rightarrow> 'a range_t \<Rightarrow> 'a ip_range list" where
  "export_filter minus_one max_addr [] = []"
| "export_filter minus_one max_addr ((s, f) # L) =
     \<lparr>r_first = s, r_last = (case L of [] \<Rightarrow> max_addr | (t, _) # _ \<Rightarrow> minus_one t), r_flags = f\<rparr>
     # export_filter minus_one max_addr L"

subsection \<open>The two kinds of filter\<close>

datatype address = v4 "byte list" | v6 "byte list"

record ip_filter =
  m_filter4 :: "byte list range_t"
  m_filter6 :: "byte list range_t"

definition ip_filter_init :: ip_filter where
  "ip_filter_init = \<lparr>m_filter4 = filter_init (zero_bytes 4), m_filter6 = filter_init (zero_bytes 16)\<rparr>"

text \<open>Addresses of different kinds are the failed assertion: \<open>None\<close>.\<close>

fun ip_add_rule :: "ip_filter \<Rightarrow> address \<Rightarrow> address \<Rightarrow> int \<Rightarrow> ip_filter option" where
  "ip_add_rule f (v4 a) (v4 b) flags =
     Some (f\<lparr>m_filter4 := add_rule plus_one_bytes minus_one_bytes (max_bytes 4) (m_filter4 f) a b flags\<rparr>)"
| "ip_add_rule f (v6 a) (v6 b) flags =
     Some (f\<lparr>m_filter6 := add_rule plus_one_bytes minus_one_bytes (max_bytes 16) (m_filter6 f) a b flags\<rparr>)"
| "ip_add_rule f _ _ flags = None"

fun ip_access :: "ip_filter \<Rightarrow> address \<Rightarrow> int" where
  "ip_access f (v4 a) = access (m_filter4 f) a"
| "ip_access f (v6 a) = access (m_filter6 f) a"

definition ip_export :: "ip_filter \<Rightarrow> byte list ip_range list \<times> byte list ip_range list" where
  "ip_export f = (export_filter minus_one_bytes (max_bytes 4) (m_filter4 f),
                  export_filter minus_one_bytes (max_bytes 16) (m_filter6 f))"

definition port_add_rule :: "16 word range_t \<Rightarrow> 16 word \<Rightarrow> 16 word \<Rightarrow> int \<Rightarrow> 16 word range_t" where
  "port_add_rule L first lst flags = add_rule plus_one_port minus_one_port max_port L first lst flags"

definition port_access :: "16 word range_t \<Rightarrow> 16 word \<Rightarrow> int" where
  "port_access L port = access L port"


subsection \<open>What a filter means\<close>

text \<open>The access of the last range that starts at or before \<open>a\<close>.\<close>

definition acc :: "'a::linorder range_t \<Rightarrow> 'a \<Rightarrow> int" where
  "acc L a = snd (last (filter (\<lambda>r. fst r \<le> a) L))"

definition range_wf :: "('a::linorder \<Rightarrow> bool) \<Rightarrow> 'a \<Rightarrow> 'a range_t \<Rightarrow> bool" where
  "range_wf valid z L \<longleftrightarrow> L \<noteq> [] \<and> fst (hd L) = z \<and> (\<forall>r \<in> set L. valid (fst r)) \<and>
     sorted_wrt (<) (map fst L) \<and> successively (\<lambda>r t. snd r \<noteq> snd t) L"

lemma takeWhile_le_split:
  assumes "sorted_wrt (<) (map fst L)" "L = P @ Q" "\<forall>r \<in> set P. fst r \<le> a" "\<forall>r \<in> set Q. a < fst r"
  shows "upper_bound L a = length P"
  using assms by (cases Q) (auto simp: upper_bound_def takeWhile_append takeWhile_eq_all_conv [THEN iffD2])

lemma sorted_split:
  fixes L :: "'a::linorder range_t"
  assumes "sorted_wrt (<) (map fst L)"
  obtains P Q where "L = P @ Q" "\<forall>r \<in> set P. fst r \<le> a" "\<forall>r \<in> set Q. a < fst r"
proof
  show "L = takeWhile (\<lambda>r. fst r \<le> a) L @ dropWhile (\<lambda>r. fst r \<le> a) L" by simp
  show "\<forall>r \<in> set (takeWhile (\<lambda>r. fst r \<le> a) L). fst r \<le> a" by (auto dest: set_takeWhileD)
  show "\<forall>r \<in> set (dropWhile (\<lambda>r. fst r \<le> a) L). a < fst r"
    using assms
  proof (induction L)
    case (Cons r L)
    show ?case
    proof (cases "fst r \<le> a")
      case False
      then have a: "a < fst r" by simp
      have "\<forall>x \<in> set L. fst r < fst x" using Cons.prems by simp
      then have "\<forall>x \<in> set L. a < fst x" using a less_trans by blast
      then show ?thesis using a False by simp
    qed (use Cons in simp)
  qed simp
qed

lemma acc_append:
  "acc (P @ Q) a = (if filter (\<lambda>r. fst r \<le> a) Q = [] then acc P a else acc Q a)"
  by (simp add: acc_def)

lemma acc_snoc [simp]: "acc (P @ [(s, x)]) a = (if s \<le> a then x else acc P a)"
  by (simp add: acc_append) (simp add: acc_def)

lemma acc_above: "\<forall>r \<in> set Q. a < fst r \<Longrightarrow> acc (P @ Q) a = acc P a"
  by (auto simp: acc_append filter_empty_conv not_le)

lemma access_acc:
  assumes "sorted_wrt (<) (map fst L)" "L \<noteq> []" "fst (hd L) \<le> a"
  shows "access L a = acc L a"
proof -
  obtain P Q where pq: "L = P @ Q" "\<forall>r \<in> set P. fst r \<le> a" "\<forall>r \<in> set Q. a < fst r"
    by (rule sorted_split [OF assms(1)])
  have ne: "P \<noteq> []"
  proof
    assume "P = []"
    then have "hd L \<in> set Q" using pq(1) assms(2) by simp
    then show False using pq(3) assms(3) by (meson not_le)
  qed
  have "upper_bound L a = length P" by (rule takeWhile_le_split [OF assms(1) pq])
  moreover have "filter (\<lambda>r. fst r \<le> a) L = P"
    using pq by (simp add: filter_id_conv filter_empty_conv not_le)
  ultimately show ?thesis using ne pq(1) by (simp add: access_def acc_def Let_def nth_append last_conv_nth)
qed

lemma set_insert_at:
  assumes "sorted_wrt (<) (map fst (P @ Q))" "\<forall>r \<in> set P. fst r < a" "\<forall>r \<in> set Q. a < fst r"
  shows "set_insert (P @ Q) (a, x) = (P @ (a, x) # Q, length P, True)"
proof -
  have "length (takeWhile (\<lambda>x. fst x < a) (P @ Q)) = length P"
    using assms by (cases Q) (auto simp: takeWhile_append takeWhile_eq_all_conv [THEN iffD2])
  moreover have "\<not> (length P < length (P @ Q) \<and> fst ((P @ Q) ! length P) = a)"
    using assms(3) by (cases Q) (auto simp: nth_append)
  ultimately show ?thesis by (simp add: set_insert_def Let_def vec_insert_def)
qed


subsection \<open>Adding a rule\<close>

text \<open>The part of the result up to \<open>lst\<close>, from the ranges before the one that holds \<open>first\<close> and that one.\<close>

definition rule_prefix :: "'a range_t \<Rightarrow> 'a \<times> int \<Rightarrow> 'a \<Rightarrow> int \<Rightarrow> 'a range_t" where
  "rule_prefix A r first flags =
     (if fst r \<noteq> first \<and> snd r \<noteq> flags then A @ [r, (first, flags)]
      else if A \<noteq> [] \<and> snd (last A) = flags then A
      else if fst r = first then A @ [(first, flags)] else A @ [r])"

text \<open>The part after \<open>lst\<close>, from the ranges \<open>B\<close> that start later and the access \<open>e\<close> at \<open>lst\<close>.\<close>

definition rule_suffix :: "('a \<Rightarrow> 'a) \<Rightarrow> ('a \<Rightarrow> 'a) \<Rightarrow> 'a \<Rightarrow> 'a range_t \<Rightarrow> 'a \<Rightarrow> int \<Rightarrow> int \<Rightarrow> 'a range_t" where
  "rule_suffix plus_one minus_one max_addr B lst e flags =
     (if (case B of [] \<Rightarrow> lst \<noteq> max_addr | (t, _) # _ \<Rightarrow> minus_one t \<noteq> lst)
      then if e \<noteq> flags then (plus_one lst, e) # B
           else case B of [] \<Rightarrow> [] | (t, f) # B' \<Rightarrow> if f = flags then B' else B
      else case B of [] \<Rightarrow> [] | (t, f) # B' \<Rightarrow> if f = flags then B' else B)"

lemma rule_close_parts:
  assumes so: "sorted_wrt (<) (map fst (P @ B))" and P: "\<forall>x \<in> set P. fst x \<le> lst" and B: "\<forall>x \<in> set B. lst < fst x"
    and plus: "lst \<noteq> max_addr \<or> B \<noteq> [] \<Longrightarrow> lst < plus_one lst \<and> (\<forall>x \<in> set B. plus_one lst \<le> fst x)"
    and minus: "\<forall>x \<in> set B. minus_one (fst x) \<noteq> lst \<longrightarrow> plus_one lst \<noteq> fst x"
  shows "rule_close plus_one minus_one max_addr (P @ B) (length P) lst e flags =
    P @ rule_suffix plus_one minus_one max_addr B lst e flags"
proof -
  let ?gap = "case B of [] \<Rightarrow> lst \<noteq> max_addr | (t, _) # _ \<Rightarrow> minus_one t \<noteq> lst"
  have gap: "(length P \<noteq> length (P @ B) \<and> minus_one (fst ((P @ B) ! length P)) \<noteq> lst \<or>
      length P = length (P @ B) \<and> lst \<noteq> max_addr) = ?gap"
    by (cases B) (auto split: prod.splits)
  show ?thesis
  proof (cases "?gap \<and> e \<noteq> flags")
    case True
    have lt: "lst < plus_one lst" "\<forall>x \<in> set B. plus_one lst \<le> fst x"
      using plus True by (cases B; auto)+
    have "plus_one lst < fst x" if "x \<in> set B" for x
    proof (cases B)
      case (Cons b B')
      then have "plus_one lst \<noteq> fst b" using True minus by (cases b) auto
      then have "plus_one lst < fst b" using lt(2) Cons by auto
      then show ?thesis using so that Cons by (auto simp: sorted_wrt_append intro: less_trans)
    qed (use that in simp)
    moreover have "\<forall>x \<in> set P. fst x < plus_one lst" using P lt(1) by (meson le_less_trans)
    ultimately have "set_insert (P @ B) (plus_one lst, e) = (P @ (plus_one lst, e) # B, length P, True)"
      by (intro set_insert_at [OF so]) auto
    then show ?thesis using True unfolding rule_close_def gap by (simp add: rule_suffix_def)
  next
    case False
    then have "rule_close plus_one minus_one max_addr (P @ B) (length P) lst e flags =
        (if length P \<noteq> length (P @ B) \<and> snd ((P @ B) ! length P) = flags then vec_erase (P @ B) (length P) else P @ B)"
      unfolding rule_close_def gap by auto
    then show ?thesis using False by (cases B) (auto simp: rule_suffix_def vec_erase_def split: prod.splits)
  qed
qed

lemma add_rule_parts:
  assumes so: "sorted_wrt (<) (map fst (A @ r # M @ B))"
    and r: "fst r \<le> first" "first \<le> lst" and M: "\<forall>x \<in> set M. first < fst x \<and> fst x \<le> lst" and B: "\<forall>x \<in> set B. lst < fst x"
    and plus: "lst \<noteq> max_addr \<or> B \<noteq> [] \<Longrightarrow> lst < plus_one lst \<and> (\<forall>x \<in> set B. plus_one lst \<le> fst x)"
    and minus: "\<forall>x \<in> set B. minus_one (fst x) \<noteq> lst \<longrightarrow> plus_one lst \<noteq> fst x"
  shows "add_rule plus_one minus_one max_addr (A @ r # M @ B) first lst flags =
    rule_prefix A r first flags @ rule_suffix plus_one minus_one max_addr B lst (snd (last (r # M))) flags"
proof -
  let ?L = "A @ r # M @ B" and ?P = "rule_prefix A r first flags" and ?j = "length A + 1 + length M"
  have A: "\<forall>x \<in> set A. fst x < fst r" using so by (auto simp: sorted_wrt_append)
  have ui: "upper_bound ?L first = length A + 1"
    using takeWhile_le_split [OF so, of "A @ [r]" "M @ B" first] A r M B by force
  have uj: "upper_bound ?L lst = ?j"
    using takeWhile_le_split [OF so, of "A @ r # M" B lst] A r M B by force
  have e: "snd (?L ! (?j - 1)) = snd (last (r # M))"
    by (cases M rule: rev_cases) (auto simp: nth_append)
  define step where "step = (case rule_open ?L (length A) ?j first flags of (L, i, j, fa) \<Rightarrow>
      case (if i \<noteq> j then (take (i + 1) L @ drop j L, i + 1) else (L, j)) of (L, j) \<Rightarrow> rule_mark L i j first fa flags)"
  have "step = (?P @ B, length ?P)"
  proof (cases "fst r \<noteq> first \<and> snd r \<noteq> flags")
    case True
    have "set_insert ((A @ [r]) @ M @ B) (first, flags) = ((A @ [r]) @ (first, flags) # M @ B, length (A @ [r]), True)"
      using so A r M B True by (intro set_insert_at) force+
    then show ?thesis using True by (simp add: step_def rule_open_def rule_mark_def rule_prefix_def shift_def nth_append list_update_append)
  next
    case False
    note F = this
    show ?thesis
    proof (cases "A \<noteq> [] \<and> snd (last A) = flags")
      case True
      then obtain A' p where A': "A = A' @ [(p, flags)]" by (metis append_butlast_last_id prod.collapse)
      then have "p \<noteq> first" using A r(1) by fastforce
      then show ?thesis using F A' by (auto simp: Let_def step_def rule_open_def rule_mark_def rule_prefix_def nth_append)
    next
      case False
      then have "\<not> (length A \<noteq> 0 \<and> snd (?L ! (length A - 1)) = flags)" by (auto simp: nth_append last_conv_nth)
      moreover have "?L ! length A = r" by simp
      moreover have "\<not> (fst r \<noteq> first \<and> snd r \<noteq> flags)" by (rule F)
      ultimately have o: "rule_open ?L (length A) ?j first flags = (?L, length A, ?j, snd r)"
        by (simp only: rule_open_def Let_def if_False)
      show ?thesis unfolding step_def o using F False
        by (cases "fst r = first") (simp_all add: rule_mark_def rule_prefix_def)
    qed
  qed
  moreover have "add_rule plus_one minus_one max_addr ?L first lst flags =
      (case step of (L, j) \<Rightarrow> rule_close plus_one minus_one max_addr L j lst (snd (last (r # M))) flags)"
    unfolding add_rule_def Let_def ui uj e step_def by (simp add: case_prod_unfold)
  moreover have "sorted_wrt (<) (map fst (?P @ B))" "\<forall>x \<in> set ?P. fst x \<le> lst"
    using so A r B by (auto simp: rule_prefix_def sorted_wrt_append split: if_splits)
  ultimately show ?thesis using rule_close_parts [where P = ?P and B = B and lst = lst and max_addr = max_addr
        and plus_one = plus_one and minus_one = minus_one, OF _ _ B plus minus] by simp
qed


lemma acc_last: "A \<noteq> [] \<Longrightarrow> \<forall>x \<in> set A. fst x \<le> a \<Longrightarrow> acc A a = snd (last A)"
  by (simp add: acc_def filter_id_conv [THEN iffD2])

lemma prefix_acc:
  assumes "\<forall>x \<in> set A. fst x < fst r" "fst r \<le> first"
  shows "a < first \<Longrightarrow> acc (rule_prefix A r first flags) a = acc (A @ [r]) a"
    "first \<le> a \<Longrightarrow> acc (rule_prefix A r first flags) a = flags"
proof -
  obtain s x where r: "r = (s, x)" by fastforce
  have A: "\<forall>y \<in> set A. fst y < s" using assms(1) r by simp
  have last: "acc A a = snd (last A)" if "A \<noteq> []" "s \<le> a"
  proof (rule acc_last [OF that(1)])
    show "\<forall>x \<in> set A. fst x \<le> a" using A that(2) by (meson less_imp_le order_trans)
  qed
  show "a < first \<Longrightarrow> acc (rule_prefix A r first flags) a = acc (A @ [r]) a"
    using last by (auto simp: rule_prefix_def r acc_append) (auto simp: acc_def)
  show "first \<le> a \<Longrightarrow> acc (rule_prefix A r first flags) a = flags"
    using last assms(2) by (auto simp: rule_prefix_def r acc_append) (auto simp: acc_def)
qed

lemma prefix_shape:
  fixes first :: "'a::linorder" and flags :: int
  assumes "sorted_wrt (<) (map fst (A @ r # X))" "fst r \<le> first"
  defines "P \<equiv> rule_prefix A r first flags"
  shows "P \<noteq> []" "snd (last P) = flags" "sorted_wrt (<) (map fst P)" "\<forall>x \<in> set P. fst x \<le> first"
    "fst ` set P \<subseteq> insert first (fst ` set (A @ [r]))" "fst (hd P) = fst (hd (A @ [r]))"
    "successively (\<lambda>r t. snd r \<noteq> snd t) (A @ [r]) \<Longrightarrow> successively (\<lambda>r t. snd r \<noteq> snd t) P"
proof -
  have so: "sorted_wrt (<) (map fst A)" and A: "\<forall>x \<in> set A. fst x < fst r" using assms(1) by (auto simp: sorted_wrt_append)
  have A': "\<forall>x \<in> set A. fst x < first" using A assms(2) by (meson less_le_trans)
  then have A'': "\<forall>x \<in> set A. fst x \<le> first" by (meson less_imp_le)
  have r: "fst r < first" if "fst r \<noteq> first" using that assms(2) by simp
  show "P \<noteq> []" "fst ` set P \<subseteq> insert first (fst ` set (A @ [r]))" "fst (hd P) = fst (hd (A @ [r]))" "snd (last P) = flags"
    by (auto simp: P_def rule_prefix_def hd_append)
  show "sorted_wrt (<) (map fst P)" using so A A' r by (simp add: P_def rule_prefix_def sorted_wrt_append)
  show "\<forall>x \<in> set P. fst x \<le> first" using A'' assms(2) by (auto simp: P_def rule_prefix_def)
  show "successively (\<lambda>r t. snd r \<noteq> snd t) P" if "successively (\<lambda>r t. snd r \<noteq> snd t) (A @ [r])"
    using that by (auto simp: P_def rule_prefix_def successively_append_iff)
qed

lemma suffix_shape:
  fixes lst :: "'a::linorder" and flags :: int
  assumes B: "\<forall>x \<in> set B. lst < fst x" "sorted_wrt (<) (map fst B)" "successively (\<lambda>r t. snd r \<noteq> snd t) B"
    and e: "B \<noteq> [] \<Longrightarrow> e \<noteq> snd (hd B)"
    and plus: "lst \<noteq> max_addr \<or> B \<noteq> [] \<Longrightarrow> lst < plus_one lst \<and> (\<forall>x \<in> set B. plus_one lst \<le> fst x)"
    and minus: "\<forall>x \<in> set B. minus_one (fst x) \<noteq> lst \<longrightarrow> plus_one lst \<noteq> fst x"
  defines "S \<equiv> rule_suffix plus_one minus_one max_addr B lst e flags"
  shows "sorted_wrt (<) (map fst S)" "successively (\<lambda>r t. snd r \<noteq> snd t) S" "\<forall>x \<in> set S. lst < fst x"
    "fst ` set S \<subseteq> insert (plus_one lst) (fst ` set B)" "S \<noteq> [] \<Longrightarrow> snd (hd S) \<noteq> flags"
proof -
  have "sorted_wrt (<) (map fst S) \<and> successively (\<lambda>r t. snd r \<noteq> snd t) S \<and> (\<forall>x \<in> set S. lst < fst x) \<and>
    fst ` set S \<subseteq> insert (plus_one lst) (fst ` set B) \<and> (S \<noteq> [] \<longrightarrow> snd (hd S) \<noteq> flags)"
  proof (cases B)
    case Nil
    then show ?thesis using plus by (auto simp: S_def rule_suffix_def)
  next
    case (Cons b B')
    obtain t f where b: "b = (t, f)" by fastforce
    have t: "\<forall>x \<in> set B'. t < fst x" "plus_one lst \<le> t" "lst < plus_one lst" "minus_one t \<noteq> lst \<Longrightarrow> plus_one lst \<noteq> t"
      using B(2) plus minus Cons b by auto
    then have lt: "plus_one lst < t \<and> (\<forall>x \<in> set B'. plus_one lst < fst x)" if "minus_one t \<noteq> lst"
      using that by (metis le_less_trans order_le_imp_less_or_eq)
    have hd: "B' \<noteq> [] \<Longrightarrow> snd (hd B') \<noteq> f" "successively (\<lambda>r t. snd r \<noteq> snd t) B'"
      using B(3) unfolding Cons b by (cases B'; auto)+
    show ?thesis
      using t lt hd B e unfolding S_def rule_suffix_def Cons b
      by (auto simp: successively_Cons)
  qed
  then show "sorted_wrt (<) (map fst S)" "successively (\<lambda>r t. snd r \<noteq> snd t) S" "\<forall>x \<in> set S. lst < fst x"
    "fst ` set S \<subseteq> insert (plus_one lst) (fst ` set B)" "S \<noteq> [] \<Longrightarrow> snd (hd S) \<noteq> flags" by blast+
qed

lemma suffix_acc:
  assumes B: "\<forall>x \<in> set B. lst < fst x" and so: "sorted_wrt (<) (map fst B)"
    and plus: "lst \<noteq> max_addr \<or> B \<noteq> [] \<Longrightarrow> lst < plus_one lst"
    and nxt: "\<And>x. x \<in> set B \<Longrightarrow> minus_one (fst x) = lst \<Longrightarrow> fst x = plus_one lst"
    and a: "lst < a \<Longrightarrow> plus_one lst \<le> a" "lst = max_addr \<Longrightarrow> \<not> lst < a"
  shows "a \<le> lst \<Longrightarrow> acc (P @ rule_suffix plus_one minus_one max_addr B lst e flags) a = acc P a"
    "lst < a \<Longrightarrow> acc P a = flags \<Longrightarrow> acc X a = e \<Longrightarrow>
     acc (P @ rule_suffix plus_one minus_one max_addr B lst e flags) a = acc (X @ B) a"
proof -
  assume le: "a \<le> lst"
  have "\<forall>x \<in> set (rule_suffix plus_one minus_one max_addr B lst e flags). a < fst x"
    using B plus le by (cases B) (auto simp: rule_suffix_def split: if_splits intro: le_less_trans)
  then show "acc (P @ rule_suffix plus_one minus_one max_addr B lst e flags) a = acc P a" by (rule acc_above)
next
  assume gt: "lst < a" and P: "acc P a = flags" and X: "acc X a = e"
  show "acc (P @ rule_suffix plus_one minus_one max_addr B lst e flags) a = acc (X @ B) a"
  proof (cases B)
    case Nil
    then show ?thesis using a gt P X by (auto simp: rule_suffix_def)
  next
    case (Cons b B')
    obtain t f where b: "b = (t, f)" by fastforce
    have h: "t \<le> a" if "minus_one t = lst" using nxt [of b] that Cons b a(1) gt by simp
    have up: "\<not> t \<le> a \<Longrightarrow> filter (\<lambda>r. fst r \<le> a) B' = []"
      using so Cons b by (auto simp: filter_empty_conv)
    show ?thesis
      using h up a(1) gt P X unfolding Cons b
      by (auto simp: rule_suffix_def acc_append) (auto simp: acc_def)
  qed
qed

lemma export_iff:
  "r \<in> set (export_filter minus_one max_addr L) \<longleftrightarrow>
   (\<exists>P s f Q. L = P @ (s, f) # Q \<and>
     r = \<lparr>r_first = s, r_last = (case Q of [] \<Rightarrow> max_addr | (t, _) # _ \<Rightarrow> minus_one t), r_flags = f\<rparr>)"
  (is "_ \<longleftrightarrow> ?R L")
proof (induction L)
  case (Cons e L)
  obtain s f where e: "e = (s, f)" by fastforce
  let ?h = "\<lparr>r_first = s, r_last = (case L of [] \<Rightarrow> max_addr | (t, _) # _ \<Rightarrow> minus_one t), r_flags = f\<rparr>"
  have "?R (e # L) \<longleftrightarrow> r = ?h \<or> ?R L"
  proof
    assume "?R (e # L)"
    then obtain P s' f' Q where p: "e # L = P @ (s', f') # Q"
      "r = \<lparr>r_first = s', r_last = (case Q of [] \<Rightarrow> max_addr | (t, _) # _ \<Rightarrow> minus_one t), r_flags = f'\<rparr>" by blast
    show "r = ?h \<or> ?R L"
    proof (cases P)
      case Nil
      then show ?thesis using p e by simp
    next
      case (Cons x P')
      then have "L = P' @ (s', f') # Q" using p(1) by simp
      then show ?thesis using p(2) by blast
    qed
  next
    assume "r = ?h \<or> ?R L"
    then show "?R (e # L)"
    proof
      assume "r = ?h"
      moreover have "e # L = [] @ (s, f) # L" by (simp add: e)
      ultimately show ?thesis by blast
    next
      assume "?R L"
      then obtain P s' f' Q where p: "L = P @ (s', f') # Q"
        "r = \<lparr>r_first = s', r_last = (case Q of [] \<Rightarrow> max_addr | (t, _) # _ \<Rightarrow> minus_one t), r_flags = f'\<rparr>" by blast
      then have "e # L = (e # P) @ (s', f') # Q" by simp
      then show ?thesis using p(2) by blast
    qed
  qed
  then show ?case using Cons.IH e by simp
qed simp

text \<open>The laws of an address type that the filter relies on.\<close>

locale addr_space =
  fixes valid :: "'a::linorder \<Rightarrow> bool"
    and zero :: 'a
    and max_addr :: 'a
    and plus_one :: "'a \<Rightarrow> 'a"
    and minus_one :: "'a \<Rightarrow> 'a"
  assumes zero: "valid zero" "valid a \<Longrightarrow> zero \<le> a"
    and max: "valid max_addr" "valid a \<Longrightarrow> a \<le> max_addr"
    and plus: "valid a \<Longrightarrow> valid (plus_one a)" "valid a \<Longrightarrow> a \<noteq> max_addr \<Longrightarrow> a < plus_one a"
      "valid a \<Longrightarrow> valid b \<Longrightarrow> a < b \<Longrightarrow> plus_one a \<le> b"
    and minus: "valid a \<Longrightarrow> valid (minus_one a)"
      "valid a \<Longrightarrow> a \<noteq> max_addr \<Longrightarrow> minus_one (plus_one a) = a"
      "valid a \<Longrightarrow> a \<noteq> zero \<Longrightarrow> plus_one (minus_one a) = a \<and> minus_one a < a"
begin

abbreviation wf :: "'a range_t \<Rightarrow> bool" where
  "wf \<equiv> range_wf valid zero"

lemma init_wf: "wf (filter_init zero)"
  using zero by (simp add: range_wf_def filter_init_def)

lemma wf_split:
  assumes "wf L" "valid first" "valid lst" "first \<le> lst"
  obtains A r M B where "L = A @ r # M @ B" "sorted_wrt (<) (map fst (A @ r # M @ B))" "fst r \<le> first"
    "\<forall>x \<in> set M. first < fst x \<and> fst x \<le> lst" "\<forall>x \<in> set B. lst < fst x"
proof -
  have so: "sorted_wrt (<) (map fst L)" and ne: "L \<noteq> []" and hd: "fst (hd L) = zero" using assms(1) by (auto simp: range_wf_def)
  obtain P Q where pq: "L = P @ Q" "\<forall>r \<in> set P. fst r \<le> first" "\<forall>r \<in> set Q. first < fst r"
    by (rule sorted_split [OF so])
  have "P \<noteq> []"
  proof
    assume "P = []"
    then have "hd L \<in> set Q" using pq(1) ne by simp
    then have "first < zero" using pq(3) hd by metis
    then show False using zero(2) [OF assms(2)] by simp
  qed
  then obtain A r where P: "P = A @ [r]" by (metis rev_exhaust)
  have "sorted_wrt (<) (map fst Q)" using so pq(1) by (simp add: sorted_wrt_append)
  then obtain M B where mb: "Q = M @ B" "\<forall>r \<in> set M. fst r \<le> lst" "\<forall>r \<in> set B. lst < fst r" by (rule sorted_split)
  show thesis using that [of A r M B] so pq P mb by simp
qed

lemma after_max: "valid a \<Longrightarrow> \<not> max_addr < a"
  using max(2) by (simp add: not_less)

lemma rule_laws:
  assumes "valid lst" "\<forall>x \<in> set B. valid (fst x) \<and> lst < fst x"
  shows "lst \<noteq> max_addr \<or> B \<noteq> [] \<Longrightarrow> lst < plus_one lst \<and> (\<forall>x \<in> set B. plus_one lst \<le> fst x)"
    "\<forall>x \<in> set B. minus_one (fst x) \<noteq> lst \<longrightarrow> plus_one lst \<noteq> fst x"
proof -
  have nm: "lst \<noteq> max_addr" if "B \<noteq> []"
    using that assms(2) after_max by (cases B) auto
  then show "lst \<noteq> max_addr \<or> B \<noteq> [] \<Longrightarrow> lst < plus_one lst \<and> (\<forall>x \<in> set B. plus_one lst \<le> fst x)"
    using assms plus(2,3) by blast
  show "\<forall>x \<in> set B. minus_one (fst x) \<noteq> lst \<longrightarrow> plus_one lst \<noteq> fst x"
    using minus(2) [OF assms(1)] nm by (metis empty_iff list.set(1))
qed

lemma add_rule_eq:
  assumes "wf L" "valid first" "valid lst" "first \<le> lst"
  obtains A r M B where "L = A @ r # M @ B" "sorted_wrt (<) (map fst (A @ r # M @ B))" "fst r \<le> first"
    "\<forall>x \<in> set M. first < fst x \<and> fst x \<le> lst" "\<forall>x \<in> set B. valid (fst x) \<and> lst < fst x"
    "add_rule plus_one minus_one max_addr L first lst flags =
      rule_prefix A r first flags @ rule_suffix plus_one minus_one max_addr B lst (snd (last (r # M))) flags"
proof -
  obtain A r M B where d: "L = A @ r # M @ B" "sorted_wrt (<) (map fst (A @ r # M @ B))" "fst r \<le> first"
    "\<forall>x \<in> set M. first < fst x \<and> fst x \<le> lst" "\<forall>x \<in> set B. lst < fst x" by (rule wf_split [OF assms])
  have v: "\<forall>x \<in> set B. valid (fst x) \<and> lst < fst x" using assms(1) d(1,5) by (auto simp: range_wf_def)
  show thesis
    using that [OF d(1-4) v] add_rule_parts [of A r M B first lst max_addr plus_one minus_one flags]
      d assms(4) rule_laws [OF assms(3) v] by blast
qed

text \<open>After a rule, the addresses it covers have its flags, and every other address what it had.\<close>

lemma add_rule_acc:
  assumes wf: "wf L" and v: "valid first" "valid lst" "first \<le> lst" "valid a"
  shows "acc (add_rule plus_one minus_one max_addr L first lst flags) a =
    (if first \<le> a \<and> a \<le> lst then flags else acc L a)"
proof -
  obtain A r M B where d: "L = A @ r # M @ B" "sorted_wrt (<) (map fst (A @ r # M @ B))" "fst r \<le> first"
    "\<forall>x \<in> set M. first < fst x \<and> fst x \<le> lst" "\<forall>x \<in> set B. valid (fst x) \<and> lst < fst x"
    "add_rule plus_one minus_one max_addr L first lst flags =
      rule_prefix A r first flags @ rule_suffix plus_one minus_one max_addr B lst (snd (last (r # M))) flags"
    by (rule add_rule_eq [OF wf v(1-3)])
  have A: "\<forall>x \<in> set A. fst x < fst r" and so: "sorted_wrt (<) (map fst B)" and B: "\<forall>x \<in> set B. lst < fst x"
    using d(2,5) by (auto simp: sorted_wrt_append)
  let ?P = "rule_prefix A r first flags" and ?e = "snd (last (r # M))"
  note laws = rule_laws [OF v(2) d(5)]
  have nx: "fst x = plus_one lst" if "x \<in> set B" "minus_one (fst x) = lst" for x
    using that d(5) minus(3) [of "fst x"] zero(2) [OF v(2)] by (metis leD)
  have ax: "lst < a \<Longrightarrow> plus_one lst \<le> a" "lst = max_addr \<Longrightarrow> \<not> lst < a"
    using plus(3) [OF v(2,4)] after_max [OF v(4)] by auto
  let ?S = "rule_suffix plus_one minus_one max_addr B lst ?e flags"
  have suf: "acc (?P @ ?S) a = acc ?P a" if "a \<le> lst"
    by (rule suffix_acc(1) [OF B so _ _ _ _ that]) (use laws nx ax in blast)+
  have suf2: "acc (?P @ ?S) a = acc (X @ B) a" if "lst < a" "acc ?P a = flags" "acc X a = ?e" for X
    by (rule suffix_acc(2) [OF B so _ _ _ _ that]) (use laws nx ax in blast)+
  consider "a < first" | "first \<le> a" "a \<le> lst" | "lst < a" by fastforce
  then show ?thesis
  proof cases
    case 1
    have "acc L a = acc (A @ [r]) a"
      unfolding d(1) using acc_above [of "M @ B" a "A @ [r]"] 1 v(3) d(4) B by (force intro: less_trans)
    then show ?thesis using 1 v(3) suf prefix_acc(1) [OF A d(3) 1, of flags] unfolding d(6) by auto
  next
    case 2
    then show ?thesis using suf prefix_acc(2) [OF A d(3) 2(1), of flags] unfolding d(6) by simp
  next
    case 3
    have r: "fst r \<le> a" using 3 v(3) d(3) by simp
    have "\<forall>x \<in> set (A @ r # M). fst x \<le> a"
    proof
      fix x assume "x \<in> set (A @ r # M)"
      then consider "x \<in> set A" | "x = r" | "x \<in> set M" by auto
      then show "fst x \<le> a" using A r d(4) 3 by cases (metis less_imp_le order_trans)+
    qed
    then have "acc (A @ r # M) a = ?e" using acc_last [of "A @ r # M" a] by simp
    moreover have "acc ?P a = flags" using prefix_acc(2) [OF A d(3)] 3 v(3) by auto
    ultimately have "acc (?P @ rule_suffix plus_one minus_one max_addr B lst ?e flags) a = acc ((A @ r # M) @ B) a"
      by (intro suf2 [OF 3])
    then show ?thesis using 3 leD unfolding d(6) by (auto simp: d(1))
  qed
qed

lemma add_rule_wf:
  assumes wf: "wf L" and v: "valid first" "valid lst" "first \<le> lst"
  shows "wf (add_rule plus_one minus_one max_addr L first lst flags)"
proof -
  obtain A r M B where d: "L = A @ r # M @ B" "sorted_wrt (<) (map fst (A @ r # M @ B))" "fst r \<le> first"
    "\<forall>x \<in> set M. first < fst x \<and> fst x \<le> lst" "\<forall>x \<in> set B. valid (fst x) \<and> lst < fst x"
    "add_rule plus_one minus_one max_addr L first lst flags =
      rule_prefix A r first flags @ rule_suffix plus_one minus_one max_addr B lst (snd (last (r # M))) flags"
    by (rule add_rule_eq [OF wf v])
  let ?P = "rule_prefix A r first flags" and ?e = "snd (last (r # M))"
  let ?S = "rule_suffix plus_one minus_one max_addr B lst ?e flags"
  have w: "fst (hd L) = zero" "\<forall>x \<in> set L. valid (fst x)" "successively (\<lambda>r t. snd r \<noteq> snd t) L"
    using wf by (simp_all add: range_wf_def)
  note P = prefix_shape [OF d(2,3), of flags]
  have sP: "successively (\<lambda>r t. snd r \<noteq> snd t) (A @ [r])" and sB: "successively (\<lambda>r t. snd r \<noteq> snd t) B"
    and eB: "B \<noteq> [] \<Longrightarrow> ?e \<noteq> snd (hd B)"
    using w(3) successively_append_iff [of _ "A @ r # M" B] successively_append_iff [of _ "A @ [r]" "M @ B"]
    unfolding d(1) by auto
  have B: "sorted_wrt (<) (map fst B)" "\<forall>x \<in> set B. lst < fst x" using d(2,5) by (auto simp: sorted_wrt_append)
  have S: "sorted_wrt (<) (map fst ?S)" "successively (\<lambda>r t. snd r \<noteq> snd t) ?S" "\<forall>x \<in> set ?S. lst < fst x"
    "fst ` set ?S \<subseteq> insert (plus_one lst) (fst ` set B)" "?S \<noteq> [] \<longrightarrow> snd (hd ?S) \<noteq> flags"
    using suffix_shape [of B lst ?e max_addr plus_one minus_one flags] B sB eB rule_laws [OF v(2) d(5)] by blast+
  have "fst x < fst y" if "x \<in> set ?P" "y \<in> set ?S" for x y
    using P(4) S(3) v(3) that by (meson le_less_trans)
  then have "\<forall>x \<in> set (map fst ?P). \<forall>y \<in> set (map fst ?S). x < y" by (simp only: set_map) blast
  then have "sorted_wrt (<) (map fst (?P @ ?S))"
    using P(3) S(1) by (simp only: map_append sorted_wrt_append)
  moreover have "successively (\<lambda>r t. snd r \<noteq> snd t) (?P @ ?S)"
    using P(2) P(7) [OF sP] S(2,5) unfolding successively_append_iff by auto
  moreover have "\<forall>y \<in> fst ` set (?P @ ?S). valid y"
  proof -
    have sub: "Ball Y valid" if "Ball X valid" "valid z" "Y \<subseteq> insert z X" for X Y z using that by blast
    have "\<forall>y \<in> fst ` set (A @ [r]). valid y" using w(2) unfolding d(1) by auto
    then have "\<forall>y \<in> fst ` set ?P. valid y" using v(1) P(5) by (rule sub)
    moreover have "\<forall>y \<in> fst ` set B. valid y" using d(5) by blast
    then have "\<forall>y \<in> fst ` set ?S. valid y" using plus(1) [OF v(2)] S(4) by (rule sub)
    ultimately show ?thesis unfolding set_append image_Un by (meson UnE)
  qed
  moreover have "fst (hd (?P @ ?S)) = zero" using P(1,6) w(1) unfolding d(1) by (simp add: hd_append split: if_splits)
  ultimately show ?thesis using P(1) unfolding d(6) range_wf_def by simp
qed

text \<open>The exported ranges partition the addresses and carry their access.\<close>

lemma below_next: "valid t \<Longrightarrow> valid a \<Longrightarrow> s < t \<Longrightarrow> valid s \<Longrightarrow> a \<le> minus_one t \<longleftrightarrow> a < t"
proof -
  assume v: "valid t" "valid a" "s < t" "valid s"
  then have "t \<noteq> zero" using zero(2) [of s] by auto
  then have m: "plus_one (minus_one t) = t" "minus_one t < t" using minus(3) [OF v(1)] by auto
  show ?thesis
  proof
    assume "a \<le> minus_one t"
    then show "a < t" using m(2) by (rule le_less_trans)
  next
    assume a: "a < t"
    show "a \<le> minus_one t"
    proof (rule ccontr)
      assume "\<not> a \<le> minus_one t"
      then have "plus_one (minus_one t) \<le> a" using plus(3) [OF minus(1) [OF v(1)] v(2)] by simp
      then show False using a m(1) by simp
    qed
  qed
qed

lemma export_sound:
  assumes "sorted_wrt (<) (map fst L)" "\<forall>r \<in> set L. valid (fst r)" "valid a"
    and r: "r \<in> set (export_filter minus_one max_addr L)" "r_first r \<le> a" "a \<le> r_last r"
  shows "r_flags r = acc L a"
proof -
  obtain P s f Q where L: "L = P @ (s, f) # Q" and q: "r = \<lparr>r_first = s, r_last = (case Q of [] \<Rightarrow> max_addr | (t, _) # _ \<Rightarrow> minus_one t), r_flags = f\<rparr>"
    using r(1) export_iff [of r] by blast
  have "\<forall>x \<in> set Q. a < fst x"
  proof (cases Q)
    case (Cons d K)
    obtain t g where d: "d = (t, g)" by fastforce
    have "a < t" using below_next [of t a s] r assms(1-3) by (auto simp: L q Cons d sorted_wrt_append)
    then show ?thesis using assms(1) by (auto simp: L Cons d sorted_wrt_append intro: less_trans)
  qed simp
  then have "acc L a = acc (P @ [(s, f)]) a" using acc_above [of Q a "P @ [(s, f)]"] L by simp
  then show ?thesis using r(2) q by simp
qed

lemma export_cover:
  assumes "sorted_wrt (<) (map fst L)" "\<forall>r \<in> set L. valid (fst r)" "valid a" "L \<noteq> []" "fst (hd L) \<le> a"
  shows "\<exists>r \<in> set (export_filter minus_one max_addr L). r_first r \<le> a \<and> a \<le> r_last r"
proof -
  obtain P Q where pq: "L = P @ Q" "\<forall>r \<in> set P. fst r \<le> a" "\<forall>r \<in> set Q. a < fst r"
    by (rule sorted_split [OF assms(1)])
  have "P \<noteq> []"
  proof
    assume "P = []"
    then have "hd L \<in> set Q" using pq(1) assms(4) by simp
    then show False using pq(3) assms(5) by (meson not_le)
  qed
  then obtain P' s f where P: "P = P' @ [(s, f)]" by (metis rev_exhaust prod.collapse)
  let ?r = "\<lparr>r_first = s, r_last = (case Q of [] \<Rightarrow> max_addr | (t, _) # _ \<Rightarrow> minus_one t), r_flags = f\<rparr>"
  have "?r \<in> set (export_filter minus_one max_addr L)" using export_iff pq(1) P by fastforce
  moreover have "a \<le> r_last ?r"
  proof (cases Q)
    case (Cons d K)
    obtain t g where d: "d = (t, g)" by fastforce
    have "a \<le> minus_one t" using below_next [of t a s] pq(3) assms(1-3) by (auto simp: pq(1) P Cons d sorted_wrt_append)
    then show ?thesis by (simp add: Cons d)
  qed (use max(2) [OF assms(3)] in simp)
  moreover have "r_first ?r \<le> a" using pq(2) P by simp
  ultimately show ?thesis by blast
qed

lemma export_valid:
  assumes "sorted_wrt (<) (map fst L)" "\<forall>r \<in> set L. valid (fst r)"
    and r: "r \<in> set (export_filter minus_one max_addr L)"
  shows "valid (r_first r)" "valid (r_last r)" "r_first r \<le> r_last r"
proof -
  obtain P s f Q where L: "L = P @ (s, f) # Q" and q: "r = \<lparr>r_first = s, r_last = (case Q of [] \<Rightarrow> max_addr | (t, _) # _ \<Rightarrow> minus_one t), r_flags = f\<rparr>"
    using r export_iff [of r] by blast
  show "valid (r_first r)" using assms(2) L q by simp
  show "valid (r_last r)" using assms(2) L q minus(1) max(1) by (cases Q) (auto split: prod.split)
  show "r_first r \<le> r_last r"
  proof (cases Q)
    case (Cons d K)
    obtain t g where d: "d = (t, g)" by fastforce
    have "s \<le> minus_one t" using below_next [of t s s] assms(1,2) by (auto simp: L Cons d sorted_wrt_append)
    then show ?thesis by (simp add: q Cons d)
  qed (use assms(2) L q max(2) in simp)
qed

abbreviation replay :: "'a range_t \<Rightarrow> 'a ip_range list \<Rightarrow> 'a range_t" where
  "replay \<equiv> foldl (\<lambda>K r. add_rule plus_one minus_one max_addr K (r_first r) (r_last r) (r_flags r))"

lemma replay_acc:
  assumes "wf K" "valid a" "\<forall>r \<in> set rs. valid (r_first r) \<and> valid (r_last r) \<and> r_first r \<le> r_last r"
    "\<forall>r \<in> set rs. r_first r \<le> a \<and> a \<le> r_last r \<longrightarrow> r_flags r = x"
    "\<exists>r \<in> set rs. r_first r \<le> a \<and> a \<le> r_last r"
  shows "acc (replay K rs) a = x \<and> wf (replay K rs)"
  using assms
proof (induction rs rule: rev_induct)
  case (snoc r rs)
  have w: "wf (replay K rs)" using snoc.prems(1,3)
    by (induction rs rule: rev_induct) (auto simp: add_rule_wf)
  then show ?case using snoc add_rule_acc [OF w, of "r_first r" "r_last r" a "r_flags r"]
    by (auto simp: add_rule_wf)
qed simp

lemma export_replay:
  assumes "wf L" "valid a"
  shows "acc (replay (filter_init zero) (export_filter minus_one max_addr L)) a = acc L a"
proof -
  have w: "sorted_wrt (<) (map fst L)" "\<forall>r \<in> set L. valid (fst r)" "L \<noteq> []" "fst (hd L) \<le> a"
    using assms zero(2) by (auto simp: range_wf_def)
  show ?thesis
    using replay_acc [OF init_wf assms(2), of "export_filter minus_one max_addr L" "acc L a"]
      export_valid [OF w(1,2)] export_sound [OF w(1,2) assms(2)] export_cover [OF w(1,2) assms(2) w(3,4)] by blast
qed

lemma wf_access: "wf L \<Longrightarrow> valid a \<Longrightarrow> access L a = acc L a"
  using access_acc [of L a] zero(2) by (auto simp: range_wf_def)

end


subsection \<open>The address types\<close>

text \<open>Byte arrays are ordered as the numbers they spell, the first byte being the most significant.\<close>

fun bval :: "byte list \<Rightarrow> nat" where
  "bval [] = 0"
| "bval (b # bs) = unat b * 256 ^ length bs + bval bs"

lemma unat_byte: "unat (b :: byte) < 256"
  using unsigned_less [of b, where 'a = nat] by simp

lemma bval_bound: "bval bs < 256 ^ length bs"
proof (induction bs)
  case (Cons b bs)
  have "unat b * 256 ^ length bs + bval bs < (unat b + 1) * 256 ^ length bs" using Cons by simp
  also have "\<dots> \<le> 256 * 256 ^ length bs" using unat_byte [of b] by (intro mult_le_mono1) simp
  finally show ?case by simp
qed simp

lemma digit_less:
  fixes a b :: nat
  assumes "x < n" "y < n"
  shows "a * n + x < b * n + y \<longleftrightarrow> a < b \<or> a = b \<and> x < y"
proof -
  have "a * n + x < b * n + y" if "a < b"
  proof -
    have "a * n + x < (a + 1) * n" using assms(1) by simp
    also have "\<dots> \<le> b * n" using that by (intro mult_le_mono1) simp
    finally show ?thesis by simp
  qed
  moreover have "b * n + y < a * n + x" if "b < a"
  proof -
    have "b * n + y < (b + 1) * n" using assms(2) by simp
    also have "\<dots> \<le> a * n" using that by (intro mult_le_mono1) simp
    finally show ?thesis by simp
  qed
  ultimately show ?thesis by (metis add_less_cancel_left less_asym linorder_neqE_nat)
qed

lemma bval_less: "length xs = length ys \<Longrightarrow> xs < ys \<longleftrightarrow> bval xs < bval ys"
proof (induction xs ys rule: list_induct2)
  case (Cons x xs y ys)
  have "bval (x # xs) < bval (y # ys) \<longleftrightarrow> unat x < unat y \<or> unat x = unat y \<and> bval xs < bval ys"
    using digit_less [OF bval_bound [of xs] , of "bval ys" "unat x" "unat y"] bval_bound [of ys] Cons.hyps by simp
  then show ?case using Cons.IH by (simp add: word_less_nat_alt word_unat_eq_iff)
qed simp

lemma bval_eq: "length xs = length ys \<Longrightarrow> xs = ys \<longleftrightarrow> bval xs = bval ys"
  using bval_less [of xs ys] bval_less [of ys xs] by (metis less_irrefl linorder_neqE)

lemma bval_le: "length xs = length ys \<Longrightarrow> xs \<le> ys \<longleftrightarrow> bval xs \<le> bval ys"
  using bval_less [of ys xs] by (simp add: not_less [symmetric])

lemma bval_snoc: "bval (bs @ [b]) = bval bs * 256 + unat b"
  by (induction bs) (simp_all add: algebra_simps)

lemma length_one_bytes [simp]:
  "length (plus_one_bytes a) = length a" "length (minus_one_bytes a) = length a"
proof -
  have "length (plus_one_rev bs) = length bs" "length (minus_one_rev bs) = length bs" for bs
    by (induction bs) auto
  then show "length (plus_one_bytes a) = length a" "length (minus_one_bytes a) = length a"
    by (simp_all add: plus_one_bytes_def minus_one_bytes_def)
qed

lemma byte_succ: "(b :: byte) < 0xff \<Longrightarrow> unat (b + 1) = unat b + 1" "\<not> (b :: byte) < 0xff \<Longrightarrow> unat b = 255"
proof -
  have b: "unat b < 256" by (rule unat_byte)
  show "unat (b + 1) = unat b + 1" if "b < 0xff"
    using that by (subst unat_add_lem [THEN iffD1]) (simp_all add: word_less_nat_alt)
  show "unat b = 255" if "\<not> b < 0xff" using that b by (simp add: word_less_nat_alt)
qed

lemma byte_pred: "0 < (b :: byte) \<Longrightarrow> unat (b - 1) = unat b - 1"
  by (simp add: unat_sub word_le_nat_alt word_less_nat_alt)

lemma bval_plus_one: "bval (plus_one_bytes a) = (if bval a + 1 = 256 ^ length a then 0 else bval a + 1)"
  unfolding plus_one_bytes_def
proof (induction a rule: rev_induct)
  case (snoc b bs)
  note l = length_one_bytes(1) [of bs, unfolded plus_one_bytes_def]
  have "bval bs < 256 ^ length bs" by (rule bval_bound)
  then show ?case
  proof (cases "b < 0xff")
    case True
    then have "unat b < 255" by (simp add: word_less_nat_alt)
    have "bval bs * 256 + unat b + 1 \<noteq> 256 ^ length bs * 256"
    proof
      assume "bval bs * 256 + unat b + 1 = 256 ^ length bs * 256"
      then have "(bval bs * 256 + (unat b + 1)) mod 256 = 0" by simp
      then show False using \<open>unat b < 255\<close> by simp
    qed
    then show ?thesis using True byte_succ(1) [OF True] by (simp add: bval_snoc mult.commute)
  next
    case False
    then show ?thesis using snoc byte_succ(2) [OF False] by (auto simp: bval_snoc)
  qed
qed simp

lemma bval_minus_one: "bval a \<noteq> 0 \<Longrightarrow> bval (minus_one_bytes a) = bval a - 1"
  unfolding minus_one_bytes_def
proof (induction a rule: rev_induct)
  case (snoc b bs)
  show ?case
  proof (cases "0 < b")
    case True
    then have "0 < unat b" by (simp add: word_less_nat_alt)
    then show ?thesis using True byte_pred [OF True] by (simp add: bval_snoc)
  next
    case False
    then have z: "unat b = 0" by (simp add: word_less_nat_alt)
    then have "bval bs \<noteq> 0" using snoc.prems by (simp add: bval_snoc)
    then show ?thesis using snoc.IH False z by (simp add: bval_snoc)
  qed
qed simp

lemma bval_zero: "bval (zero_bytes n) = 0"
  by (induction n) (simp_all add: zero_bytes_def)

lemma bval_max: "bval (max_bytes n) = 256 ^ n - 1"
  by (induction n) (simp_all add: max_bytes_def)

lemma bytes_space: "addr_space (\<lambda>a. length a = n) (zero_bytes n) (max_bytes n) plus_one_bytes minus_one_bytes"
proof unfold_locales
  have l: "length (zero_bytes n) = n" "length (max_bytes n) = n" by (simp_all add: zero_bytes_def max_bytes_def)
  then show "length (zero_bytes n) = n" "length (max_bytes n) = n" by simp_all
  fix a :: "byte list" assume a: "length a = n"
  have bd: "bval a < 256 ^ n" using bval_bound [of a] a by simp
  show "zero_bytes n \<le> a" using bval_le [of "zero_bytes n" a] a l by (simp add: bval_zero)
  show "a \<le> max_bytes n" using bval_le [of a "max_bytes n"] a l bd by (simp add: bval_max)
  show "length (plus_one_bytes a) = n" "length (minus_one_bytes a) = n" using a by simp_all
  have ne: "a \<noteq> max_bytes n \<Longrightarrow> bval a + 1 \<noteq> 256 ^ n" using bval_eq [of a "max_bytes n"] a l by (simp add: bval_max)
  show "a \<noteq> max_bytes n \<Longrightarrow> a < plus_one_bytes a"
    using ne bval_less [of a "plus_one_bytes a"] a by (simp add: bval_plus_one)
  show "a \<noteq> max_bytes n \<Longrightarrow> minus_one_bytes (plus_one_bytes a) = a"
    using ne bval_eq [of "minus_one_bytes (plus_one_bytes a)" a] a by (simp add: bval_minus_one bval_plus_one)
  have nz: "a \<noteq> zero_bytes n \<Longrightarrow> bval a \<noteq> 0" using bval_eq [of a "zero_bytes n"] a l by (simp add: bval_zero)
  show "a \<noteq> zero_bytes n \<Longrightarrow> plus_one_bytes (minus_one_bytes a) = a \<and> minus_one_bytes a < a"
    using nz bd bval_eq [of "plus_one_bytes (minus_one_bytes a)" a] bval_less [of "minus_one_bytes a" a] a
    by (simp add: bval_minus_one bval_plus_one)
  fix b :: "byte list" assume b: "length b = n" "a < b"
  then show "plus_one_bytes a \<le> b"
    using bval_less [of a b] bval_le [of "plus_one_bytes a" b] a by (simp add: bval_plus_one)
qed

interpretation ip4: addr_space "\<lambda>a. length a = 4" "zero_bytes 4" "max_bytes 4" plus_one_bytes minus_one_bytes
  by (rule bytes_space)

interpretation ip6: addr_space "\<lambda>a. length a = 16" "zero_bytes 16" "max_bytes 16" plus_one_bytes minus_one_bytes
  by (rule bytes_space)

lemma port_succ: "(v :: 16 word) \<noteq> 0xffff \<Longrightarrow> unat (v + 1) = unat v + 1"
proof -
  assume "v \<noteq> 0xffff"
  then have "unat v \<noteq> 65535" by (simp add: word_unat_eq_iff)
  moreover have "unat v < 65536" using unsigned_less [of v, where 'a = nat] by simp
  ultimately show ?thesis by (subst unat_add_lem [THEN iffD1]) simp_all
qed

lemma port_pred: "(v :: 16 word) \<noteq> 0 \<Longrightarrow> unat (v - 1) = unat v - 1 \<and> 0 < unat v"
proof -
  assume "v \<noteq> 0"
  then have "0 < unat v" by (simp add: unat_gt_0)
  then show ?thesis by (simp add: unat_sub word_le_nat_alt)
qed

interpretation port: addr_space "\<lambda>_. True" 0 max_port plus_one_port minus_one_port
proof unfold_locales
  fix a b :: "16 word"
  show "a \<le> max_port" using unsigned_less [of a, where 'a = nat] by (simp add: max_port_def word_le_nat_alt)
  show "a \<noteq> max_port \<Longrightarrow> a < plus_one_port a"
    using port_succ [of a] by (simp add: max_port_def plus_one_port_def word_less_nat_alt)
  show "a < b \<Longrightarrow> plus_one_port a \<le> b"
  proof -
    assume lt: "a < b"
    then have "unat a < unat b" by (simp add: word_less_nat_alt)
    moreover have "unat b < 65536" using unsigned_less [of b, where 'a = nat] by simp
    ultimately have "a \<noteq> 0xffff" by auto
    then show ?thesis using port_succ [of a] lt by (simp add: plus_one_port_def word_le_nat_alt word_less_nat_alt)
  qed
  show "a \<noteq> 0 \<Longrightarrow> plus_one_port (minus_one_port a) = a \<and> minus_one_port a < a"
    using port_pred [of a] by (simp add: plus_one_port_def minus_one_port_def word_less_nat_alt)
qed (simp_all add: plus_one_port_def minus_one_port_def)


definition ip_filter_wf :: "ip_filter \<Rightarrow> bool" where
  "ip_filter_wf f \<longleftrightarrow> ip4.wf (m_filter4 f) \<and> ip6.wf (m_filter6 f)"

definition port_rules :: "(16 word \<times> 16 word \<times> int) list \<Rightarrow> 16 word range_t" where
  "port_rules rs = foldl (\<lambda>L (a, b, f). port_add_rule L a b f) (filter_init 0) rs"

lemma port_rules_spec:
  assumes "\<forall>(a, b, f) \<in> set rs. a \<le> b"
  shows "port.wf (port_rules rs) \<and> port_access (port_rules rs) p =
    foldl (\<lambda>x (a, b, f). if a \<le> p \<and> p \<le> b then f else x) 0 rs"
  using assms
proof (induction rs rule: rev_induct)
  case Nil
  show ?case using port.init_wf port.wf_access [OF port.init_wf, of p]
    by (simp add: port_rules_def port_access_def) (simp add: acc_def filter_init_def)
next
  case (snoc r rs)
  obtain a b f where r: "r = (a, b, f)" by (cases r) auto
  have ih: "port.wf (port_rules rs)"
    "port_access (port_rules rs) p = foldl (\<lambda>x (a, b, f). if a \<le> p \<and> p \<le> b then f else x) 0 rs"
    using snoc by auto
  have "a \<le> b" using snoc.prems r by simp
  then have w: "port.wf (port_add_rule (port_rules rs) a b f)"
    "acc (port_add_rule (port_rules rs) a b f) p = (if a \<le> p \<and> p \<le> b then f else acc (port_rules rs) p)"
    using port.add_rule_wf [OF ih(1)] port.add_rule_acc [OF ih(1)] by (simp_all add: port_add_rule_def)
  have s: "port_rules (rs @ [r]) = port_add_rule (port_rules rs) a b f" by (simp add: port_rules_def r)
  show ?case unfolding s using w ih port.wf_access [OF w(1), of p] port.wf_access [OF ih(1), of p]
    by (simp add: port_access_def r)
qed

subsection \<open>Properties\<close>



text \<open>C17: The port filter implements a plain map from ports to flags: after any sequence of rules, the access
  of every port is that of the last rule that covers it, and 0 if none does.\<close>

theorem port_filter_refines:
  assumes "\<forall>(a, b, f) \<in> set rs. a \<le> b"
  shows "port_access (port_rules rs) p = foldl (\<lambda>x (a, b, f). if a \<le> p \<and> p \<le> b then f else x) 0 rs"
  using port_rules_spec [OF assms, of p] by simp

theorem port_filter_refines_witness:
  "port_access (port_rules [(0, 1023, 1), (80, 80, 0)]) 80 = 0 \<and> port_access (port_rules [(0, 1023, 1), (80, 80, 0)]) 79 = 1"
  using port_filter_refines [of "[(0, 1023, 1), (80, 80, 0)]" 80] port_filter_refines [of "[(0, 1023, 1), (80, 80, 0)]" 79] by simp



end
