(* ===== verification/Bencode.thy ===== *)
theory Bencode
  imports Escape_String "HOL-Library.List_Lexorder" "HOL-Library.Signed_Division" "HOL-Library.Sublist"
    "HOL-Library.Code_Target_Numeral"
begin

text \<open>
  \<^verbatim>\<open>include/libtorrent/bencode.hpp\<close> with \<^verbatim>\<open>integer_to_str\<close> of \<^verbatim>\<open>src/entry.cpp\<close>: the encoder and the
  recursive decoder. An input iterator is the list of the bytes that are left. A decoder returns
  \<open>Ok\<close> with a value and the rest, \<open>Fail\<close> where it sets \<^verbatim>\<open>err\<close>, and \<open>Undef\<close> where the behaviour of the
  code is undefined: an iterator at the end is dereferenced, or \<^verbatim>\<open>atoi\<close> is out of range. \<open>No_Fuel\<close> is
  not an outcome of the code; \<open>bdecode_returns\<close> shows that it does not occur.
\<close>

datatype entry =
    Int_t int
  | String_t bytes
  | List_t "entry list"
  | Dictionary_t "(bytes \<times> entry) list"
  | Undefined_t

subsection \<open>Encoding\<close>

text \<open>The loop of \<^verbatim>\<open>integer_to_str\<close>: \<open>buf\<close> is what has been written from position \<open>sz\<close> on.\<close>

fun its_loop :: "nat \<Rightarrow> nat \<Rightarrow> int \<Rightarrow> bytes \<Rightarrow> nat \<times> bytes" where
  "its_loop 0 sign val buf = (0, buf)"
| "its_loop (Suc sz) sign val buf =
     (if Suc sz > sign \<and> val \<noteq> 0
      then its_loop sz sign (val sdiv 10) (word_of_int (48 + val smod 10) # buf)
      else (Suc sz, buf))"

definition negate64 :: "int \<Rightarrow> int" where
  "negate64 v = (if v = - (2 ^ 63) then v else - v)"

definition integer_to_str :: "nat \<Rightarrow> int \<Rightarrow> bytes" where
  "integer_to_str sz val =
     (let sign = (if val < 0 then 1 else 0);
          val = (if val < 0 then negate64 val else val);
          sz = sz - 1;
          (sz, buf) = (if val = 0 then (sz - 1, [ch CHR ''0'']) else (sz, []));
          (sz, buf) = its_loop sz sign val buf
      in if sign = 1 then ch CHR ''-'' # buf else buf)"

definition write_integer :: "int \<Rightarrow> bytes" where
  "write_integer val = integer_to_str 21 val"

definition write_key :: "bytes \<Rightarrow> bytes" where
  "write_key s = write_integer (int (length s)) @ [ch CHR '':''] @ s"

text \<open>\<^verbatim>\<open>bencode_recursive\<close> returns the number of bytes it has written.\<close>

fun bencode_recursive :: "entry \<Rightarrow> bytes \<times> nat" where
  "bencode_recursive (Int_t n) =
     ([ch CHR ''i''] @ write_integer n @ [ch CHR ''e''], length (write_integer n) + 2)"
| "bencode_recursive (String_t s) =
     (write_integer (int (length s)) @ [ch CHR '':''] @ s, length (write_integer (int (length s))) + length s + 1)"
| "bencode_recursive (List_t es) =
     (let rs = map bencode_recursive es in
      ([ch CHR ''l''] @ concat (map fst rs) @ [ch CHR ''e''], sum_list (map snd rs) + 2))"
| "bencode_recursive (Dictionary_t kvs) =
     (let rs = map (\<lambda>(k, e). case bencode_recursive e of (out, n) \<Rightarrow>
                 (write_integer (int (length k)) @ [ch CHR '':''] @ k @ out,
                  length (write_integer (int (length k))) + length k + n + 1)) kvs in
      ([ch CHR ''d''] @ concat (map fst rs) @ [ch CHR ''e''], sum_list (map snd rs) + 2))"
| "bencode_recursive Undefined_t = ([], 0)"

definition bencode :: "entry \<Rightarrow> bytes" where
  "bencode e = fst (bencode_recursive e)"

subsection \<open>Decoding\<close>

datatype 'a outcome = Ok 'a bytes | Fail | Undef | No_Fuel

definition read_until_token :: "bytes \<Rightarrow> byte \<Rightarrow> (bytes \<times> bytes) option" where
  "read_until_token s tok =
     (if dropWhile (\<lambda>c. c \<noteq> tok) s = [] then None
      else Some (takeWhile (\<lambda>c. c \<noteq> tok) s, dropWhile (\<lambda>c. c \<noteq> tok) s))"

definition is_space :: "byte \<Rightarrow> bool" where
  "is_space c \<longleftrightarrow> c = 32 \<or> (9 \<le> c \<and> c \<le> 13)"

text \<open>\<^verbatim>\<open>strtoll\<close> in base 10 on a string; \<open>None\<close> if there is nothing to convert.\<close>

definition clamp64 :: "int \<Rightarrow> int" where
  "clamp64 v = (if v < - (2 ^ 63) then - (2 ^ 63) else if 2 ^ 63 - 1 < v then 2 ^ 63 - 1 else v)"

definition strtoll :: "bytes \<Rightarrow> int option" where
  "strtoll s =
     (let s = dropWhile is_space s;
          (neg, s) = (case s of [] \<Rightarrow> (False, s)
             | c # r \<Rightarrow> if c = ch CHR ''-'' then (True, r) else if c = ch CHR ''+'' then (False, r) else (False, s));
          ds = takeWhile is_digit s
      in if ds = [] then None
         else Some (clamp64 (if neg then - int (decimal_value ds) else int (decimal_value ds))))"

definition atoi :: "bytes \<Rightarrow> nat option" where
  "atoi s = (let n = decimal_value (takeWhile is_digit s) in if n < 2 ^ 31 then Some n else None)"

text \<open>\<^verbatim>\<open>std::map\<close> with its elements in order: \<^verbatim>\<open>operator[]\<close> followed by an assignment.\<close>

fun map_put :: "('k::linorder \<times> 'v) list \<Rightarrow> 'k \<Rightarrow> 'v \<Rightarrow> ('k \<times> 'v) list" where
  "map_put [] k v = [(k, v)]"
| "map_put ((k', v') # m) k v =
     (if k < k' then (k, v) # (k', v') # m
      else if k = k' then (k, v) # m
      else (k', v') # map_put m k v)"

text \<open>
  The loops over the elements of a list and of a dictionary, with \<open>p\<close> the recursive call. A key
  that is not a string ends the loop without an error.
\<close>

fun list_loop :: "nat \<Rightarrow> (bytes \<Rightarrow> entry outcome) \<Rightarrow> bytes \<Rightarrow> entry list \<Rightarrow> entry outcome" where
  "list_loop 0 p s es = No_Fuel"
| "list_loop (Suc n) p s es =
     (case s of
        [] \<Rightarrow> Undef
      | c # r \<Rightarrow>
          if c = ch CHR ''e'' then Ok (List_t es) r
          else case p s of
              Ok e s' \<Rightarrow> if s' = [] then Fail else list_loop n p s' (es @ [e])
            | x \<Rightarrow> x)"

fun dict_loop :: "nat \<Rightarrow> (bytes \<Rightarrow> entry outcome) \<Rightarrow> bytes \<Rightarrow> (bytes \<times> entry) list \<Rightarrow> entry outcome" where
  "dict_loop 0 p s m = No_Fuel"
| "dict_loop (Suc n) p s m =
     (case s of
        [] \<Rightarrow> Undef
      | c # r \<Rightarrow>
          if c = ch CHR ''e'' then Ok (Dictionary_t m) r
          else case p s of
              Ok key s' \<Rightarrow>
                (case key of
                   String_t k \<Rightarrow>
                     (case p s' of
                        Ok e s'' \<Rightarrow> if s'' = [] then Fail else dict_loop n p s'' (map_put m k e)
                      | x \<Rightarrow> x)
                 | _ \<Rightarrow> Ok (Dictionary_t m) s')
            | x \<Rightarrow> x)"

text \<open>The first argument is 100 minus \<^verbatim>\<open>depth\<close>; \<open>fuel\<close> bounds the iterations of the loops.\<close>

fun bdecode_recursive :: "nat \<Rightarrow> nat \<Rightarrow> bytes \<Rightarrow> entry outcome" where
  "bdecode_recursive 0 fuel s = Fail"
| "bdecode_recursive (Suc d) fuel s =
     (case s of
        [] \<Rightarrow> Fail
      | c # r \<Rightarrow>
          if c = ch CHR ''i''
          then (case read_until_token r (ch CHR ''e'') of
                  None \<Rightarrow> Fail
                | Some (v, rest) \<Rightarrow>
                    (case strtoll v of None \<Rightarrow> Fail | Some n \<Rightarrow> Ok (Int_t n) (tl rest)))
          else if c = ch CHR ''l'' then list_loop fuel (bdecode_recursive d fuel) r []
          else if c = ch CHR ''d'' then dict_loop fuel (bdecode_recursive d fuel) r []
          else if is_digit c
          then (case read_until_token s (ch CHR '':'') of
                  None \<Rightarrow> Fail
                | Some (len_s, rest) \<Rightarrow>
                    (case atoi len_s of
                       None \<Rightarrow> Undef
                     | Some len \<Rightarrow>
                         if length (tl rest) < len then Fail
                         else Ok (String_t (take len (tl rest))) (drop len (tl rest))))
          else Fail)"

text \<open>\<^verbatim>\<open>bdecode\<close> returns an undefined entry on an error, and \<open>None\<close> here is undefined behaviour.\<close>

definition bdecode :: "bytes \<Rightarrow> entry option" where
  "bdecode s =
     (case bdecode_recursive 100 (Suc (length s)) s of
        Ok e _ \<Rightarrow> Some e | Fail \<Rightarrow> Some Undefined_t | _ \<Rightarrow> None)"


subsection \<open>Integers\<close>

lemma digit_byte:
  assumes "0 \<le> d" "d < 10"
  shows "unat (word_of_int (48 + d) :: byte) = 48 + nat d"
proof -
  have "uint (word_of_int (48 + d) :: byte) = (48 + d) mod 2 ^ LENGTH(8)" by (rule uint_word_of_int)
  also have "\<dots> = 48 + d" using assms by (intro mod_pos_pos_trivial) simp_all
  finally have "unat (word_of_int (48 + d) :: byte) = nat (48 + d)" by (metis nat_uint_eq)
  then show ?thesis using assms by simp
qed

lemma its_loop_digits:
  assumes "0 \<le> val" "nat val < 10 ^ (sz - sign)" "\<forall>c \<in> set buf. is_digit c"
  shows "\<forall>c \<in> set (snd (its_loop sz sign val buf)). is_digit c"
    "foldl (\<lambda>v c. v * 10 + (unat c - 48)) 0 (snd (its_loop sz sign val buf)) =
     foldl (\<lambda>v c. v * 10 + (unat c - 48)) (nat val) buf"
    "sign \<le> sz \<Longrightarrow> sign \<le> fst (its_loop sz sign val buf) \<and>
       fst (its_loop sz sign val buf) + length (snd (its_loop sz sign val buf)) = sz + length buf"
  using assms
proof (induction sz sign val buf rule: its_loop.induct)
  case (2 sz sign val buf)
  let ?d = "val smod 10" and ?q = "val sdiv 10"
  have dq: "?q = val div 10" "?d = val mod 10" "0 \<le> ?d" "?d < 10" if "0 \<le> val"
    using that by (cases "val = 0"; simp add: signed_divide_int_def signed_modulo_int_def algebra_simps minus_mult_div_eq_mod)+
  have dig: "is_digit (word_of_int (48 + ?d))" "unat (word_of_int (48 + ?d) :: byte) = 48 + nat ?d" if "0 \<le> val"
    using dq(3,4) [OF that] digit_byte [of ?d] by (simp_all add: is_digit_def)
  have lt: "nat ?q < 10 ^ (sz - sign)" if "0 \<le> val" "nat val < 10 ^ (Suc sz - sign)" "Suc sz > sign"
  proof -
    have "nat val < 10 * 10 ^ (sz - sign)" using that by (simp add: Suc_diff_le)
    then have "nat val div 10 < 10 ^ (sz - sign)" by (simp add: less_mult_imp_div_less mult.commute)
    then show ?thesis using that dq(1) by (simp add: nat_div_distrib)
  qed
  have v: "nat ?q * 10 + nat ?d = nat val" if "0 \<le> val"
    using that dq by (simp add: nat_div_distrib nat_mod_distrib)
  { case 1
    then show ?case using "2.IH"(1) dig(1) lt dq(1) by (auto simp: pos_imp_zdiv_nonneg_iff)
  next
    case 2
    show ?case
    proof (cases "Suc sz > sign \<and> val \<noteq> 0")
      case True
      have "foldl (\<lambda>v c. v * 10 + (unat c - 48)) 0 (snd (its_loop sz sign ?q (word_of_int (48 + ?d) # buf))) =
          foldl (\<lambda>v c. v * 10 + (unat c - 48)) (nat ?q) (word_of_int (48 + ?d) # buf)"
        using "2.IH"(2) [OF True] 2 True dig(1) lt dq(1) by (auto simp: pos_imp_zdiv_nonneg_iff)
      then show ?thesis using True dig(2) v 2(1) by simp
    next
      case False
      then show ?thesis using 2 by auto
    qed
  next
    case 3
    then show ?case using "2.IH"(3) dig(1) lt dq(1) by (auto simp: pos_imp_zdiv_nonneg_iff)
  }
qed auto


lemma write_integer_abs:
  assumes "- (2 ^ 63) < n" "n < 2 ^ 63"
  obtains ds where "write_integer n = (if n < 0 then ch CHR ''-'' # ds else ds)" "ds \<noteq> []"
    "\<forall>c \<in> set ds. is_digit c" "decimal_value ds = nat \<bar>n\<bar>"
proof -
  define sign :: nat where "sign = (if n < 0 then 1 else 0)"
  have neg: "(if n < 0 then negate64 n else n) = \<bar>n\<bar>" using assms by (simp add: negate64_def)
  have lt: "nat \<bar>n\<bar> < 10 ^ (20 - sign)"
  proof -
    have "nat \<bar>n\<bar> < 2 ^ 63" using assms by (simp add: nat_less_iff)
    also have "(2 :: nat) ^ 63 < 10 ^ 19" by simp
    also have "(10 :: nat) ^ 19 \<le> 10 ^ (20 - sign)" by (rule power_increasing) (simp_all add: sign_def)
    finally show ?thesis .
  qed
  show thesis
  proof (cases "n = 0")
    case True
    then have "write_integer n = [ch CHR ''0'']"
      by (simp add: write_integer_def integer_to_str_def Let_def numeral_eq_Suc)
    then show ?thesis using True by (intro that [of "[ch CHR ''0'']"]) (simp_all add: is_digit_def decimal_value_def)
  next
    case False
    define ds where "ds = snd (its_loop 20 sign \<bar>n\<bar> [])"
    have w: "write_integer n = (if n < 0 then ch CHR ''-'' # ds else ds)"
      using False unfolding write_integer_def integer_to_str_def Let_def neg
      by (simp add: ds_def sign_def case_prod_unfold)
    note d = its_loop_digits [of "\<bar>n\<bar>" 20 sign "[]", folded ds_def]
    have v: "decimal_value ds = nat \<bar>n\<bar>" using d(2) lt by (simp add: decimal_value_def)
    then have "ds \<noteq> []" using False by (auto simp: decimal_value_def)
    then show ?thesis using that [OF w] d(1) lt v by simp
  qed
qed

lemma digit_facts:
  assumes "is_digit c"
  shows "c \<noteq> ch CHR ''e''" "c \<noteq> ch CHR '':''" "c \<noteq> ch CHR ''-''" "c \<noteq> ch CHR ''+''" "c \<noteq> ch CHR ''i''"
    "c \<noteq> ch CHR ''l''" "c \<noteq> ch CHR ''d''" "\<not> is_space c"
  using assms by (auto simp: is_digit_def is_space_def word_le_nat_alt)

lemma read_until_token_at:
  "tok \<notin> set p \<Longrightarrow> read_until_token (p @ tok # r) tok = Some (p, tok # r)"
  by (auto simp: read_until_token_def dropWhile_append takeWhile_append dropWhile_eq_Nil_conv
      takeWhile_eq_all_conv [THEN iffD2] in_set_conv_decomp dest: split_list)

lemma strtoll_digits:
  assumes "ds \<noteq> []" "\<forall>c \<in> set ds. is_digit c" "int (decimal_value ds) < 2 ^ 63"
  shows "strtoll ds = Some (int (decimal_value ds))" "strtoll (ch CHR ''-'' # ds) = Some (- int (decimal_value ds))"
proof -
  obtain c r where c: "ds = c # r" using assms(1) by (cases ds) auto
  have t: "takeWhile is_digit ds = ds" using assms(2) by (simp add: takeWhile_eq_all_conv)
  have sp: "dropWhile is_space ds = ds" using c assms(2) digit_facts(8) by auto
  have sg: "(case ds of [] \<Rightarrow> (False, ds)
      | c # r \<Rightarrow> if c = ch CHR ''-'' then (True, r) else if c = ch CHR ''+'' then (False, r) else (False, ds)) = (False, ds)"
    using c assms(2) digit_facts(3,4) [of c] by simp
  show "strtoll ds = Some (int (decimal_value ds))"
    unfolding strtoll_def Let_def sp sg prod.case t using assms(1,3) by (simp add: clamp64_def)
  have mi: "dropWhile is_space (ch CHR ''-'' # ds) = ch CHR ''-'' # ds" by (simp add: is_space_def word_le_nat_alt)
  show "strtoll (ch CHR ''-'' # ds) = Some (- int (decimal_value ds))"
    unfolding strtoll_def Let_def mi list.case if_P [OF refl] prod.case t using assms(1,3) by (simp add: clamp64_def)
qed

lemma strtoll_write:
  assumes "- (2 ^ 63) < n" "n < 2 ^ 63"
  shows "strtoll (write_integer n) = Some n" "ch CHR ''e'' \<notin> set (write_integer n)"
proof -
  obtain ds where d: "write_integer n = (if n < 0 then ch CHR ''-'' # ds else ds)" "ds \<noteq> []"
    "\<forall>c \<in> set ds. is_digit c" "decimal_value ds = nat \<bar>n\<bar>" by (rule write_integer_abs [OF assms])
  show "strtoll (write_integer n) = Some n" using strtoll_digits [OF d(2,3)] d(1,4) assms by auto
  show "ch CHR ''e'' \<notin> set (write_integer n)" using d(1,3) digit_facts(1) by auto
qed

lemma write_length:
  assumes "length s < 2 ^ 31"
  obtains c r where "write_integer (int (length s)) = c # r" "is_digit c" "ch CHR '':'' \<notin> set (c # r)" "atoi (c # r) = Some (length s)"
proof -
  have "- (2 ^ 63) < int (length s)" "int (length s) < 2 ^ 63" using assms by simp_all
  then obtain ds where d: "write_integer (int (length s)) = ds" "ds \<noteq> []"
    "\<forall>c \<in> set ds. is_digit c" "decimal_value ds = length s"
    using write_integer_abs [of "int (length s)"] by (metis abs_of_nat nat_int of_nat_less_0_iff)
  then obtain c r where c: "ds = c # r" by (cases ds) auto
  have t: "takeWhile is_digit ds = ds" using d(3) by (simp add: takeWhile_eq_all_conv)
  have "atoi ds = Some (length s)" unfolding atoi_def t using d(4) assms by simp
  moreover have "ch CHR '':'' \<notin> set ds" using d(3) digit_facts(2) by blast
  ultimately show thesis using that [of c r] d c by simp
qed


subsection \<open>Decoding what was encoded\<close>

text \<open>
  The entries that survive: no undefined entry, 64-bit integers other than the smallest, strings
  shorter than \<open>2 ^ 31\<close> bytes, and the keys of a dictionary in the order of \<^verbatim>\<open>std::map\<close>.
\<close>

fun entry_ok :: "entry \<Rightarrow> bool" where
  "entry_ok (Int_t n) \<longleftrightarrow> - (2 ^ 63) < n \<and> n < 2 ^ 63"
| "entry_ok (String_t s) \<longleftrightarrow> length s < 2 ^ 31"
| "entry_ok (List_t es) \<longleftrightarrow> (\<forall>e \<in> set es. entry_ok e)"
| "entry_ok (Dictionary_t m) \<longleftrightarrow> (\<forall>(k, e) \<in> set m. length k < 2 ^ 31 \<and> entry_ok e) \<and> sorted_wrt (<) (map fst m)"
| "entry_ok Undefined_t \<longleftrightarrow> False"

fun depth :: "entry \<Rightarrow> nat" where
  "depth (List_t es) = Suc (Max (insert 0 (set (map depth es))))"
| "depth (Dictionary_t m) = Suc (Max (insert 1 (set (map (\<lambda>(k, e). depth e) m))))"
| "depth _ = 1"

lemma bencode_simps:
  "bencode (Int_t n) = [ch CHR ''i''] @ write_integer n @ [ch CHR ''e'']"
  "bencode (String_t s) = write_key s"
  "bencode (List_t es) = [ch CHR ''l''] @ concat (map bencode es) @ [ch CHR ''e'']"
  "bencode (Dictionary_t m) = [ch CHR ''d''] @ concat (map (\<lambda>(k, e). write_key k @ bencode e) m) @ [ch CHR ''e'']"
  by (simp_all add: bencode_def [abs_def] write_key_def Let_def comp_def case_prod_unfold)

lemma decode_key:
  assumes "length k < 2 ^ 31"
  shows "bdecode_recursive (Suc d) fuel (write_key k @ rest) = Ok (String_t k) rest"
    "write_key k \<noteq> []" "hd (write_key k) \<noteq> ch CHR ''e''"
proof -
  obtain c r where w: "write_integer (int (length k)) = c # r" "is_digit c" "ch CHR '':'' \<notin> set (c # r)" "atoi (c # r) = Some (length k)"
    by (rule write_length [OF assms])
  have k: "write_key k @ rest = (c # r) @ ch CHR '':'' # k @ rest" by (simp add: write_key_def w(1))
  have "read_until_token (write_key k @ rest) (ch CHR '':'') = Some (c # r, ch CHR '':'' # k @ rest)"
    unfolding k by (rule read_until_token_at [OF w(3)])
  moreover have "write_key k @ rest = c # r @ ch CHR '':'' # k @ rest" by (simp add: k)
  ultimately show "bdecode_recursive (Suc d) fuel (write_key k @ rest) = Ok (String_t k) rest"
    using w(2,4) digit_facts(5-7) [OF w(2)] by simp
  show "write_key k \<noteq> []" "hd (write_key k) \<noteq> ch CHR ''e''"
    using digit_facts(1) [OF w(2)] by (simp_all add: write_key_def w(1))
qed

lemma encoded_start:
  assumes "entry_ok e"
  shows "bencode e \<noteq> []" "hd (bencode e) \<noteq> ch CHR ''e''"
  using assms decode_key(2,3) by (cases e; simp add: bencode_simps)+

lemma list_loop_decodes:
  assumes "\<And>e rest. e \<in> set es \<Longrightarrow> p (bencode e @ rest) = Ok e rest" "\<forall>e \<in> set es. entry_ok e" "length es < n"
  shows "list_loop n p (concat (map bencode es) @ ch CHR ''e'' # rest) acc = Ok (List_t (acc @ es)) rest"
  using assms
proof (induction es arbitrary: n acc)
  case Nil
  then show ?case by (cases n) auto
next
  case (Cons e es)
  obtain m where n: "n = Suc m" using Cons.prems(3) by (cases n) auto
  let ?r = "concat (map bencode es) @ ch CHR ''e'' # rest"
  obtain c r where c: "bencode e = c # r" "c \<noteq> ch CHR ''e''"
    using encoded_start [of e] Cons.prems(2) by (cases "bencode e") auto
  have "list_loop n p (bencode e @ ?r) acc = list_loop m p ?r (acc @ [e])"
    using Cons.prems(1) [of e ?r] c by (simp add: n)
  also have "\<dots> = Ok (List_t ((acc @ [e]) @ es)) rest"
    using Cons.prems n by (intro Cons.IH) auto
  finally show ?case by simp
qed

lemma map_put_last: "\<forall>x \<in> fst ` set m. x < k \<Longrightarrow> map_put m k v = m @ [(k, v)]"
proof (induction m)
  case (Cons x m)
  obtain k' v' where x: "x = (k', v')" by fastforce
  have "k' < k" using Cons.prems x by simp
  then show ?case using Cons x by auto
qed simp

lemma dict_loop_decodes:
  assumes "\<And>k e rest. (k, e) \<in> set m \<Longrightarrow> p (bencode e @ rest) = Ok e rest"
    "\<And>k e rest. (k, e) \<in> set m \<Longrightarrow> p (write_key k @ rest) = Ok (String_t k) rest"
    "\<forall>(k, e) \<in> set m. length k < 2 ^ 31 \<and> entry_ok e" "sorted_wrt (<) (map fst (acc @ m))" "length m < n"
  shows "dict_loop n p (concat (map (\<lambda>(k, e). write_key k @ bencode e) m) @ ch CHR ''e'' # rest) acc =
    Ok (Dictionary_t (acc @ m)) rest"
  using assms
proof (induction m arbitrary: n acc)
  case Nil
  then show ?case by (cases n) auto
next
  case (Cons x m)
  obtain k e where x: "x = (k, e)" by fastforce
  have p1: "\<And>rest. p (bencode e @ rest) = Ok e rest" if "(k, e) \<in> set m" for k e
    using Cons.prems(1) [of k e] that by simp
  have p2: "\<And>rest. p (write_key k @ rest) = Ok (String_t k) rest" if "(k, e) \<in> set m" for k e
    using Cons.prems(2) [of k e] that by simp
  obtain j where n: "n = Suc j" using Cons.prems(5) by (cases n) auto
  let ?r = "concat (map (\<lambda>(k, e). write_key k @ bencode e) m) @ ch CHR ''e'' # rest"
  obtain c r where c: "write_key k = c # r" "c \<noteq> ch CHR ''e''"
    using decode_key(2,3) [of k] Cons.prems(3) x by (cases "write_key k") auto
  have k: "map_put acc k e = acc @ [(k, e)]"
    using Cons.prems(4) x by (intro map_put_last) (auto simp: sorted_wrt_append)
  have "dict_loop n p (write_key k @ bencode e @ ?r) acc = dict_loop j p ?r (acc @ [(k, e)])"
    using Cons.prems(1) [of k e ?r] Cons.prems(2) [of k e "bencode e @ ?r"] c k x by (simp add: n)
  also have "\<dots> = Ok (Dictionary_t ((acc @ [(k, e)]) @ m)) rest"
    by (rule Cons.IH) (use Cons.prems n x in \<open>simp_all add: p1 p2\<close>)
  finally show ?case by (simp add: x)
qed

lemma length_le_concat: "(\<And>x. x \<in> set xs \<Longrightarrow> f x \<noteq> []) \<Longrightarrow> length xs \<le> length (concat (map f xs))"
  by (induction xs) (auto simp: Suc_le_eq trans_less_add1 intro!: add_less_le_mono [of 0 _ "length _", simplified])

lemma length_member_concat: "x \<in> set xs \<Longrightarrow> length (f x) \<le> length (concat (map f xs))"
  by (induction xs) auto

lemma decode_encode:
  assumes "entry_ok e" "depth e \<le> d" "length (bencode e) \<le> fuel"
  shows "bdecode_recursive d fuel (bencode e @ rest) = Ok e rest"
  using assms
proof (induction e arbitrary: d rest)
  case (Int_t n)
  obtain d' where d: "d = Suc d'" using Int_t.prems(2) by (cases d) auto
  note w = strtoll_write [of n]
  have "read_until_token (write_integer n @ ch CHR ''e'' # rest) (ch CHR ''e'') = Some (write_integer n, ch CHR ''e'' # rest)"
    using w(2) Int_t.prems(1) by (intro read_until_token_at) simp
  then show ?case using w(1) Int_t.prems(1) by (simp add: bencode_simps d)
next
  case (String_t s)
  obtain d' where d: "d = Suc d'" using String_t.prems(2) by (cases d) auto
  show ?case using decode_key(1) [of s d' fuel rest] String_t.prems(1) by (simp add: bencode_simps d)
next
  case (List_t es)
  obtain d' where d: "d = Suc d'" using List_t.prems(2) by (cases d) auto
  have ok: "\<forall>e \<in> set es. entry_ok e" using List_t.prems(1) by simp
  have dp: "depth e \<le> d'" if "e \<in> set es" for e using List_t.prems(2) that d by simp
  have "length (bencode e) \<le> fuel" if "e \<in> set es" for e
    using length_member_concat [of e es bencode, OF that] List_t.prems(3) by (simp add: bencode_simps)
  then have p: "bdecode_recursive d' fuel (bencode e @ rest') = Ok e rest'" if "e \<in> set es" for e rest'
    using List_t.IH [OF that] ok dp that by blast
  have "length es < fuel"
    using length_le_concat [of es bencode] encoded_start(1) ok List_t.prems(3) by (fastforce simp: bencode_simps)
  then have "list_loop fuel (bdecode_recursive d' fuel) (concat (map bencode es) @ ch CHR ''e'' # rest) [] = Ok (List_t ([] @ es)) rest"
    using p ok by (intro list_loop_decodes)
  then show ?case by (simp add: bencode_simps d)
next
  case (Dictionary_t m)
  let ?f = "\<lambda>(k, e). write_key k @ bencode e"
  obtain d' where d: "d = Suc d'" using Dictionary_t.prems(2) by (cases d) auto
  have ok: "\<forall>(k, e) \<in> set m. length k < 2 ^ 31 \<and> entry_ok e" and so: "sorted_wrt (<) (map fst ([] @ m))"
    using Dictionary_t.prems(1) by simp_all
  have dp: "depth e \<le> d'" if "(k, e) \<in> set m" for k e
    using Dictionary_t.prems(2) that d by fastforce
  have "1 \<le> d'" using Dictionary_t.prems(2) d by simp
  then obtain d'' where d'': "d' = Suc d''" by (cases d') auto
  have "length (bencode e) \<le> fuel" if "(k, e) \<in> set m" for k e
    using length_member_concat [of "(k, e)" m ?f, OF that] Dictionary_t.prems(3) by (simp add: bencode_simps)
  then have p: "bdecode_recursive d' fuel (bencode e @ rest') = Ok e rest'" if "(k, e) \<in> set m" for k e rest'
    using Dictionary_t.IH [of "(k, e)" e] ok dp that by fastforce
  have q: "bdecode_recursive d' fuel (write_key k @ rest') = Ok (String_t k) rest'" if "(k, e) \<in> set m" for k e rest'
    using decode_key(1) [of k d'' fuel rest'] ok that d'' by auto
  have "length m < fuel"
    using length_le_concat [of m ?f] decode_key(2) ok Dictionary_t.prems(3) by (fastforce simp: bencode_simps)
  then have "dict_loop fuel (bdecode_recursive d' fuel) (concat (map ?f m) @ ch CHR ''e'' # rest) [] = Ok (Dictionary_t ([] @ m)) rest"
    using p q ok so by (intro dict_loop_decodes)
  then show ?case by (simp add: bencode_simps d)
qed simp


subsection \<open>The decoder returns, and where it is undefined\<close>

text \<open>A parser makes progress if what is left is a proper suffix of what it was given.\<close>

definition progress :: "(bytes \<Rightarrow> entry outcome) \<Rightarrow> bool" where
  "progress p \<longleftrightarrow> (\<forall>s e r. p s = Ok e r \<longrightarrow> strict_suffix r s)"

lemma strict_suffix_rules:
  fixes r s :: bytes
  shows "strict_suffix r (c # r)" "strict_suffix r s \<Longrightarrow> strict_suffix r (c # s)"
    "strict_suffix r s \<Longrightarrow> strict_suffix (drop k r) s"
proof -
  show "strict_suffix r (c # r)" "strict_suffix r s \<Longrightarrow> strict_suffix r (c # s)"
    by (auto simp: strict_suffix_def suffix_def)
  show "strict_suffix r s \<Longrightarrow> strict_suffix (drop k r) s"
    using suffix_drop [of k r] suffix_order.le_less_trans by blast
qed

lemma list_loop_progress:
  assumes "progress p"
  shows "list_loop n p s es = Ok e r \<Longrightarrow> strict_suffix r s"
proof (induction n arbitrary: s es)
  case (Suc n)
  show ?case
  proof (cases "list_loop (Suc n) p s es = Ok e r \<and> s \<noteq> [] \<and> hd s \<noteq> ch CHR ''e''")
    case True
    then obtain e' s' where "p s = Ok e' s'" "list_loop n p s' (es @ [e']) = Ok e r"
      by (auto split: list.splits outcome.splits if_splits)
    then show ?thesis using Suc.IH assms unfolding progress_def by (meson suffix_order.less_trans)
  qed (use Suc.prems in \<open>auto simp: strict_suffix_rules split: list.splits if_splits\<close>)
qed simp

lemma dict_loop_progress:
  assumes "progress p"
  shows "dict_loop n p s m = Ok e r \<Longrightarrow> strict_suffix r s"
proof (induction n arbitrary: s m)
  case (Suc n)
  show ?case
  proof (cases "dict_loop (Suc n) p s m = Ok e r \<and> s \<noteq> [] \<and> hd s \<noteq> ch CHR ''e''")
    case True
    then obtain key s' where k: "p s = Ok key s'" by (auto split: list.splits outcome.splits)
    then have s': "strict_suffix s' s" using assms by (simp add: progress_def)
    show ?thesis
    proof (cases "r = s'")
      case False
      then obtain k e' s'' where "p s' = Ok e' s''" "dict_loop n p s'' (map_put m k e') = Ok e r"
        using True k by (auto split: list.splits outcome.splits entry.splits if_splits)
      then show ?thesis using Suc.IH assms s' unfolding progress_def by (meson suffix_order.less_trans)
    qed (use s' in simp)
  qed (use Suc.prems in \<open>auto simp: strict_suffix_rules split: list.splits if_splits\<close>)
qed simp

lemma suffix_after_token:
  assumes "read_until_token s tok = Some (v, r)"
  shows "strict_suffix (tl r) s"
proof -
  have "s = v @ r" "r \<noteq> []"
    using assms by (auto simp: read_until_token_def simp del: dropWhile_eq_Nil_conv split: if_splits)
  then show ?thesis by (cases r) (auto simp: strict_suffix_def suffix_def)
qed

lemma bdecode_progress: "progress (bdecode_recursive d fuel)"
proof (induction d)
  case 0
  then show ?case by (simp add: progress_def)
next
  case (Suc d)
  show ?case unfolding progress_def
    by (auto split: list.splits if_splits option.splits
        intro: list_loop_progress [OF Suc] dict_loop_progress [OF Suc] strict_suffix_rules suffix_after_token)
qed

lemma list_loop_returns:
  assumes p: "progress p"
  shows "\<lbrakk>\<And>s'. suffix s' s \<Longrightarrow> p s' \<noteq> No_Fuel; length s < n\<rbrakk> \<Longrightarrow> list_loop n p s es \<noteq> No_Fuel"
    "\<lbrakk>\<And>s'. suffix s' s \<Longrightarrow> p s' \<noteq> No_Fuel; length s < n\<rbrakk> \<Longrightarrow> dict_loop n p s m \<noteq> No_Fuel"
proof (induction n arbitrary: s es m)
  case (Suc n)
  have sh: "(\<forall>x. suffix x s' \<longrightarrow> p x \<noteq> No_Fuel) \<and> length s' < n"
    if "\<And>s'. suffix s' s \<Longrightarrow> p s' \<noteq> No_Fuel" "length s < Suc n" "strict_suffix s' s" for s s'
    using that by (meson less_Suc_eq_le less_le_trans suffix_length_less suffix_order.less_imp_le suffix_order.order_trans)
  have pr: "strict_suffix s' s" if "p s = Ok e s'" for s s' e using p that by (auto simp: progress_def)
  { case 1
    show ?case
    proof (cases "p s")
      case (Ok e s')
      then show ?thesis using sh [OF 1 pr [OF Ok]] Suc.IH(1) [of s'] by (auto split: list.splits if_splits)
    qed (use 1(1) [of s] in \<open>auto split: list.splits\<close>)
  next
    case 2
    show ?case
    proof (cases "p s")
      case (Ok e s')
      note s' = pr [OF this]
      show ?thesis
      proof (cases "p s'")
        case (Ok e' s'')
        then show ?thesis using sh [OF 2 suffix_order.less_trans [OF pr [OF Ok] s']] Suc.IH(2) [of s''] \<open>p s = Ok e s'\<close>
          by (auto split: list.splits entry.splits if_splits)
      qed (use 2(1) [of s'] s' \<open>p s = Ok e s'\<close> in \<open>auto split: list.splits entry.splits\<close>)
    qed (use 2(1) [of s] in \<open>auto split: list.splits\<close>)
  }
qed simp_all

lemma bdecode_fuel: "length s < fuel \<Longrightarrow> bdecode_recursive d fuel s \<noteq> No_Fuel"
proof (induction d arbitrary: s)
  case (Suc d)
  have "bdecode_recursive d fuel s' \<noteq> No_Fuel" if "suffix s' r" "length r < fuel" for s' r
    using Suc.IH [of s'] suffix_length_le [OF that(1)] that(2) by simp
  then have "list_loop fuel (bdecode_recursive d fuel) r [] \<noteq> No_Fuel"
    "dict_loop fuel (bdecode_recursive d fuel) r [] \<noteq> No_Fuel" if "length r < fuel" for r
    using list_loop_returns [OF bdecode_progress, of r d fuel fuel] that by blast+
  then show ?case using Suc.prems by (auto split: list.splits option.splits)
qed simp


text \<open>Input on which the decoder is defined.\<close>

fun safe_input :: "bytes \<Rightarrow> bool" where
  "safe_input [] \<longleftrightarrow> True"
| "safe_input (c # s) \<longleftrightarrow>
     atoi (c # s) \<noteq> None \<and> (s = [] \<longrightarrow> c \<noteq> ch CHR ''l'' \<and> c \<noteq> ch CHR ''d'') \<and> safe_input s"

lemma safe_input_suffix: "safe_input s \<Longrightarrow> suffix r s \<Longrightarrow> safe_input r"
  by (induction s) (auto simp: suffix_Cons)

lemma loops_defined:
  assumes p: "progress p" "\<And>s. safe_input s \<Longrightarrow> p s \<noteq> Undef"
  shows "s \<noteq> [] \<Longrightarrow> safe_input s \<Longrightarrow> list_loop n p s es \<noteq> Undef"
    "s \<noteq> [] \<Longrightarrow> safe_input s \<Longrightarrow> dict_loop n p s m \<noteq> Undef"
proof (induction n arbitrary: s es m)
  case (Suc n)
  have pr: "safe_input s'" if "p s = Ok e s'" "safe_input s" for s s' e
    using p(1) that safe_input_suffix unfolding progress_def by (meson suffix_order.less_imp_le)
  { case 1
    show ?case
    proof (cases "p s")
      case (Ok e s')
      then have "s' \<noteq> [] \<Longrightarrow> list_loop n p s' es' \<noteq> Undef" for es' using Suc.IH(1) [of s'] pr 1(2) by blast
      then show ?thesis using 1(1) Ok by (auto split: list.splits if_splits)
    qed (use 1 p(2) [of s] in \<open>auto split: list.splits\<close>)
  next
    case 2
    show ?case
    proof (cases "p s")
      case (Ok e s')
      then have s': "safe_input s'" using pr 2(2) by blast
      show ?thesis
      proof (cases "p s'")
        case (Ok e' s'')
        then have "s'' \<noteq> [] \<Longrightarrow> dict_loop n p s'' m' \<noteq> Undef" for m' using Suc.IH(2) [of s''] pr s' by blast
        then show ?thesis using 2(1) Ok \<open>p s = Ok e s'\<close> by (auto split: list.splits entry.splits if_splits)
      qed (use 2(1) p(2) [OF s'] \<open>p s = Ok e s'\<close> in \<open>auto split: list.splits entry.splits\<close>)
    qed (use 2 p(2) [of s] in \<open>auto split: list.splits\<close>)
  }
qed simp_all

lemma atoi_until: "atoi (takeWhile (\<lambda>c. c \<noteq> ch CHR '':'') s) = atoi s"
proof -
  have "takeWhile is_digit (takeWhile (\<lambda>c. c \<noteq> ch CHR '':'') s) = takeWhile is_digit s"
    using digit_facts(2) by (induction s) auto
  then show ?thesis by (simp only: atoi_def)
qed

lemma bdecode_defined: "safe_input s \<Longrightarrow> bdecode_recursive d fuel s \<noteq> Undef"
proof (induction d arbitrary: s)
  case (Suc d)
  have len: "atoi v \<noteq> None" if "read_until_token s (ch CHR '':'') = Some (v, r)" for v r
    using that Suc.prems atoi_until [of s]
    by (cases s) (simp add: read_until_token_def, auto simp: read_until_token_def simp del: dropWhile_eq_Nil_conv takeWhile.simps dropWhile.simps split: if_splits)
  have lp: "r \<noteq> [] \<and> safe_input r" if "s = c # r" "c = ch CHR ''l'' \<or> c = ch CHR ''d''" for c r
    using Suc.prems that by auto
  note loops = loops_defined [OF bdecode_progress [of d fuel] Suc.IH]
  show ?case using len lp loops by (auto split: list.splits option.splits)
qed simp


lemma bencode_count: "snd (bencode_recursive e) = length (bencode e)"
proof (induction e)
  case (List_t es)
  then have "map (\<lambda>e. snd (bencode_recursive e)) es = map (\<lambda>e. length (bencode e)) es" by simp
  then show ?case by (simp only: bencode_simps bencode_recursive.simps) (simp add: Let_def length_concat comp_def del: map_eq_conv)
next
  case (Dictionary_t m)
  have "snd (bencode_recursive e) = length (bencode e)" if "(k, e) \<in> set m" for k e
    using Dictionary_t.IH [OF that, of e] by simp
  then have "map (\<lambda>(k, e). length (write_integer (int (length k))) + length k + snd (bencode_recursive e) + 1) m =
      map (\<lambda>(k, e). length (write_key k @ bencode e)) m"
    by (auto simp: write_key_def)
  then show ?case by (simp add: bencode_simps Let_def length_concat comp_def case_prod_unfold del: map_eq_conv)
qed (simp_all add: bencode_simps write_key_def, simp_all add: bencode_def)

interpretation benc: codec "\<lambda>e. entry_ok e \<and> depth e \<le> 100" bencode bdecode
proof
  fix e assume "entry_ok e \<and> depth e \<le> 100"
  then have "bdecode_recursive 100 (Suc (length (bencode e))) (bencode e @ []) = Ok e []"
    by (intro decode_encode) simp_all
  then show "bdecode (bencode e) = Some e" by (simp add: bdecode_def)
qed

subsection \<open>Properties\<close>



text \<open>C20: The decoder returns on every input within one loop iteration per byte, and on input that
  does not end in \<open>l\<close> or \<open>d\<close> and has no number that overflows \<^verbatim>\<open>int\<close>, \<open>bdecode\<close> has a defined
  result.\<close>

theorem bdecode_returns:
  "bdecode_recursive 100 (Suc (length s)) s \<noteq> No_Fuel \<and> (safe_input s \<longrightarrow> (\<exists>e. bdecode s = Some e))"
proof (intro conjI impI)
  show "bdecode_recursive 100 (Suc (length s)) s \<noteq> No_Fuel" by (rule bdecode_fuel) simp
  then show "\<exists>e. bdecode s = Some e" if "safe_input s"
    using bdecode_defined [OF that, of 100 "Suc (length s)"]
    by (cases "bdecode_recursive 100 (Suc (length s)) s") (simp_all add: bdecode_def)
qed

theorem bdecode_returns_witness: "\<exists>e. bdecode (map ch ''d1:ali-3eee'') = Some e"
proof -
  have "safe_input (map ch ''d1:ali-3eee'')" by code_simp
  then show ?thesis using bdecode_returns by blast
qed

lemma bencode_corner_cases:
  "bdecode (map ch ''l'') = None \<and>
   bdecode (map ch ''9999999999:a'') = None \<and>
   bdecode (map ch ''di1ei2ee'') = Some (Dictionary_t []) \<and>
   bdecode (bencode (Int_t (- (2 ^ 63)))) = Some Undefined_t"
  by code_simp

end
