(* ===== verification/Lazy_Bdecode.thy ===== *)
theory Lazy_Bdecode
  imports Bencode "HOL-Library.Monad_Syntax"
begin

text \<open>
  \<^verbatim>\<open>src/lazy_bdecode.cpp\<close> and \<^verbatim>\<open>include/libtorrent/lazy_entry.hpp\<close>: the decoder that all input from the
  network and from files goes through. It builds a tree of pointers into the buffer with one loop and
  a stack, instead of recursively. A pointer into the buffer is its position; the comparisons of
  pointers are those of the positions.

  The stack of pointers to entries is a list, the top first. Every entry on it but the first is the last
  child of the entry below; the model keeps what is built of it on the stack and leaves an
  empty entry in its place, and \<open>pop_back\<close> puts it there. Memory allocation does not fail.

  Integers: \<^verbatim>\<open>val\<close> of \<^verbatim>\<open>parse_int\<close> wraps around at 64 bits. The capacity of a container is a natural number:
  \<^verbatim>\<open>m_capacity * 150\<close> fits into an \<^verbatim>\<open>int\<close> up to 14 million elements.
\<close>

subsection \<open>Entries\<close>

text \<open>
  The fields are \<^verbatim>\<open>m_begin\<close> and \<^verbatim>\<open>m_len\<close>, then the capacity and the elements of a container, or the
  start and \<^verbatim>\<open>m_size\<close> of a string or an integer.
\<close>

datatype lazy_entry =
    Lazy_none
  | Lazy_dict int int nat "(int \<times> lazy_entry) list"
  | Lazy_list int int nat "lazy_entry list"
  | Lazy_string int int int int
  | Lazy_int int int int int

fun le_begin :: "lazy_entry \<Rightarrow> int" where
  "le_begin Lazy_none = 0"
| "le_begin (Lazy_dict b l c xs) = b"
| "le_begin (Lazy_list b l c es) = b"
| "le_begin (Lazy_string b l s z) = b"
| "le_begin (Lazy_int b l s z) = b"

fun le_len :: "lazy_entry \<Rightarrow> int" where
  "le_len Lazy_none = 0"
| "le_len (Lazy_dict b l c xs) = l"
| "le_len (Lazy_list b l c es) = l"
| "le_len (Lazy_string b l s z) = l"
| "le_len (Lazy_int b l s z) = l"

definition data_section :: "lazy_entry \<Rightarrow> int \<times> int" where
  "data_section e = (le_begin e, le_len e)"

text \<open>Unsigned fields of 32 bits.\<close>

abbreviation uint32 :: "int \<Rightarrow> int" where
  "uint32 \<equiv> take_bit 32"

abbreviation int32 :: "int \<Rightarrow> int" where
  "int32 \<equiv> signed_take_bit 31"

abbreviation int64 :: "int \<Rightarrow> int" where
  "int64 \<equiv> signed_take_bit 63"

definition construct_int :: "int \<Rightarrow> int \<Rightarrow> lazy_entry" where
  "construct_int start len = Lazy_int (start - 1) (uint32 (len + 2)) start (uint32 len)"

definition construct_dict :: "int \<Rightarrow> lazy_entry" where
  "construct_dict b = Lazy_dict b 0 0 []"

definition construct_list :: "int \<Rightarrow> lazy_entry" where
  "construct_list b = Lazy_list b 0 0 []"

function num_digits :: "int \<Rightarrow> int" where
  "num_digits val = (if val \<ge> 10 then 1 + num_digits (val div 10) else 1)"
  by pat_completeness auto
termination
  by (relation "measure nat") auto

declare num_digits.simps [simp del]

definition construct_string :: "int \<Rightarrow> int \<Rightarrow> lazy_entry" where
  "construct_string start len =
     (let b = start - 1 - num_digits len
      in Lazy_string b (uint32 (start - b + len)) start (uint32 len))"

fun set_end :: "int \<Rightarrow> lazy_entry \<Rightarrow> lazy_entry" where
  "set_end e (Lazy_dict b l c xs) = Lazy_dict b (uint32 (e - b)) c xs"
| "set_end e (Lazy_list b l c es) = Lazy_list b (uint32 (e - b)) c es"
| "set_end e x = x"

text \<open>The capacity that \<^verbatim>\<open>dict_append\<close> and \<^verbatim>\<open>list_append\<close> make sure of, for the current number of elements.\<close>

definition grow :: "nat \<Rightarrow> nat \<Rightarrow> nat" where
  "grow sz capacity =
     (if capacity = 0 then 5
      else if sz = capacity then capacity * 150 div 100
      else capacity)"

fun dict_append :: "int \<Rightarrow> lazy_entry \<Rightarrow> lazy_entry" where
  "dict_append name (Lazy_dict b l c xs) = Lazy_dict b l (grow (length xs) c) (xs @ [(name, Lazy_none)])"
| "dict_append name x = x"

fun list_append :: "lazy_entry \<Rightarrow> lazy_entry" where
  "list_append (Lazy_list b l c es) = Lazy_list b l (grow (length es) c) (es @ [Lazy_none])"
| "list_append x = x"

fun le_pop :: "lazy_entry \<Rightarrow> lazy_entry" where
  "le_pop (Lazy_dict b l c xs) = Lazy_dict b l c (butlast xs)"
| "le_pop (Lazy_list b l c es) = Lazy_list b l c (butlast es)"
| "le_pop x = x"

subsection \<open>The stack\<close>

fun set_last_child :: "lazy_entry \<Rightarrow> lazy_entry \<Rightarrow> lazy_entry" where
  "set_last_child e (Lazy_dict b l c xs) = Lazy_dict b l c (butlast xs @ [(fst (last xs), e)])"
| "set_last_child e (Lazy_list b l c es) = Lazy_list b l c (butlast es @ [e])"
| "set_last_child e x = x"

text \<open>The tree when the decoder returns with entries left on the stack.\<close>

fun collapse :: "lazy_entry list \<Rightarrow> lazy_entry" where
  "collapse [] = Lazy_none"
| "collapse [e] = e"
| "collapse (e # p # stack) = collapse (set_last_child e p # stack)"

datatype lazy_error =
  depth_exceeded | unexpected_eof | expected_string | expected_colon | expected_value | limit_exceeded

text \<open>
  A state of the loop: it goes on from a position with a stack and an item limit, or the decoder has
  returned 0 with a tree, or \<open>-1\<close> with an error, the error position (\<open>None\<close> when the position is
  computed from a null pointer) and a tree, or it has read outside the buffer.
\<close>

datatype lazy_state =
    Running int "lazy_entry list" int
  | Finished lazy_entry
  | Failed lazy_error "int option" lazy_entry
  | Out_of_Bounds

definition fail_bdecode :: "lazy_error \<Rightarrow> int option \<Rightarrow> lazy_entry list \<Rightarrow> lazy_state" where
  "fail_bdecode code start stack = Failed code start (le_pop (last stack))"

definition pop_back :: "int \<Rightarrow> lazy_entry list \<Rightarrow> int \<Rightarrow> lazy_state" where
  "pop_back start stack item_limit =
     (case stack of
        e # p # st \<Rightarrow> Running start (set_last_child e p # st) item_limit
      | [e] \<Rightarrow> Finished e
      | [] \<Rightarrow> Finished Lazy_none)"

subsection \<open>Scanning\<close>

function parse_int :: "bytes \<Rightarrow> nat \<Rightarrow> nat \<Rightarrow> byte \<Rightarrow> int \<Rightarrow> nat option \<times> int" where
  "parse_int buf start stop delimiter val =
     (if start < stop \<and> buf ! start \<noteq> delimiter then
        (if \<not> is_digit (buf ! start) then (None, val)
         else parse_int buf (start + 1) stop delimiter (int64 (int64 (val * 10) + (uint (buf ! start) - 48))))
      else (Some start, val))"
  by pat_completeness auto
termination
  by (relation "measure (\<lambda>(_, start, stop, _, _). stop - start)") auto

declare parse_int.simps [simp del]

function find_char :: "bytes \<Rightarrow> nat \<Rightarrow> byte \<Rightarrow> nat" where
  "find_char buf start delimiter =
     (if start < length buf \<and> buf ! start \<noteq> delimiter then find_char buf (start + 1) delimiter else start)"
  by pat_completeness auto
termination
  by (relation "measure (\<lambda>(buf, start, _). length buf - start)") auto

declare find_char.simps [simp del]

subsection \<open>The decoder\<close>

text \<open>
  The length in front of a string and the colon, from the position after the first digit \<open>t\<close>:
  \<open>extra\<close> is how many characters there must be besides the string.
\<close>

datatype len_result = Len int int | No_colon "int option" | Len_out

definition parse_len :: "bytes \<Rightarrow> byte \<Rightarrow> int \<Rightarrow> int \<Rightarrow> len_result" where
  "parse_len buf t start extra =
     (case parse_int buf (nat start) (length buf) (ch CHR '':'') (uint t - 48) of
        (None, _) \<Rightarrow> No_colon None
      | (Some start, len) \<Rightarrow>
          if int start + len + extra > int (length buf) then No_colon (Some (int start))
          else if start \<ge> length buf then Len_out
          else if buf ! start \<noteq> ch CHR '':'' then No_colon (Some (int start))
          else Len (int start + 1) len)"

text \<open>The second switch of the loop: the entry on top of the stack is made from the character \<open>t\<close> on.\<close>

definition construct :: "bytes \<Rightarrow> byte \<Rightarrow> int \<Rightarrow> lazy_entry list \<Rightarrow> int \<Rightarrow> lazy_state" where
  "construct buf t start stack item_limit =
     (let item_limit = item_limit - 1
      in if item_limit \<le> 0 then fail_bdecode limit_exceeded (Some start) stack
         else if t = ch CHR ''d'' then Running start (construct_dict (start - 1) # tl stack) item_limit
         else if t = ch CHR ''l'' then Running start (construct_list (start - 1) # tl stack) item_limit
         else if t = ch CHR ''i'' then
           let int_start = start;
               start = int (find_char buf (nat start) (ch CHR ''e''));
               stack = construct_int int_start (start - int_start) # tl stack
           in if start = int (length buf) then fail_bdecode unexpected_eof (Some start) stack
              else pop_back (start + 1) stack item_limit
         else if \<not> is_digit t then fail_bdecode expected_value (Some start) stack
         else
           case parse_len buf t start 1 of
             No_colon pos \<Rightarrow> fail_bdecode expected_colon pos stack
           | Len_out \<Rightarrow> Out_of_Bounds
           | Len start len \<Rightarrow> pop_back (start + len) (construct_string start (int32 len) # tl stack) item_limit)"

definition lazy_round :: "bytes \<Rightarrow> int \<Rightarrow> int \<Rightarrow> lazy_entry list \<Rightarrow> int \<Rightarrow> lazy_state" where
  "lazy_round buf depth_limit start stack item_limit =
     (if int (length stack) > depth_limit then fail_bdecode depth_exceeded (Some start) stack
      else if start < 0 then Out_of_Bounds
      else
        let t = buf ! nat start; start = start + 1; top = hd stack
        in if start \<ge> int (length buf) \<and> t \<noteq> ch CHR ''e'' then fail_bdecode unexpected_eof (Some start) stack
           else
             case top of
               Lazy_dict _ _ _ _ \<Rightarrow>
                 if t = ch CHR ''e'' then pop_back start (set_end start top # tl stack) item_limit
                 else if \<not> is_digit t then fail_bdecode expected_string (Some start) stack
                 else
                   (case parse_len buf t start 3 of
                      No_colon pos \<Rightarrow> fail_bdecode expected_colon pos stack
                    | Len_out \<Rightarrow> Out_of_Bounds
                    | Len start len \<Rightarrow>
                        if start = int (length buf) then fail_bdecode unexpected_eof (Some start) stack
                        else
                          let stack = dict_append start top # tl stack;
                              start = start + len
                          in if start \<ge> int (length buf) then fail_bdecode unexpected_eof (Some start) stack
                             else if start < 0 then Out_of_Bounds
                             else construct buf (buf ! nat start) (start + 1) (Lazy_none # stack) item_limit)
             | Lazy_list _ _ _ _ \<Rightarrow>
                 if t = ch CHR ''e'' then pop_back start (set_end start top # tl stack) item_limit
                 else construct buf t start (Lazy_none # list_append top # tl stack) item_limit
             | _ \<Rightarrow> construct buf t start stack item_limit)"

lemma pop_back_Running:
  "pop_back start stack il = Running s' st' il' \<Longrightarrow> il' = il \<and> s' = start \<and> Suc (length st') = length stack"
  by (auto simp: pop_back_def split: list.splits)

lemma construct_progress:
  "construct buf t start stack il = Running s' st' il' \<Longrightarrow> nat il' < nat il"
  by (auto simp: construct_def Let_def fail_bdecode_def split: if_splits len_result.splits dest!: pop_back_Running)

lemma lazy_round_progress:
  assumes "lazy_round buf dl start stack il = Running s' st' il'"
  shows "nat il' < nat il \<or> il' = il \<and> length st' < length stack"
proof -
  have pop: "il' = il \<and> length st' < length stack" if "pop_back s (e # tl stack) il = Running s' st' il'" for s e
    using that by (cases stack) (auto simp: pop_back_def split: list.splits)
  show ?thesis
    using assms
    by (auto simp: lazy_round_def Let_def fail_bdecode_def
        split: if_splits lazy_entry.splits len_result.splits dest: construct_progress pop)
qed

function lazy_loop :: "bytes \<Rightarrow> int \<Rightarrow> int \<Rightarrow> lazy_entry list \<Rightarrow> int \<Rightarrow> lazy_state" where
  "lazy_loop buf depth_limit start stack item_limit =
     (if start \<ge> int (length buf) then Finished (collapse stack)
      else
        case lazy_round buf depth_limit start stack item_limit of
          Running start stack item_limit \<Rightarrow> lazy_loop buf depth_limit start stack item_limit
        | r \<Rightarrow> r)"
  by pat_completeness auto
termination
  by (relation "measures [\<lambda>(_, _, _, _, il). nat il, \<lambda>(_, _, _, stack, _). length stack]")
    (auto dest: lazy_round_progress)

declare lazy_loop.simps [simp del]

definition lazy_bdecode :: "bytes \<Rightarrow> int \<Rightarrow> int \<Rightarrow> lazy_state" where
  "lazy_bdecode buf depth_limit item_limit =
     (if buf = [] then Finished Lazy_none else lazy_loop buf depth_limit 0 [Lazy_none] item_limit)"

subsection \<open>Reading entries\<close>

definition int_value :: "bytes \<Rightarrow> int \<Rightarrow> int \<Rightarrow> int" where
  "int_value buf start sz =
     (let negative = (buf ! nat start = ch CHR ''-'');
          val = snd (parse_int buf (if negative then nat start + 1 else nat start) (nat (start + sz)) (ch CHR ''e'') 0)
      in if negative then int64 (- val) else val)"

definition string_value :: "bytes \<Rightarrow> int \<Rightarrow> int \<Rightarrow> bytes" where
  "string_value buf start sz = take (nat sz) (drop (nat start) buf)"

definition dict_name :: "bytes \<Rightarrow> int \<times> lazy_entry \<Rightarrow> bytes" where
  "dict_name buf = (\<lambda>(name, val). string_value buf name (le_begin val - name))"

text \<open>\<^verbatim>\<open>string_equal\<close>: the first string is a C string, given without its terminating null character.\<close>

fun string_equal :: "bytes \<Rightarrow> bytes \<Rightarrow> bool" where
  "string_equal [] [] \<longleftrightarrow> True"
| "string_equal (d # s1) [] \<longleftrightarrow> d = 0"
| "string_equal [] (c # s2) \<longleftrightarrow> False"
| "string_equal (d # s1) (c # s2) \<longleftrightarrow> d = c \<and> d \<noteq> 0 \<and> string_equal s1 s2"

definition dict_find :: "bytes \<Rightarrow> bytes \<Rightarrow> (int \<times> lazy_entry) list \<Rightarrow> lazy_entry option" where
  "dict_find buf name xs = map_option snd (find (\<lambda>x. string_equal name (dict_name buf x)) xs)"

text \<open>The accessors that look up a name and check the type of what they find.\<close>

definition dict_find_string :: "bytes \<Rightarrow> bytes \<Rightarrow> (int \<times> lazy_entry) list \<Rightarrow> lazy_entry option" where
  "dict_find_string buf name xs =
     (case dict_find buf name xs of Some (Lazy_string b l s z) \<Rightarrow> Some (Lazy_string b l s z) | _ \<Rightarrow> None)"

definition dict_find_int :: "bytes \<Rightarrow> bytes \<Rightarrow> (int \<times> lazy_entry) list \<Rightarrow> lazy_entry option" where
  "dict_find_int buf name xs =
     (case dict_find buf name xs of Some (Lazy_int b l s z) \<Rightarrow> Some (Lazy_int b l s z) | _ \<Rightarrow> None)"

definition dict_find_dict :: "bytes \<Rightarrow> bytes \<Rightarrow> (int \<times> lazy_entry) list \<Rightarrow> lazy_entry option" where
  "dict_find_dict buf name xs =
     (case dict_find buf name xs of Some (Lazy_dict b l c ys) \<Rightarrow> Some (Lazy_dict b l c ys) | _ \<Rightarrow> None)"

definition dict_find_list :: "bytes \<Rightarrow> bytes \<Rightarrow> (int \<times> lazy_entry) list \<Rightarrow> lazy_entry option" where
  "dict_find_list buf name xs =
     (case dict_find buf name xs of Some (Lazy_list b l c es) \<Rightarrow> Some (Lazy_list b l c es) | _ \<Rightarrow> None)"

definition dict_find_string_value :: "bytes \<Rightarrow> bytes \<Rightarrow> (int \<times> lazy_entry) list \<Rightarrow> bytes" where
  "dict_find_string_value buf name xs =
     (case dict_find buf name xs of Some (Lazy_string b l s z) \<Rightarrow> string_value buf s z | _ \<Rightarrow> [])"

definition dict_find_int_value :: "bytes \<Rightarrow> bytes \<Rightarrow> int \<Rightarrow> (int \<times> lazy_entry) list \<Rightarrow> int" where
  "dict_find_int_value buf name default_val xs =
     (case dict_find buf name xs of Some (Lazy_int b l s z) \<Rightarrow> int_value buf s z | _ \<Rightarrow> default_val)"

text \<open>\<^verbatim>\<open>list_at\<close> asserts that the index is in range; outside of it the model has no value.\<close>

definition list_string_value_at :: "bytes \<Rightarrow> nat \<Rightarrow> lazy_entry list \<Rightarrow> bytes option" where
  "list_string_value_at buf i es =
     (if i < length es then Some (case es ! i of Lazy_string b l s z \<Rightarrow> string_value buf s z | _ \<Rightarrow> []) else None)"

definition list_int_value_at :: "bytes \<Rightarrow> nat \<Rightarrow> int \<Rightarrow> lazy_entry list \<Rightarrow> int option" where
  "list_int_value_at buf i default_val es =
     (if i < length es then Some (case es ! i of Lazy_int b l s z \<Rightarrow> int_value buf s z | _ \<Rightarrow> default_val) else None)"

text \<open>
  \<^verbatim>\<open>entry::operator=(lazy_entry const&)\<close> of \<^verbatim>\<open>src/entry.cpp\<close>, on the entry that is assigned to; \<open>None\<close> is a
  \<^verbatim>\<open>type_error\<close>. The value under a key that was not in the dictionary is undefined.
\<close>

definition map_get :: "(bytes \<times> entry) list \<Rightarrow> bytes \<Rightarrow> entry" where
  "map_get m k = (case map_of m k of None \<Rightarrow> Undefined_t | Some e \<Rightarrow> e)"

fun assign_lazy :: "bytes \<Rightarrow> entry \<Rightarrow> lazy_entry \<Rightarrow> entry option"
  and assign_list :: "bytes \<Rightarrow> entry list \<Rightarrow> lazy_entry list \<Rightarrow> entry list option"
  and assign_dict :: "bytes \<Rightarrow> (bytes \<times> entry) list \<Rightarrow> (int \<times> lazy_entry) list \<Rightarrow> (bytes \<times> entry) list option" where
  "assign_lazy buf cur (Lazy_string b l s z) =
     (case cur of
        Undefined_t \<Rightarrow> Some (String_t (string_value buf s z))
      | String_t _ \<Rightarrow> Some (String_t (string_value buf s z))
      | _ \<Rightarrow> None)"
| "assign_lazy buf cur (Lazy_int b l s z) =
     (case cur of
        Undefined_t \<Rightarrow> Some (Int_t (int_value buf s z))
      | Int_t _ \<Rightarrow> Some (Int_t (int_value buf s z))
      | _ \<Rightarrow> None)"
| "assign_lazy buf cur (Lazy_dict b l c xs) =
     (case cur of
        Undefined_t \<Rightarrow> map_option Dictionary_t (assign_dict buf [] xs)
      | Dictionary_t m \<Rightarrow> map_option Dictionary_t (assign_dict buf m xs)
      | _ \<Rightarrow> None)"
| "assign_lazy buf cur (Lazy_list b l c es) =
     (case cur of
        Undefined_t \<Rightarrow> map_option List_t (assign_list buf [] es)
      | List_t l \<Rightarrow> map_option List_t (assign_list buf l es)
      | _ \<Rightarrow> None)"
| "assign_lazy buf cur Lazy_none = Some Undefined_t"
| "assign_list buf l [] = Some l"
| "assign_list buf l (e # es) = do { x \<leftarrow> assign_lazy buf Undefined_t e; assign_list buf (l @ [x]) es }"
| "assign_dict buf d [] = Some d"
| "assign_dict buf d ((name, e) # xs) =
     do {
       let key = dict_name buf (name, e);
       x \<leftarrow> assign_lazy buf (map_get d key) e;
       assign_dict buf (map_put d key x) xs
     }"

end
