(* ===== verification/Lazy_Safe.thy ===== *)
theory Lazy_Safe
  imports Lazy_Bdecode "HOL-Library.Code_Target_Numeral"
begin

text \<open>
  Memory safety of \<^verbatim>\<open>lazy_bdecode\<close>: on a buffer that has no number of more than 18 digits nothing outside
  the buffer is read, and every pointer in the tree stays inside the buffer.
\<close>

definition short_numbers :: "bytes \<Rightarrow> bool" where
  "short_numbers buf \<longleftrightarrow> list_all (\<lambda>i. length (takeWhile is_digit (drop i buf)) \<le> 18) [0..<length buf]"

lemma short_numbersD: "short_numbers buf \<Longrightarrow> length (takeWhile is_digit (drop i buf)) \<le> 18"
  by (cases "i < length buf") (auto simp: short_numbers_def list_all_iff)

subsection \<open>Scanning\<close>

lemma digit_range: "is_digit c \<Longrightarrow> 0 \<le> uint c - 48 \<and> uint c - 48 \<le> 9"
proof -
  assume "is_digit c"
  moreover have "uint c = int (unat c)" by simp
  ultimately show ?thesis unfolding is_digit_def by linarith
qed

lemma int64_id: "0 \<le> v \<Longrightarrow> v < 10 ^ 18 \<Longrightarrow> int64 v = v"
proof -
  assume "0 \<le> v" "v < 10 ^ 18"
  moreover have "(10::int) ^ 18 < 2 ^ 63" by simp
  ultimately show ?thesis by (intro signed_take_bit_int_eq_self) auto
qed

lemma parse_int_range:
  assumes "parse_int buf start stop d val = (Some p, v)" "0 \<le> val" "val < 10 ^ k"
    "k + length (takeWhile is_digit (drop start buf)) \<le> 18" "stop \<le> length buf" "start \<le> stop"
  shows "start \<le> p \<and> p \<le> stop \<and> 0 \<le> v \<and> v < 10 ^ (k + (p - start)) \<and> k + (p - start) \<le> 18"
  using assms
proof (induction buf start stop d val arbitrary: k rule: parse_int.induct)
  case (1 buf start stop d val)
  show ?case
  proof (cases "start < stop \<and> buf ! start \<noteq> d")
    case False
    then have "p = start" "v = val"
      using "1.prems"(1) by (auto simp: parse_int.simps [of buf start])
    then show ?thesis using "1.prems" by simp
  next
    case True
    then have dig: "is_digit (buf ! start)"
      using "1.prems"(1) by (auto simp: parse_int.simps [of buf start] split: if_splits)
    let ?v = "val * 10 + (uint (buf ! start) - 48)"
    have run: "takeWhile is_digit (drop start buf) = buf ! start # takeWhile is_digit (drop (start + 1) buf)"
      using True "1.prems"(5) dig by (simp add: Cons_nth_drop_Suc [symmetric])
    then have k: "Suc k + length (takeWhile is_digit (drop (start + 1) buf)) \<le> 18"
      using "1.prems"(4) by simp
    have v: "0 \<le> ?v" "?v < 10 ^ Suc k" "0 \<le> val * 10" "val * 10 < 10 ^ Suc k"
      using "1.prems"(2,3) digit_range [OF dig] by auto
    have "(10::int) ^ Suc k \<le> 10 ^ 18"
      using k by (intro power_increasing) auto
    then have "int64 (int64 (val * 10) + (uint (buf ! start) - 48)) = ?v"
      using v int64_id by simp
    then have "parse_int buf (start + 1) stop d ?v = (Some p, v)"
      using "1.prems"(1) True dig by (simp add: parse_int.simps [of buf start])
    have "start + 1 \<le> p \<and> p \<le> stop \<and> 0 \<le> v \<and> v < 10 ^ (Suc k + (p - (start + 1))) \<and> Suc k + (p - (start + 1)) \<le> 18"
      by (rule "1.IH" [OF True, of "Suc k"])
        (use dig \<open>parse_int buf (start + 1) stop d ?v = (Some p, v)\<close> \<open>int64 _ = ?v\<close> v k "1.prems"(5) True in simp_all)
    moreover from this have "Suc k + (p - (start + 1)) = k + (p - start)" by linarith
    ultimately show ?thesis by (simp only:) simp
  qed
qed

lemma num_digits_pos: "1 \<le> num_digits v"
proof (induction v rule: num_digits.induct)
  case (1 v)
  then show ?case by (cases "v \<ge> 10") (simp_all add: num_digits.simps [of v])
qed

lemma num_digits_bound: "v < 10 ^ k \<Longrightarrow> 0 < k \<Longrightarrow> num_digits v \<le> int k"
proof (induction v arbitrary: k rule: num_digits.induct)
  case (1 v)
  show ?case
  proof (cases "v \<ge> 10")
    case True
    then obtain j where j: "k = Suc j" "0 < j"
      using "1.prems" by (cases k; cases "k - 1") auto
    have "v div 10 < 10 ^ j"
      using "1.prems"(1) j by (simp add: div_less_iff_less_mult mult.commute)
    then show ?thesis
      using "1.IH" [OF True _ j(2)] True j by (simp add: num_digits.simps [of v])
  next
    case False
    then show ?thesis using "1.prems"(2) by (simp add: num_digits.simps [of v])
  qed
qed

lemma parse_len_safe:
  assumes "short_numbers buf" "1 \<le> start" "start \<le> int (length buf)" "t = buf ! nat (start - 1)" "is_digit t" "1 \<le> extra"
  shows "case parse_len buf t start extra of
      Len s len \<Rightarrow> start < s \<and> 0 \<le> len \<and> s + len + extra - 1 \<le> int (length buf) \<and> num_digits len \<le> s - start \<and> len < 10 ^ 18
    | No_colon _ \<Rightarrow> True
    | Len_out \<Rightarrow> False"
proof (cases "parse_int buf (nat start) (length buf) (ch CHR '':'') (uint t - 48)")
  case (Pair r v)
  show ?thesis
  proof (cases r)
    case None
    then show ?thesis using Pair by (simp add: parse_len_def)
  next
    case (Some p)
    have "takeWhile is_digit (drop (nat (start - 1)) buf) = t # takeWhile is_digit (drop (nat start) buf)"
      using assms(2-5) by (subst Cons_nth_drop_Suc [symmetric]) (auto simp: nat_diff_distrib Suc_nat_eq_nat_zadd1)
    then have k: "1 + length (takeWhile is_digit (drop (nat start) buf)) \<le> 18"
      using short_numbersD [OF assms(1), of "nat (start - 1)"] by simp
    have v: "nat start \<le> p" "p \<le> length buf" "0 \<le> v" "v < 10 ^ (1 + (p - nat start))" "1 + (p - nat start) \<le> 18"
      using parse_int_range [of buf "nat start" "length buf" "ch CHR '':''" "uint t - 48" p v 1]
        Pair Some k digit_range [OF assms(5)] assms(3) by auto
    have "num_digits v \<le> int (1 + (p - nat start))"
      by (rule num_digits_bound [OF v(4)]) simp
    moreover have "v < 10 ^ 18"
      using v(4,5) power_increasing [of "1 + (p - nat start)" 18 "10::int"] by linarith
    ultimately show ?thesis
      using Pair Some v assms(2,3,6) by (auto simp: parse_len_def split: if_splits)
  qed
qed

lemma find_char_range: "start \<le> length buf \<Longrightarrow> start \<le> find_char buf start c \<and> find_char buf start c \<le> length buf"
proof (induction buf start c rule: find_char.induct)
  case (1 buf start c)
  then show ?case by (cases "start < length buf \<and> buf ! start \<noteq> c") (auto simp: find_char.simps [of buf start])
qed

subsection \<open>Entries inside the buffer\<close>

definition room :: "nat \<Rightarrow> nat \<Rightarrow> bool" where
  "room sz c \<longleftrightarrow> sz \<le> c \<and> (c = 0 \<or> 5 \<le> c)"

lemma room_grow: "room sz c \<Longrightarrow> room (Suc sz) (grow sz c) \<and> room sz (grow sz c)"
  by (auto simp: room_def grow_def)

text \<open>
  Every string and integer of a complete entry lies inside a buffer of the given length, every name of
  a dictionary ends where its value begins, and no container holds more elements than there is memory for.
\<close>

fun in_buf :: "int \<Rightarrow> lazy_entry \<Rightarrow> bool" where
  "in_buf n Lazy_none \<longleftrightarrow> False"
| "in_buf n (Lazy_string b l s z) \<longleftrightarrow> 0 \<le> b \<and> b \<le> n \<and> 0 \<le> s \<and> 0 \<le> z \<and> s + z \<le> n"
| "in_buf n (Lazy_int b l s z) \<longleftrightarrow> 0 \<le> b \<and> b \<le> n \<and> 0 \<le> s \<and> 0 \<le> z \<and> s + z < n"
| "in_buf n (Lazy_list b l c es) \<longleftrightarrow> 0 \<le> b \<and> b \<le> n \<and> (\<forall>e \<in> set es. in_buf n e) \<and> room (length es) c"
| "in_buf n (Lazy_dict b l c xs) \<longleftrightarrow> 0 \<le> b \<and> b \<le> n
     \<and> (\<forall>x \<in> set xs. 0 \<le> fst x \<and> fst x \<le> le_begin (snd x) \<and> in_buf n (snd x)) \<and> room (length xs) c"

fun container :: "lazy_entry \<Rightarrow> bool" where
  "container (Lazy_dict b l c xs) \<longleftrightarrow> True"
| "container (Lazy_list b l c es) \<longleftrightarrow> True"
| "container e \<longleftrightarrow> False"

text \<open>The containers below the top of the stack, whose last child begins at \<open>b\<close> or later and is not there yet.\<close>

fun pending :: "int \<Rightarrow> int \<Rightarrow> lazy_entry list \<Rightarrow> bool" where
  "pending n b [] \<longleftrightarrow> True"
| "pending n b (Lazy_dict b' l c xs # st) \<longleftrightarrow> xs \<noteq> [] \<and> in_buf n (Lazy_dict b' l c (butlast xs)) \<and> room (length xs) c
     \<and> 0 \<le> fst (last xs) \<and> fst (last xs) \<le> b \<and> pending n b' st"
| "pending n b (Lazy_list b' l c es # st) \<longleftrightarrow> es \<noteq> [] \<and> in_buf n (Lazy_list b' l c (butlast es)) \<and> room (length es) c
     \<and> pending n b' st"
| "pending n b (e # st) \<longleftrightarrow> False"

definition lazy_inv :: "int \<Rightarrow> int \<Rightarrow> lazy_entry list \<Rightarrow> bool" where
  "lazy_inv n start stack \<longleftrightarrow>
     stack = [Lazy_none] \<and> start = 0
     \<or> 0 \<le> start \<and> start \<le> n \<and> stack \<noteq> [] \<and> container (hd stack) \<and> in_buf n (hd stack)
       \<and> pending n (le_begin (hd stack)) (tl stack)"

definition good_state :: "int \<Rightarrow> lazy_state \<Rightarrow> bool" where
  "good_state n r \<longleftrightarrow>
     (case r of
        Running s st il \<Rightarrow> lazy_inv n s st
      | Finished e \<Rightarrow> in_buf n e
      | Failed _ _ _ \<Rightarrow> True
      | Out_of_Bounds \<Rightarrow> False)"

lemma good_fail [simp]: "good_state n (fail_bdecode code pos st)"
  by (simp add: good_state_def fail_bdecode_def)

lemma pending_mono: "pending n b st \<Longrightarrow> b \<le> b' \<Longrightarrow> pending n b' st"
  by (cases "(n, b, st)" rule: pending.cases) auto

lemma good_pop_back:
  assumes "in_buf n e" "pending n (le_begin e) st" "0 \<le> start" "start \<le> n"
  shows "good_state n (pop_back start (e # st) il)"
  using assms
  by (cases "(n, le_begin e, st)" rule: pending.cases)
    (auto simp: pop_back_def good_state_def lazy_inv_def in_set_butlastD dest: in_set_butlastD)

lemma pending_dict_append:
  assumes "in_buf n (Lazy_dict b' l c xs)" "pending n b' st" "0 \<le> name" "name \<le> b"
  shows "pending n b (dict_append name (Lazy_dict b' l c xs) # st)"
  using assms room_grow [of "length xs" c] by simp

lemma pending_list_append:
  assumes "in_buf n (Lazy_list b' l c es)" "pending n b' st"
  shows "pending n b (list_append (Lazy_list b' l c es) # st)"
  using assms room_grow [of "length es" c] by simp

lemma uint32_id: "0 \<le> v \<Longrightarrow> v < 2 ^ 32 \<Longrightarrow> uint32 v = v"
  by (simp add: take_bit_int_eq_self)

lemma int32_id: "0 \<le> v \<Longrightarrow> v < 2 ^ 31 \<Longrightarrow> int32 v = v"
  by (rule signed_take_bit_int_eq_self) auto

lemma good_construct:
  assumes "short_numbers buf" "int (length buf) < 2 ^ 31" "1 \<le> start" "start \<le> int (length buf)"
    "t = buf ! nat (start - 1)" "pending (int (length buf)) (start - 1) st"
  shows "good_state (int (length buf)) (construct buf t start (Lazy_none # st) il)"
proof -
  let ?n = "int (length buf)"
  have int_case: "good_state ?n (pop_back (int p + 1) (construct_int start (int p - start) # st) il')"
    if p: "p = find_char buf (nat start) (ch CHR ''e'')" "int p \<noteq> ?n" for p il'
  proof -
    have "nat start \<le> p" "p \<le> length buf"
      using find_char_range [of "nat start" buf "ch CHR ''e''"] assms(3,4) p(1) by auto
    moreover from this have "uint32 (int p - start) = int p - start"
      using assms(2,3) by (intro uint32_id) auto
    ultimately show ?thesis
      using assms(3,4,6) p(2) by (intro good_pop_back) (auto simp: construct_int_def)
  qed
  have str_case: "good_state ?n (pop_back (s + len) (construct_string s (int32 len) # st) il')"
    if "start < s" "0 \<le> len" "s + len \<le> ?n" "num_digits len \<le> s - start" for s len il'
  proof -
    have "int32 len = len" "uint32 len = len"
      using that assms(2,3) by (auto intro!: int32_id uint32_id)
    moreover have "pending ?n (s - 1 - num_digits len) st"
      using pending_mono [OF assms(6)] that(4) by simp
    ultimately show ?thesis
      using that assms(3) num_digits_pos [of len] by (intro good_pop_back) (auto simp: construct_string_def Let_def)
  qed
  show ?thesis
  proof (cases "il - 1 \<le> 0 \<or> t = ch CHR ''d'' \<or> t = ch CHR ''l''")
    case True
    then show ?thesis
      using assms(3,4,6)
      by (auto simp: construct_def Let_def good_state_def lazy_inv_def construct_dict_def construct_list_def room_def fail_bdecode_def)
  next
    case simple: False
    show ?thesis
    proof (cases "t = ch CHR ''i''")
      case True
      then show ?thesis
        using int_case [OF refl] simple by (simp add: construct_def Let_def)
    next
      case False
      show ?thesis
      proof (cases "is_digit t")
        case True
        then show ?thesis
          using parse_len_safe [OF assms(1,3,4,5) True, of 1] str_case simple False
          by (simp add: construct_def Let_def split: len_result.splits)
      qed (use simple False in \<open>simp add: construct_def Let_def\<close>)
    qed
  qed
qed

lemma good_round:
  assumes "short_numbers buf" "int (length buf) < 2 ^ 31" "lazy_inv (int (length buf)) start stack" "start < int (length buf)"
  shows "good_state (int (length buf)) (lazy_round buf dl start stack il)"
proof -
  let ?n = "int (length buf)" and ?t = "buf ! nat start"
  have start: "0 \<le> start" using assms(3) by (auto simp: lazy_inv_def)
  have con: "good_state ?n (construct buf (buf ! nat s) (s + 1) (Lazy_none # st) il)"
    if "pending ?n s st" "0 \<le> s" "s < ?n" for s st
    using good_construct [OF assms(1,2), of "s + 1" _ st] that by simp
  show ?thesis
  proof (cases "int (length stack) > dl \<or> start + 1 \<ge> ?n \<and> ?t \<noteq> ch CHR ''e''")
    case True
    then show ?thesis using start by (auto simp: lazy_round_def Let_def)
  next
    case go: False
    consider (none) "stack = [Lazy_none]"
      | (dict) b l c xs st where "stack = Lazy_dict b l c xs # st" "in_buf ?n (Lazy_dict b l c xs)" "pending ?n b st"
      | (list) b l c es st where "stack = Lazy_list b l c es # st" "in_buf ?n (Lazy_list b l c es)" "pending ?n b st"
      using assms(3) by (cases stack; cases "hd stack") (auto simp: lazy_inv_def)
    then show ?thesis
    proof cases
      case none
      then show ?thesis
        using con [of start "[]"] start assms(4) go by (simp add: lazy_round_def Let_def)
    next
      case (list b l c es st)
      show ?thesis
      proof (cases "?t = ch CHR ''e''")
        case True
        then show ?thesis
          using good_pop_back [of ?n "set_end (start + 1) (Lazy_list b l c es)" st "start + 1" il] list start assms(4) go
          by (simp add: lazy_round_def Let_def)
      next
        case False
        then show ?thesis
          using con [OF pending_list_append [OF list(2,3)], of start] list(1) start assms(4) go
          by (simp add: lazy_round_def Let_def)
      qed
    next
      case (dict b l c xs st)
      show ?thesis
      proof (cases "?t = ch CHR ''e'' \<or> \<not> is_digit ?t")
        case True
        then show ?thesis
          using good_pop_back [of ?n "set_end (start + 1) (Lazy_dict b l c xs)" st "start + 1" il] dict start assms(4) go
          by (auto simp: lazy_round_def Let_def)
      next
        case False
        have len: "case parse_len buf ?t (start + 1) 3 of
            Len s len \<Rightarrow> start + 1 < s \<and> 0 \<le> len \<and> s + len + 2 \<le> ?n
          | No_colon _ \<Rightarrow> True | Len_out \<Rightarrow> False"
          using parse_len_safe [OF assms(1), of "start + 1" ?t 3] False start assms(4) by (auto split: len_result.splits)
        have "good_state ?n (construct buf (buf ! nat (s + len)) (s + len + 1)
            (Lazy_none # dict_append s (Lazy_dict b l c xs) # st) il)"
          if "start + 1 < s" "0 \<le> len" "s + len + 2 \<le> ?n" for s len
          using con [OF pending_dict_append [OF dict(2,3), of s "s + len"]] that start by simp
        then show ?thesis
          using len dict(1) start go False by (auto simp: lazy_round_def Let_def split: len_result.splits)
      qed
    qed
  qed
qed

lemma collapse_in_buf: "in_buf n e \<Longrightarrow> pending n (le_begin e) st \<Longrightarrow> in_buf n (collapse (e # st))"
proof (induction st arbitrary: e)
  case (Cons p st)
  then show ?case
    using Cons.IH [of "set_last_child e p"] by (cases p) (auto dest: in_set_butlastD)
qed simp

lemma good_loop:
  assumes "short_numbers buf" "int (length buf) < 2 ^ 31" "buf \<noteq> []" "lazy_inv (int (length buf)) start stack"
  shows "(\<exists>e. lazy_loop buf dl start stack il = Finished e \<and> in_buf (int (length buf)) e)
    \<or> (\<exists>code pos e. lazy_loop buf dl start stack il = Failed code pos e)"
  using assms
proof (induction buf dl start stack il rule: lazy_loop.induct)
  case (1 buf dl start stack il)
  show ?case
  proof (cases "start \<ge> int (length buf)")
    case True
    then have "in_buf (int (length buf)) (collapse stack)"
      using "1.prems"(3,4) collapse_in_buf by (cases stack) (auto simp: lazy_inv_def)
    then show ?thesis using True by (simp add: lazy_loop.simps [of buf dl start])
  next
    case False
    then have good: "good_state (int (length buf)) (lazy_round buf dl start stack il)"
      using good_round "1.prems" by simp
    then show ?thesis
    proof (cases "lazy_round buf dl start stack il")
      case (Running s st il')
      then show ?thesis
        using "1.IH" [OF False Running] "1.prems" good False
        by (simp add: lazy_loop.simps [of buf dl start] good_state_def)
    qed (use False in \<open>simp_all add: lazy_loop.simps [of buf dl start] good_state_def\<close>)
  qed
qed

text \<open>C34: on any buffer without a number of more than 18 digits \<^verbatim>\<open>lazy_bdecode\<close> returns without reading outside the
  buffer, for any limits; when it returns 0, every string, integer and dictionary name of the tree lies
  inside the buffer and no container is fuller than the memory allocated for it.\<close>
theorem lazy_bdecode_safe:
  assumes "short_numbers buf" "length buf < 2 ^ 31" "buf \<noteq> []"
  shows "(\<exists>e. lazy_bdecode buf depth_limit item_limit = Finished e \<and> in_buf (int (length buf)) e)
    \<or> (\<exists>code pos e. lazy_bdecode buf depth_limit item_limit = Failed code pos e)"
proof -
  have "int (length buf) < 2 ^ 31" using assms(2) by (simp flip: of_nat_less_iff)
  moreover have "lazy_inv (int (length buf)) 0 [Lazy_none]" by (simp add: lazy_inv_def)
  ultimately show ?thesis
    using good_loop [OF assms(1) _ assms(3)] assms(3) by (simp add: lazy_bdecode_def)
qed

theorem lazy_bdecode_safe_witness:
  "short_numbers (str ''d3:key4:xxe'')
    \<and> (\<exists>code pos e. lazy_bdecode (str ''d3:key4:xxe'') 1000 1000000 = Failed code pos e)"
proof -
  have "short_numbers (str ''d3:key4:xxe'')" by code_simp
  moreover have "lazy_bdecode (str ''d3:key4:xxe'') 1000 1000000 \<noteq> Finished e" for e
  proof -
    have "lazy_bdecode (str ''d3:key4:xxe'') 1000 1000000 = Failed expected_colon (Some 7) (Lazy_dict 0 0 5 [])"
      by code_simp
    then show ?thesis by simp
  qed
  ultimately show ?thesis
    using lazy_bdecode_safe [of "str ''d3:key4:xxe''" 1000 1000000] by auto
qed

lemma wrapped_length:
  "lazy_bdecode (str ''18446744073709551595:x'') 1000 1000000 = Finished (Lazy_string 19 4294967277 21 4294967275)"
  by code_simp

lemma wrapped_length_overread: "lazy_bdecode (str ''18446744073709551595'') 1000 1000000 = Out_of_Bounds"
  by code_simp

lemma leading_zero_value:
  "lazy_bdecode (str ''d1:a01:be'') 1000 1000000 = Finished (Lazy_dict 0 9 5 [(3, Lazy_string 5 3 7 1)])"
  by code_simp


end
