(* ===== verification/Lazy_Agree.thy ===== *)
theory Lazy_Agree
  imports Lazy_Safe
begin

text \<open>
  The two decoders agree on encoded entries: \<^verbatim>\<open>lazy_bdecode\<close> on what \<^verbatim>\<open>bencode\<close> has written builds
  a tree that \<^verbatim>\<open>entry::operator=\<close> turns into the entry that was encoded.
\<close>

subsection \<open>Numbers\<close>

abbreviation digits_from :: "int \<Rightarrow> bytes \<Rightarrow> int" where
  "digits_from v ds \<equiv> foldl (\<lambda>v c. v * 10 + (uint c - 48)) v ds"

lemma digits_from_mono: "list_all is_digit ds \<Longrightarrow> 0 \<le> v \<Longrightarrow> v \<le> digits_from v ds"
proof (induction ds arbitrary: v)
  case (Cons c ds)
  then have "v \<le> v * 10 + (uint c - 48)" using digit_range [of c] by auto
  then show ?case using Cons.IH [of "v * 10 + (uint c - 48)"] Cons.prems by simp
qed simp

lemma digits_from_decimal:
  "list_all is_digit ds \<Longrightarrow>
   digits_from (int v) ds = int (foldl (\<lambda>v c. v * 10 + (unat c - 48)) v ds)"
proof (induction ds arbitrary: v)
  case (Cons c ds)
  have "int v * 10 + (uint c - 48) = int (v * 10 + (unat c - 48))"
  proof -
    have "48 \<le> unat c" using Cons.prems by (simp add: is_digit_def)
    moreover have "uint c = int (unat c)" by simp
    ultimately show ?thesis by (simp add: of_nat_diff)
  qed
  then show ?case using Cons.IH [of "v * 10 + (unat c - 48)"] Cons.prems by simp
qed simp

lemma int64_small: "0 \<le> v \<Longrightarrow> v < 2 ^ 63 \<Longrightarrow> int64 v = v"
  by (rule signed_take_bit_int_eq_self) auto

lemma parse_int_digits:
  assumes "list_all is_digit ds" "0 \<le> v" "digits_from v ds < 2 ^ 63" "length pre + length ds \<le> stop"
    "\<not> is_digit d"
  shows "parse_int (pre @ ds @ d # post) (length pre) stop d v = (Some (length pre + length ds), digits_from v ds)"
  using assms
proof (induction ds arbitrary: pre v)
  case Nil
  then show ?case by (simp add: parse_int.simps nth_append)
next
  case (Cons c ds)
  let ?v = "v * 10 + (uint c - 48)"
  have "0 \<le> ?v" "v * 10 \<le> ?v" using digit_range [of c] Cons.prems by auto
  moreover have "?v < 2 ^ 63" using digits_from_mono [of ds ?v] Cons.prems(1,3) \<open>0 \<le> ?v\<close> by simp
  ultimately have "int64 (int64 (v * 10) + (uint c - 48)) = ?v"
    using Cons.prems(2) by (simp add: int64_small)
  moreover have "c \<noteq> d" using Cons.prems by auto
  moreover have "parse_int ((pre @ [c]) @ ds @ d # post) (length (pre @ [c])) stop d ?v =
      (Some (length (pre @ [c]) + length ds), digits_from ?v ds)"
    using Cons.prems \<open>0 \<le> ?v\<close> by (intro Cons.IH) auto
  ultimately show ?case
    using Cons.prems by (subst parse_int.simps) (simp add: nth_append)
qed

lemma its_loop_length:
  "0 < val \<Longrightarrow> nat val < 10 ^ sz \<Longrightarrow> int (length (snd (its_loop sz 0 val buf))) = int (length buf) + num_digits val"
proof (induction sz arbitrary: val buf)
  case (Suc sz)
  have q: "val sdiv 10 = val div 10"
    using Suc.prems(1) by (simp add: signed_divide_int_def)
  show ?case
  proof (cases "val \<ge> 10")
    case True
    then have "0 < val div 10" by (simp add: pos_imp_zdiv_pos_iff)
    moreover have "nat (val div 10) < 10 ^ sz"
      using Suc.prems by (simp add: nat_div_distrib less_mult_imp_div_less mult.commute)
    ultimately show ?thesis
      using Suc.IH [of "val div 10"] Suc.prems(1) True q by (simp add: num_digits.simps [of val])
  next
    case False
    then have "val div 10 = 0" using Suc.prems(1) by simp
    then show ?thesis
      using Suc.prems(1) False q by (cases sz) (simp_all add: num_digits.simps [of val])
  qed
qed simp

lemma length_write_integer:
  assumes "0 \<le> n" "n < 2 ^ 63"
  shows "int (length (write_integer n)) = num_digits n"
proof (cases "n = 0")
  case True
  then show ?thesis
    by (simp add: write_integer_def integer_to_str_def Let_def numeral_eq_Suc num_digits.simps [of 0])
next
  case False
  have "nat n < 10 ^ 20"
  proof -
    have "nat n < 2 ^ 63" using assms by (simp add: nat_less_iff)
    also have "(2 :: nat) ^ 63 < 10 ^ 20" by simp
    finally show ?thesis .
  qed
  then have "int (length (snd (its_loop 20 0 n []))) = num_digits n"
    using its_loop_length [of n 20 "[]"] assms(1) False by simp
  then show ?thesis
    using assms(1) False by (simp add: write_integer_def integer_to_str_def Let_def case_prod_unfold)
qed

text \<open>The digits of a length, and what \<^verbatim>\<open>parse_len\<close> makes of them.\<close>

lemma write_length_digits:
  assumes "length s < 2 ^ 31"
  obtains c ds where "write_integer (int (length s)) = c # ds" "is_digit c" "list_all is_digit ds"
    "digits_from (uint c - 48) ds = int (length s)" "int (length ds) + 1 = num_digits (int (length s))"
proof -
  have r: "- (2 ^ 63) < int (length s)" "int (length s) < 2 ^ 63" using assms by simp_all
  then obtain ds where d: "write_integer (int (length s)) = ds" "ds \<noteq> []"
    "\<forall>c \<in> set ds. is_digit c" "decimal_value ds = length s"
    using write_integer_abs [of "int (length s)"] by (metis abs_of_nat nat_int of_nat_less_0_iff)
  then obtain c r where c: "ds = c # r" by (cases ds) auto
  then have "digits_from (int 0) (c # r) = int (length s)"
    using d(3,4) digits_from_decimal [of ds 0] by (simp add: decimal_value_def list_all_iff)
  moreover have "int (length (c # r)) = num_digits (int (length s))"
    using length_write_integer [of "int (length s)"] r d(1) c by simp
  ultimately show thesis using that [of c r] d c by (simp add: list_all_iff)
qed

lemma parse_len_key:
  assumes "length s < 2 ^ 31" "buf = pre @ write_key s @ post" "extra \<le> 1 + int (length post)"
  shows "parse_len buf (hd (write_key s)) (int (length pre) + 1) extra =
      Len (int (length pre + length (write_key s)) - int (length s)) (int (length s))"
    "is_digit (hd (write_key s))" "write_key s \<noteq> []" "int (length (write_key s)) = num_digits (int (length s)) + 1 + int (length s)"
proof -
  obtain c ds where c: "write_integer (int (length s)) = c # ds" "is_digit c" "list_all is_digit ds"
    "digits_from (uint c - 48) ds = int (length s)" "int (length ds) + 1 = num_digits (int (length s))"
    by (rule write_length_digits [OF assms(1)])
  have buf: "buf = (pre @ [c]) @ ds @ ch CHR '':'' # s @ post" using assms(2) by (simp add: write_key_def c(1))
  have "parse_int buf (length (pre @ [c])) (length buf) (ch CHR '':'') (uint c - 48) =
      (Some (length (pre @ [c]) + length ds), digits_from (uint c - 48) ds)"
    unfolding buf using c assms(1) digit_range [OF c(2)] by (intro parse_int_digits) (auto simp: is_digit_def)
  moreover have "nat (int (length pre) + 1) = length (pre @ [c])" by simp
  moreover have "buf ! (length (pre @ [c]) + length ds) = ch CHR '':''"
    unfolding buf by (simp add: nth_append)
  moreover have "length buf = length (pre @ [c]) + length ds + 1 + length s + length post"
    unfolding buf by simp
  ultimately show "parse_len buf (hd (write_key s)) (int (length pre) + 1) extra =
      Len (int (length pre + length (write_key s)) - int (length s)) (int (length s))"
    using assms(3) c(4) by (simp add: parse_len_def write_key_def c(1))
  show "is_digit (hd (write_key s))" "write_key s \<noteq> []"
    "int (length (write_key s)) = num_digits (int (length s)) + 1 + int (length s)"
    using c by (simp_all add: write_key_def)
qed

subsection \<open>Running the loop\<close>

definition resume :: "bytes \<Rightarrow> int \<Rightarrow> lazy_state \<Rightarrow> lazy_state" where
  "resume buf dl r = (case r of Running s st il \<Rightarrow> lazy_loop buf dl s st il | _ \<Rightarrow> r)"

lemma loop_resume: "s < int (length buf) \<Longrightarrow> lazy_loop buf dl s st il = resume buf dl (lazy_round buf dl s st il)"
  by (cases "lazy_round buf dl s st il") (simp_all add: lazy_loop.simps [of buf dl s] resume_def)

text \<open>The number of entries the decoder makes, which the item limit bounds.\<close>

fun items :: "entry \<Rightarrow> nat" where
  "items (List_t es) = Suc (sum_list (map items es))"
| "items (Dictionary_t m) = Suc (sum_list (map (\<lambda>(k, e). items e) m))"
| "items _ = 1"

text \<open>A tree of pointers that stands for an entry encoded at a position, and the elements of a dictionary.\<close>

definition fields :: "bytes \<Rightarrow> (int \<times> lazy_entry) list \<Rightarrow> (bytes \<times> entry) list \<Rightarrow> bool" where
  "fields buf = list_all2 (\<lambda>x (k, e). dict_name buf x = k \<and> assign_lazy buf Undefined_t (snd x) = Some e)"

definition stands_for :: "bytes \<Rightarrow> nat \<Rightarrow> lazy_entry \<Rightarrow> entry \<Rightarrow> bool" where
  "stands_for buf p t e \<longleftrightarrow>
     data_section t = (int p, int (length (bencode e))) \<and> assign_lazy buf Undefined_t t = Some e
     \<and> (\<forall>m. e = Dictionary_t m \<longrightarrow> (\<exists>b l c xs. t = Lazy_dict b l c xs \<and> fields buf xs m))"

definition decodes :: "bytes \<Rightarrow> int \<Rightarrow> entry \<Rightarrow> bool" where
  "decodes buf dl e \<longleftrightarrow>
     (\<forall>pre post st il. buf = pre @ bencode e @ post \<longrightarrow> int (length st) + int (depth e) \<le> dl \<longrightarrow> int (items e) < il \<longrightarrow>
        (\<exists>t. stands_for buf (length pre) t e \<and>
           resume buf dl (construct buf (hd (bencode e)) (int (length pre) + 1) (Lazy_none # st) il) =
           resume buf dl (pop_back (int (length pre + length (bencode e))) (t # st) (il - int (items e)))))"

lemma decodesD:
  assumes "decodes buf dl e" "buf = pre @ bencode e @ post" "int (length st) + int (depth e) \<le> dl" "int (items e) < il"
  obtains t where "stands_for buf (length pre) t e"
    "resume buf dl (construct buf (hd (bencode e)) (int (length pre) + 1) (Lazy_none # st) il) =
     resume buf dl (pop_back (int (length pre + length (bencode e))) (t # st) (il - int (items e)))"
  using assms unfolding decodes_def by blast

lemma items_pos: "0 < items e"
  by (cases e) auto

lemma string_value_at: "string_value (p @ s @ post) (int (length p)) (int (length s)) = s"
  by (simp add: string_value_def)

lemma string_value_key:
  assumes "buf = pre @ write_key k @ post"
  shows "string_value buf (int (length pre + length (write_key k)) - int (length k)) (int (length k)) = k"
proof -
  have "int (length pre + length (write_key k)) - int (length k) =
      int (length (pre @ write_integer (int (length k)) @ [ch CHR '':'']))" by (simp add: write_key_def)
  moreover have "buf = (pre @ write_integer (int (length k)) @ [ch CHR '':'']) @ k @ post"
    using assms by (simp add: write_key_def)
  ultimately show ?thesis by (simp only: string_value_at)
qed

lemma decodes_string:
  assumes "length s < 2 ^ 31" "length buf < 2 ^ 31"
  shows "decodes buf dl (String_t s)"
  unfolding decodes_def
proof (intro allI impI)
  fix pre post st il
  assume buf: "buf = pre @ bencode (String_t s) @ post" and il: "int (items (String_t s)) < il"
  let ?k = "int (length pre + length (write_key s)) - int (length s)"
  note key = parse_len_key [OF assms(1), of buf pre post 1]
  have p: "parse_len buf (hd (write_key s)) (int (length pre) + 1) 1 = Len ?k (int (length s))"
    using buf by (intro key(1)) (simp_all add: bencode_simps)
  have w: "is_digit (hd (write_key s))" "int (length (write_key s)) = num_digits (int (length s)) + 1 + int (length s)"
    using key(2,4) buf by (simp_all add: bencode_simps)
  have "int (length (write_key s)) < 2 ^ 31"
    using assms(2) buf by (simp add: bencode_simps)
  then have len: "int32 (int (length s)) = int (length s)" "uint32 (int (length s)) = int (length s)"
    "uint32 (int (length (write_key s))) = int (length (write_key s))"
    using assms(1) by (auto intro!: int32_id uint32_id)
  let ?t = "construct_string ?k (int32 (int (length s)))"
  have "le_begin ?t = int (length pre)" "le_len ?t = int (length (write_key s))"
    using w(2) len by (simp_all add: construct_string_def Let_def)
  moreover have "string_value buf ?k (int (length s)) = s"
    using buf by (intro string_value_key) (simp add: bencode_simps)
  ultimately have "stands_for buf (length pre) ?t (String_t s)"
    using len by (simp add: stands_for_def data_section_def bencode_simps construct_string_def Let_def)
  moreover have "construct buf (hd (bencode (String_t s))) (int (length pre) + 1) (Lazy_none # st) il =
      pop_back (int (length pre + length (bencode (String_t s)))) (?t # st) (il - int (items (String_t s)))"
    using p w(1) il digit_facts [OF w(1)] by (simp add: construct_def Let_def bencode_simps)
  ultimately show "\<exists>t. stands_for buf (length pre) t (String_t s) \<and>
      resume buf dl (construct buf (hd (bencode (String_t s))) (int (length pre) + 1) (Lazy_none # st) il) =
      resume buf dl (pop_back (int (length pre + length (bencode (String_t s)))) (t # st) (il - int (items (String_t s))))"
    by metis
qed

lemma find_char_at:
  "d \<notin> set w \<Longrightarrow> find_char (pre @ w @ d # post) (length pre) d = length pre + length w"
proof (induction w arbitrary: pre)
  case Nil
  then show ?case by (simp add: find_char.simps [of _ "length pre"] nth_append)
next
  case (Cons c w)
  then show ?case
    using Cons.IH [of "pre @ [c]"] by (auto simp: find_char.simps [of _ "length pre"] nth_append)
qed

lemma int_value_write:
  assumes "- (2 ^ 63) < n" "n < 2 ^ 63" "buf = pre @ write_integer n @ ch CHR ''e'' # post"
  shows "int_value buf (int (length pre)) (int (length (write_integer n))) = n"
proof -
  obtain ds where d: "write_integer n = (if n < 0 then ch CHR ''-'' # ds else ds)" "ds \<noteq> []"
    "\<forall>c \<in> set ds. is_digit c" "decimal_value ds = nat \<bar>n\<bar>" by (rule write_integer_abs [OF assms(1,2)])
  have val: "digits_from 0 ds = \<bar>n\<bar>"
    using d(3,4) digits_from_decimal [of ds 0] by (simp add: decimal_value_def list_all_iff)
  have run: "parse_int (p @ ds @ ch CHR ''e'' # post) (length p) (length p + length ds) (ch CHR ''e'') 0 =
      (Some (length p + length ds), \<bar>n\<bar>)" for p
    using parse_int_digits [of ds 0 p "length p + length ds" "ch CHR ''e''" post] d(3) val assms(1,2)
    by (simp add: list_all_iff is_digit_def)
  show ?thesis
  proof (cases "n < 0")
    case True
    then have buf: "buf = (pre @ [ch CHR ''-'']) @ ds @ ch CHR ''e'' # post" using assms(3) d(1) by simp
    have "int64 n = n" using assms(1) True by (intro signed_take_bit_int_eq_self) auto
    then show ?thesis
      using run [of "pre @ [ch CHR ''-'']"] True d(1) unfolding buf
      by (simp add: int_value_def Let_def nth_append nat_add_distrib)
  next
    case False
    then have buf: "buf = pre @ ds @ ch CHR ''e'' # post" using assms(3) d(1) by simp
    have "buf ! length pre \<noteq> ch CHR ''-''"
      using buf d(2,3) digit_facts(3) by (cases ds) (auto simp: nth_append)
    then show ?thesis
      using run [of pre] False d(1) unfolding buf by (simp add: int_value_def Let_def nat_add_distrib)
  qed
qed

lemma letters [simp]:
  "ch CHR ''i'' \<noteq> ch CHR ''d''" "ch CHR ''i'' \<noteq> ch CHR ''l''" "ch CHR ''l'' \<noteq> ch CHR ''d''"
  by (simp_all)

lemma decodes_int:
  assumes "- (2 ^ 63) < n" "n < 2 ^ 63" "length buf < 2 ^ 31"
  shows "decodes buf dl (Int_t n)"
  unfolding decodes_def
proof (intro allI impI)
  fix pre post st il
  assume buf: "buf = pre @ bencode (Int_t n) @ post" and il: "int (items (Int_t n)) < il"
  let ?w = "write_integer n" and ?t = "construct_int (int (length pre) + 1) (int (length (write_integer n)))"
  have buf': "buf = (pre @ [ch CHR ''i'']) @ ?w @ ch CHR ''e'' # post" using buf by (simp add: bencode_simps)
  have f: "find_char buf (length (pre @ [ch CHR ''i''])) (ch CHR ''e'') = length (pre @ [ch CHR ''i'']) + length ?w"
    unfolding buf' using strtoll_write(2) [OF assms(1,2)] by (rule find_char_at)
  have "int (length ?w) + 2 < 2 ^ 31" using assms(3) buf' by simp
  then have len: "uint32 (int (length ?w)) = int (length ?w)" "uint32 (int (length ?w) + 2) = int (length ?w) + 2"
    by (auto intro!: uint32_id)
  have "stands_for buf (length pre) ?t (Int_t n)"
    using int_value_write [OF assms(1,2) buf'] len
    by (simp add: stands_for_def data_section_def construct_int_def bencode_simps add.commute)
  moreover have "construct buf (hd (bencode (Int_t n))) (int (length pre) + 1) (Lazy_none # st) il =
      pop_back (int (length pre + length (bencode (Int_t n)))) (?t # st) (il - int (items (Int_t n)))"
  proof -
    have "nat (int (length pre) + 1) = length (pre @ [ch CHR ''i''])" by simp
    moreover have "length buf = length pre + length ?w + 2 + length post" unfolding buf' by simp
    ultimately show ?thesis
      using f il by (simp add: construct_def Let_def bencode_simps letters)
  qed
  ultimately show "\<exists>t. stands_for buf (length pre) t (Int_t n) \<and>
      resume buf dl (construct buf (hd (bencode (Int_t n))) (int (length pre) + 1) (Lazy_none # st) il) =
      resume buf dl (pop_back (int (length pre + length (bencode (Int_t n)))) (t # st) (il - int (items (Int_t n))))"
    by metis
qed

subsection \<open>Containers\<close>

lemma encoded_length: "entry_ok e \<Longrightarrow> 2 \<le> length (bencode e)"
proof (cases e)
  case (String_t s)
  moreover assume "entry_ok e"
  ultimately show ?thesis
    using parse_len_key(4) [of s "write_key s" "[]" "[]" 0] num_digits_pos [of "int (length s)"]
    by (simp add: bencode_simps)
qed (simp_all add: bencode_simps)

lemma round_at:
  assumes "buf = pre @ c # post" "int (length stack) \<le> dl" "post \<noteq> [] \<or> c = ch CHR ''e''"
  shows "lazy_loop buf dl (int (length pre)) stack il = resume buf dl (lazy_round buf dl (int (length pre)) stack il)"
    "buf ! length pre = c" "int (length pre) + 1 \<ge> int (length buf) \<longrightarrow> c = ch CHR ''e''"
  using assms by (auto intro!: loop_resume simp: nth_append)

lemma list_end:
  assumes "buf = pre @ ch CHR ''e'' # post" "1 + int (length st) \<le> dl"
  shows "lazy_loop buf dl (int (length pre)) (Lazy_list b l c us # st) il =
    resume buf dl (pop_back (int (length pre) + 1) (Lazy_list b (uint32 (int (length pre) + 1 - b)) c us # st) il)"
    "lazy_loop buf dl (int (length pre)) (Lazy_dict b l c xs # st) il =
    resume buf dl (pop_back (int (length pre) + 1) (Lazy_dict b (uint32 (int (length pre) + 1 - b)) c xs # st) il)"
  using round_at [OF assms(1), of _ dl] assms(2) by (simp_all add: lazy_round_def Let_def)

lemma list_item:
  assumes "decodes buf dl e" "entry_ok e" "buf = pre @ bencode e @ post" "1 + int (length st) + int (depth e) \<le> dl"
    "int (items e) < il"
  obtains t where "stands_for buf (length pre) t e"
    "lazy_loop buf dl (int (length pre)) (Lazy_list b l c us # st) il =
     lazy_loop buf dl (int (length pre + length (bencode e))) (Lazy_list b l (grow (length us) c) (us @ [t]) # st) (il - int (items e))"
proof -
  let ?st = "list_append (Lazy_list b l c us) # st"
  obtain t where t: "stands_for buf (length pre) t e"
    "resume buf dl (construct buf (hd (bencode e)) (int (length pre) + 1) (Lazy_none # ?st) il) =
     resume buf dl (pop_back (int (length pre + length (bencode e))) (t # ?st) (il - int (items e)))"
    by (rule decodesD [where st = ?st, OF assms(1,3) _ assms(5)]) (use assms(4) in auto)
  obtain x r where x: "bencode e = x # r" "x \<noteq> ch CHR ''e''" "r \<noteq> []"
    using encoded_start(2) [OF assms(2)] encoded_length [OF assms(2)] by (cases "bencode e") fastforce+
  have "lazy_loop buf dl (int (length pre)) (Lazy_list b l c us # st) il =
      resume buf dl (construct buf x (int (length pre) + 1) (Lazy_none # ?st) il)"
    using round_at [of buf pre x "r @ post" "Lazy_list b l c us # st" dl] x assms(3,4)
    by (simp add: lazy_round_def Let_def)
  also have "\<dots> = resume buf dl (pop_back (int (length pre + length (bencode e))) (t # ?st) (il - int (items e)))"
    using t(2) x(1) by simp
  also have "\<dots> = lazy_loop buf dl (int (length pre + length (bencode e)))
      (Lazy_list b l (grow (length us) c) (us @ [t]) # st) (il - int (items e))"
    by (simp add: pop_back_def resume_def)
  finally show thesis using that t(1) by blast
qed

lemma list_decodes:
  assumes "\<forall>e \<in> set es. decodes buf dl e \<and> entry_ok e \<and> 1 + int (length st) + int (depth e) \<le> dl"
    "buf = pre @ concat (map bencode es) @ ch CHR ''e'' # post" "1 + int (length st) \<le> dl"
    "int (sum_list (map items es)) < il"
  shows "\<exists>ts c'. (\<forall>acc. assign_list buf acc ts = Some (acc @ es)) \<and>
    lazy_loop buf dl (int (length pre)) (Lazy_list b l c us # st) il =
    resume buf dl (pop_back (int (length pre + length (concat (map bencode es))) + 1)
      (Lazy_list b (uint32 (int (length pre + length (concat (map bencode es))) + 1 - b)) c' (us @ ts) # st)
      (il - int (sum_list (map items es))))"
  using assms
proof (induction es arbitrary: pre us c il)
  case Nil
  then show ?case by (intro exI [of _ "[]"] exI [of _ c]) (simp add: list_end)
next
  case (Cons e es)
  let ?pre = "pre @ bencode e" and ?il = "il - int (items e)"
  have e: "decodes buf dl e" "entry_ok e" "1 + int (length st) + int (depth e) \<le> dl"
    and buf: "buf = pre @ bencode e @ (concat (map bencode es) @ ch CHR ''e'' # post)" and il: "int (items e) < il"
    using Cons.prems by auto
  obtain t where t: "stands_for buf (length pre) t e"
    "lazy_loop buf dl (int (length pre)) (Lazy_list b l c us # st) il =
     lazy_loop buf dl (int (length pre + length (bencode e))) (Lazy_list b l (grow (length us) c) (us @ [t]) # st) ?il"
    by (rule list_item [OF e(1,2) buf e(3) il])
  obtain ts c' where ts: "\<forall>acc. assign_list buf acc ts = Some (acc @ es)"
    "lazy_loop buf dl (int (length ?pre)) (Lazy_list b l (grow (length us) c) (us @ [t]) # st) ?il =
     resume buf dl (pop_back (int (length ?pre + length (concat (map bencode es))) + 1)
      (Lazy_list b (uint32 (int (length ?pre + length (concat (map bencode es))) + 1 - b)) c' ((us @ [t]) @ ts) # st)
      (?il - int (sum_list (map items es))))"
    using Cons.IH [of ?pre ?il "grow (length us) c" "us @ [t]"] Cons.prems by auto
  have "\<forall>acc. assign_list buf acc (t # ts) = Some (acc @ e # es)"
    using t(1) ts(1) by (simp add: stands_for_def)
  then show ?case
    using t(2) ts(2) by (intro exI [of _ "t # ts"] exI [of _ c']) (simp add: algebra_simps)
qed

lemma dict_item:
  assumes "decodes buf dl e" "entry_ok e" "length k < 2 ^ 31" "buf = pre @ (write_key k @ bencode e) @ post"
    "1 + int (length st) + int (depth e) \<le> dl" "int (items e) < il"
  obtains name t where "dict_name buf (name, t) = k" "stands_for buf (length pre + length (write_key k)) t e"
    "lazy_loop buf dl (int (length pre)) (Lazy_dict b l c us # st) il =
     lazy_loop buf dl (int (length pre + length (write_key k @ bencode e)))
       (Lazy_dict b l (grow (length us) c) (us @ [(name, t)]) # st) (il - int (items e))"
proof -
  let ?pre = "pre @ write_key k"
  let ?name = "int (length ?pre) - int (length k)"
  let ?st = "dict_append ?name (Lazy_dict b l c us) # st"
  have buf: "buf = ?pre @ bencode e @ post" using assms(4) by simp
  obtain t where t: "stands_for buf (length ?pre) t e"
    "resume buf dl (construct buf (hd (bencode e)) (int (length ?pre) + 1) (Lazy_none # ?st) il) =
     resume buf dl (pop_back (int (length ?pre + length (bencode e))) (t # ?st) (il - int (items e)))"
    by (rule decodesD [where st = ?st, OF assms(1) buf _ assms(6)]) (use assms(5) in auto)
  have e: "bencode e \<noteq> []" "2 \<le> length (bencode e)" using encoded_length [OF assms(2)] by auto
  have key: "parse_len buf (hd (write_key k)) (int (length pre) + 1) 3 = Len ?name (int (length k))"
    "is_digit (hd (write_key k))" "write_key k \<noteq> []"
    using parse_len_key [OF assms(3), of buf pre "bencode e @ post" 3] assms(4) e(2) by auto
  obtain x r where x: "write_key k = x # r" using key(3) by (cases "write_key k") auto
  have hd: "buf ! length ?pre = hd (bencode e)"
    using e(1) unfolding buf by (simp add: nth_append hd_conv_nth)
  have len: "length buf = length ?pre + length (bencode e) + length post" unfolding buf by simp
  have "lazy_loop buf dl (int (length pre)) (Lazy_dict b l c us # st) il =
      resume buf dl (construct buf (hd (bencode e)) (int (length ?pre) + 1) (Lazy_none # ?st) il)"
  proof -
    have "nat (1 + (int (length pre) + int (length r))) = Suc (length pre + length r)" by linarith
    then have "lazy_round buf dl (int (length pre)) (Lazy_dict b l c us # st) il =
        construct buf (buf ! length ?pre) (int (length ?pre) + 1) (Lazy_none # ?st) il"
      using round_at(2,3) [of buf pre x "r @ bencode e @ post"] x key(1,2) digit_facts(1) [OF key(2)] assms(5) len e(2) assms(4)
      by (simp add: lazy_round_def Let_def)
    then show ?thesis
      using round_at(1) [of buf pre x "r @ bencode e @ post" "Lazy_dict b l c us # st" dl] x assms(4,5) e(1) hd by simp
  qed
  also have "\<dots> = lazy_loop buf dl (int (length ?pre + length (bencode e)))
      (Lazy_dict b l (grow (length us) c) (us @ [(?name, t)]) # st) (il - int (items e))"
    unfolding t(2) by (simp add: pop_back_def resume_def)
  finally show thesis
    using that [of ?name t] t(1) string_value_key [of buf pre k "bencode e @ post"] assms(4)
    by (simp add: dict_name_def stands_for_def data_section_def add.assoc)
qed

lemma dict_decodes:
  assumes "\<forall>(k, e) \<in> set m. decodes buf dl e \<and> entry_ok e \<and> length k < 2 ^ 31 \<and> 1 + int (length st) + int (depth e) \<le> dl"
    "buf = pre @ concat (map (\<lambda>(k, e). write_key k @ bencode e) m) @ ch CHR ''e'' # post" "1 + int (length st) \<le> dl"
    "int (sum_list (map (\<lambda>(k, e). items e) m)) < il"
  shows "\<exists>xs c'. (\<forall>acc. sorted_wrt (<) (map fst (acc @ m)) \<longrightarrow> assign_dict buf acc xs = Some (acc @ m)) \<and>
    fields buf xs m \<and>
    lazy_loop buf dl (int (length pre)) (Lazy_dict b l c us # st) il =
    resume buf dl (pop_back (int (length pre + length (concat (map (\<lambda>(k, e). write_key k @ bencode e) m))) + 1)
      (Lazy_dict b (uint32 (int (length pre + length (concat (map (\<lambda>(k, e). write_key k @ bencode e) m))) + 1 - b)) c' (us @ xs) # st)
      (il - int (sum_list (map (\<lambda>(k, e). items e) m))))"
  using assms
proof (induction m arbitrary: pre us c il)
  case Nil
  then show ?case by (intro exI [of _ "[]"] exI [of _ c]) (simp add: list_end fields_def)
next
  case (Cons x m)
  obtain k e where x: "x = (k, e)" by fastforce
  let ?m = "concat (map (\<lambda>(k, e). write_key k @ bencode e) m)"
  let ?pre = "pre @ write_key k @ bencode e" and ?il = "il - int (items e)"
  have e: "decodes buf dl e" "entry_ok e" "length k < 2 ^ 31" "1 + int (length st) + int (depth e) \<le> dl"
    and buf: "buf = pre @ (write_key k @ bencode e) @ (?m @ ch CHR ''e'' # post)" and il: "int (items e) < il"
    using Cons.prems x by auto
  obtain name t where t: "dict_name buf (name, t) = k" "stands_for buf (length pre + length (write_key k)) t e"
    "lazy_loop buf dl (int (length pre)) (Lazy_dict b l c us # st) il =
     lazy_loop buf dl (int (length pre + length (write_key k @ bencode e))) (Lazy_dict b l (grow (length us) c) (us @ [(name, t)]) # st) ?il"
    by (rule dict_item [OF e(1-3) buf e(4) il])
  obtain xs c' where xs: "\<forall>acc. sorted_wrt (<) (map fst (acc @ m)) \<longrightarrow> assign_dict buf acc xs = Some (acc @ m)"
    "fields buf xs m"
    "lazy_loop buf dl (int (length ?pre)) (Lazy_dict b l (grow (length us) c) (us @ [(name, t)]) # st) ?il =
     resume buf dl (pop_back (int (length ?pre + length ?m) + 1)
      (Lazy_dict b (uint32 (int (length ?pre + length ?m) + 1 - b)) c' ((us @ [(name, t)]) @ xs) # st)
      (?il - int (sum_list (map (\<lambda>(k, e). items e) m))))"
    using Cons.IH [of ?pre ?il "grow (length us) c" "us @ [(name, t)]"] Cons.prems x by auto
  have "assign_dict buf acc ((name, t) # xs) = Some (acc @ x # m)" if "sorted_wrt (<) (map fst (acc @ x # m))" for acc
  proof -
    have lt: "\<forall>y \<in> fst ` set acc. y < k" using that x by (auto simp: sorted_wrt_append)
    then have "map_get acc k = Undefined_t" by (auto simp: map_get_def split: option.splits dest!: map_of_SomeD)
    then show ?thesis
      using xs(1) [rule_format, of "acc @ [x]"] that t x map_put_last [OF lt, of e] by (simp add: stands_for_def)
  qed
  then show ?case
    using t xs(2,3) x by (intro exI [of _ "(name, t) # xs"] exI [of _ c']) (simp add: stands_for_def fields_def algebra_simps)
qed

lemma depth_member:
  "e \<in> set es \<Longrightarrow> depth e < depth (List_t es)" "(k, e) \<in> set m \<Longrightarrow> depth e < depth (Dictionary_t m)"
  by (auto simp: less_Suc_eq_le intro!: Max_ge)

lemma container_start:
  assumes "1 < il"
  shows "resume buf dl (construct buf (ch CHR ''l'') (int (length pre) + 1) (Lazy_none # st) il) =
      lazy_loop buf dl (int (length (pre @ [x]))) (Lazy_list (int (length pre)) 0 0 [] # st) (il - 1)"
    "resume buf dl (construct buf (ch CHR ''d'') (int (length pre) + 1) (Lazy_none # st) il) =
      lazy_loop buf dl (int (length (pre @ [x]))) (Lazy_dict (int (length pre)) 0 0 [] # st) (il - 1)"
proof -
  have x: "int (length (pre @ [x])) = int (length pre) + 1" by simp
  show "resume buf dl (construct buf (ch CHR ''l'') (int (length pre) + 1) (Lazy_none # st) il) =
      lazy_loop buf dl (int (length (pre @ [x]))) (Lazy_list (int (length pre)) 0 0 [] # st) (il - 1)"
    "resume buf dl (construct buf (ch CHR ''d'') (int (length pre) + 1) (Lazy_none # st) il) =
      lazy_loop buf dl (int (length (pre @ [x]))) (Lazy_dict (int (length pre)) 0 0 [] # st) (il - 1)"
    using assms unfolding x by (simp_all add: construct_def Let_def resume_def construct_list_def construct_dict_def)
qed

lemma decodes_list:
  assumes "\<forall>e \<in> set es. decodes buf dl e \<and> entry_ok e" "length buf < 2 ^ 31"
  shows "decodes buf dl (List_t es)"
  unfolding decodes_def
proof (intro allI impI)
  fix pre post :: bytes and st :: "lazy_entry list" and il :: int
  assume buf: "buf = pre @ bencode (List_t es) @ post" and dl: "int (length st) + int (depth (List_t es)) \<le> dl"
    and il: "int (items (List_t es)) < il"
  let ?pre = "pre @ [ch CHR ''l'']" and ?b = "int (length pre)" and ?c = "concat (map bencode es)"
  have buf': "buf = ?pre @ ?c @ ch CHR ''e'' # post" using buf by (simp add: bencode_simps)
  have "\<forall>e \<in> set es. decodes buf dl e \<and> entry_ok e \<and> 1 + int (length st) + int (depth e) \<le> dl"
    using assms(1) dl depth_member(1) [of _ es] by fastforce
  then obtain ts c' where ts: "\<forall>acc. assign_list buf acc ts = Some (acc @ es)"
    "lazy_loop buf dl (int (length ?pre)) (Lazy_list ?b 0 0 [] # st) (il - 1) =
     resume buf dl (pop_back (int (length ?pre + length ?c) + 1)
       (Lazy_list ?b (uint32 (int (length ?pre + length ?c) + 1 - ?b)) c' ([] @ ts) # st)
       (il - 1 - int (sum_list (map items es))))"
    using list_decodes [of es buf dl st ?pre post "il - 1" ?b 0 0 "[]"] buf' dl il by auto
  let ?t = "Lazy_list ?b (uint32 (int (length ?pre + length ?c) + 1 - ?b)) c' ts"
  have "uint32 (int (length ?pre + length ?c) + 1 - ?b) = int (length (bencode (List_t es)))"
    using assms(2) buf by (subst uint32_id) (auto simp: bencode_simps)
  then have "stands_for buf (length pre) ?t (List_t es)"
    using ts(1) by (simp add: stands_for_def data_section_def)
  moreover have "resume buf dl (construct buf (hd (bencode (List_t es))) (?b + 1) (Lazy_none # st) il) =
      resume buf dl (pop_back (int (length pre + length (bencode (List_t es)))) (?t # st) (il - int (items (List_t es))))"
    using container_start(1) [of il buf dl pre st "ch CHR ''l''"] ts(2) il by (simp add: bencode_simps algebra_simps)
  ultimately show "\<exists>t. stands_for buf (length pre) t (List_t es) \<and>
      resume buf dl (construct buf (hd (bencode (List_t es))) (?b + 1) (Lazy_none # st) il) =
      resume buf dl (pop_back (int (length pre + length (bencode (List_t es)))) (t # st) (il - int (items (List_t es))))"
    by blast
qed

lemma decodes_dict:
  assumes "\<forall>(k, e) \<in> set m. decodes buf dl e" "entry_ok (Dictionary_t m)" "length buf < 2 ^ 31"
  shows "decodes buf dl (Dictionary_t m)"
  unfolding decodes_def
proof (intro allI impI)
  fix pre post :: bytes and st :: "lazy_entry list" and il :: int
  assume buf: "buf = pre @ bencode (Dictionary_t m) @ post" and dl: "int (length st) + int (depth (Dictionary_t m)) \<le> dl"
    and il: "int (items (Dictionary_t m)) < il"
  let ?pre = "pre @ [ch CHR ''d'']" and ?b = "int (length pre)" and ?c = "concat (map (\<lambda>(k, e). write_key k @ bencode e) m)"
  have buf': "buf = ?pre @ ?c @ ch CHR ''e'' # post" using buf by (simp add: bencode_simps)
  have "\<forall>(k, e) \<in> set m. decodes buf dl e \<and> entry_ok e \<and> length k < 2 ^ 31 \<and> 1 + int (length st) + int (depth e) \<le> dl"
    using assms(1,2) dl depth_member(2) [of _ _ m] by fastforce
  then obtain xs c' where xs: "\<forall>acc. sorted_wrt (<) (map fst (acc @ m)) \<longrightarrow> assign_dict buf acc xs = Some (acc @ m)"
    "fields buf xs m"
    "lazy_loop buf dl (int (length ?pre)) (Lazy_dict ?b 0 0 [] # st) (il - 1) =
     resume buf dl (pop_back (int (length ?pre + length ?c) + 1)
       (Lazy_dict ?b (uint32 (int (length ?pre + length ?c) + 1 - ?b)) c' ([] @ xs) # st)
       (il - 1 - int (sum_list (map (\<lambda>(k, e). items e) m))))"
    using dict_decodes [of m buf dl st ?pre post "il - 1" ?b 0 0 "[]"] buf' dl il by auto
  let ?t = "Lazy_dict ?b (uint32 (int (length ?pre + length ?c) + 1 - ?b)) c' xs"
  have "uint32 (int (length ?pre + length ?c) + 1 - ?b) = int (length (bencode (Dictionary_t m)))"
    using assms(3) buf by (subst uint32_id) (auto simp: bencode_simps)
  then have "stands_for buf (length pre) ?t (Dictionary_t m)"
    using xs(1) [rule_format, of "[]"] xs(2) assms(2) by (simp add: stands_for_def data_section_def)
  moreover have "resume buf dl (construct buf (hd (bencode (Dictionary_t m))) (?b + 1) (Lazy_none # st) il) =
      resume buf dl (pop_back (int (length pre + length (bencode (Dictionary_t m)))) (?t # st) (il - int (items (Dictionary_t m))))"
    using container_start(2) [of il buf dl pre st "ch CHR ''d''"] xs(3) il by (simp add: bencode_simps algebra_simps)
  ultimately show "\<exists>t. stands_for buf (length pre) t (Dictionary_t m) \<and>
      resume buf dl (construct buf (hd (bencode (Dictionary_t m))) (?b + 1) (Lazy_none # st) il) =
      resume buf dl (pop_back (int (length pre + length (bencode (Dictionary_t m)))) (t # st) (il - int (items (Dictionary_t m))))"
    by blast
qed

lemma encoded_decodes: "length buf < 2 ^ 31 \<Longrightarrow> entry_ok e \<Longrightarrow> decodes buf dl e"
proof (induction e)
  case (Dictionary_t m)
  have "decodes buf dl e" if "(k, e) \<in> set m" for k e
    using Dictionary_t.IH [OF that, of e] Dictionary_t.prems that by fastforce
  then show ?case using Dictionary_t.prems by (intro decodes_dict) auto
qed (use decodes_int decodes_string decodes_list in simp_all)

lemma lazy_bdecode_encoded:
  assumes "entry_ok e" "length (bencode e) < 2 ^ 31" "int (depth e) \<le> dl" "int (items e) < il"
  obtains t where "lazy_bdecode (bencode e) dl il = Finished t" "stands_for (bencode e) 0 t e"
proof -
  let ?buf = "bencode e"
  obtain t where t: "stands_for ?buf (length ([] :: bytes)) t e"
    "resume ?buf dl (construct ?buf (hd ?buf) (int (length ([] :: bytes)) + 1) (Lazy_none # []) il) =
     resume ?buf dl (pop_back (int (length ([] :: bytes) + length ?buf)) (t # []) (il - int (items e)))"
    by (rule decodesD [where st = "[]" and post = "[]", OF encoded_decodes [OF assms(2,1)]]) (use assms in auto)
  obtain x r where x: "?buf = x # r" "r \<noteq> []"
    using encoded_length [OF assms(1)] by (cases ?buf) fastforce+
  have "1 \<le> dl" using assms(3) by (cases e) auto
  then have "lazy_loop ?buf dl 0 [Lazy_none] il = resume ?buf dl (construct ?buf (hd ?buf) 1 [Lazy_none] il)"
    using round_at [of ?buf "[]" x r "[Lazy_none]" dl] x by (simp add: lazy_round_def Let_def)
  then have "lazy_bdecode ?buf dl il = Finished t"
    using t(2) x by (simp add: lazy_bdecode_def resume_def pop_back_def)
  then show thesis using that t(1) by simp
qed

subsection \<open>Looking up names\<close>

lemma string_equal_iff: "0 \<notin> set k \<Longrightarrow> string_equal k s \<longleftrightarrow> k = s"
  by (induction k s rule: string_equal.induct) auto

lemma dict_find_fields:
  assumes "fields buf xs m" "0 \<notin> set k"
  shows "case dict_find buf k xs of None \<Rightarrow> map_of m k = None
    | Some t \<Rightarrow> \<exists>e. map_of m k = Some e \<and> assign_lazy buf Undefined_t t = Some e"
  using assms(1) unfolding fields_def
proof (induction rule: list_all2_induct)
  case (Cons x xs y m)
  obtain k' e where y: "y = (k', e)" by fastforce
  then have x: "dict_name buf x = k'" "assign_lazy buf Undefined_t (snd x) = Some e" using Cons(1) by simp_all
  show ?case
  proof (cases "k = k'")
    case True
    then have "dict_find buf k (x # xs) = Some (snd x)"
      using x(1) string_equal_iff [OF assms(2)] by (simp add: dict_find_def)
    then show ?thesis using True y x(2) by simp
  next
    case False
    then have "dict_find buf k (x # xs) = dict_find buf k xs" "map_of (y # m) k = map_of m k"
      using x(1) y string_equal_iff [OF assms(2)] by (simp_all add: dict_find_def)
    then show ?thesis using Cons.IH by (simp only:)
  qed
qed (simp add: dict_find_def)

lemma assign_scalar:
  assumes "assign_lazy buf Undefined_t t = Some e"
  shows "(case t of Lazy_int b l s z \<Rightarrow> int_value buf s z | _ \<Rightarrow> d) = (case e of Int_t n \<Rightarrow> n | _ \<Rightarrow> d)"
    "(case t of Lazy_string b l s z \<Rightarrow> string_value buf s z | _ \<Rightarrow> []) = (case e of String_t w \<Rightarrow> w | _ \<Rightarrow> [])"
  using assms by (cases t; auto)+

subsection \<open>Properties\<close>

text \<open>C35: the two decoders agree on encoded entries. On the encoding of an entry, within its limits,
  \<^verbatim>\<open>lazy_bdecode\<close> returns 0 with a tree whose data section is the whole buffer, and assigning the tree to an
  \<^verbatim>\<open>entry\<close> gives the entry that was encoded, which is also what \<^verbatim>\<open>bdecode\<close> returns.\<close>
theorem lazy_bdecode_agrees:
  assumes "entry_ok e" "length (bencode e) < 2 ^ 31" "int (depth e) \<le> depth_limit" "int (items e) < item_limit" "depth e \<le> 100"
  shows "\<exists>t. lazy_bdecode (bencode e) depth_limit item_limit = Finished t
    \<and> data_section t = (0, int (length (bencode e)))
    \<and> assign_lazy (bencode e) Undefined_t t = Some e \<and> bdecode (bencode e) = Some e"
proof -
  obtain t where "lazy_bdecode (bencode e) depth_limit item_limit = Finished t" "stands_for (bencode e) 0 t e"
    by (rule lazy_bdecode_encoded [OF assms(1-4)])
  moreover have "bdecode (bencode e) = Some e" using benc.dec_enc assms(1,5) by blast
  ultimately show ?thesis by (auto simp: stands_for_def)
qed

theorem lazy_bdecode_agrees_witness:
  "\<exists>t. lazy_bdecode (bencode (Dictionary_t [([97], Int_t (- 12)), ([98], List_t [String_t [1, 2], List_t []])])) 1000 1000000 = Finished t"
proof -
  let ?e = "Dictionary_t [([97], Int_t (- 12)), ([98], List_t [String_t [1, 2], List_t []])]"
  have "length (bencode ?e) < 2 ^ 31" by code_simp
  then show ?thesis using lazy_bdecode_agrees [of ?e 1000 1000000] by auto
qed

text \<open>C36: looking up names in a decoded dictionary. On the encoding of a dictionary, \<^verbatim>\<open>dict_find\<close> with a name
  finds a value that stands for the one under that key, and nothing when there is no such key; the
  accessors of integers and strings return the value, or their default when there is none of that type.\<close>
theorem lazy_dict_lookup:
  assumes "entry_ok (Dictionary_t m)" "length (bencode (Dictionary_t m)) < 2 ^ 31"
    "int (depth (Dictionary_t m)) \<le> depth_limit" "int (items (Dictionary_t m)) < item_limit" "0 \<notin> set k"
  shows "\<exists>b l c xs. lazy_bdecode (bencode (Dictionary_t m)) depth_limit item_limit = Finished (Lazy_dict b l c xs)
    \<and> (case dict_find (bencode (Dictionary_t m)) k xs of None \<Rightarrow> map_of m k = None
       | Some t \<Rightarrow> assign_lazy (bencode (Dictionary_t m)) Undefined_t t = map_of m k \<and> map_of m k \<noteq> None)
    \<and> dict_find_int_value (bencode (Dictionary_t m)) k d xs = (case map_of m k of Some (Int_t n) \<Rightarrow> n | _ \<Rightarrow> d)
    \<and> dict_find_string_value (bencode (Dictionary_t m)) k xs = (case map_of m k of Some (String_t s) \<Rightarrow> s | _ \<Rightarrow> [])"
proof -
  obtain b l c xs where t: "lazy_bdecode (bencode (Dictionary_t m)) depth_limit item_limit = Finished (Lazy_dict b l c xs)"
    "fields (bencode (Dictionary_t m)) xs m"
    by (rule lazy_bdecode_encoded [OF assms(1-4)]) (auto simp: stands_for_def)
  show ?thesis
    using dict_find_fields [OF t(2) assms(5)] t(1) assign_scalar
    by (intro exI [of _ b] exI [of _ l] exI [of _ c] exI [of _ xs])
      (auto simp: dict_find_int_value_def dict_find_string_value_def split: option.splits)
qed

theorem lazy_dict_lookup_witness:
  "\<exists>b l c xs. lazy_bdecode (bencode (Dictionary_t [([97], Int_t (- 12)), ([98], String_t [1, 2])])) 1000 1000000
      = Finished (Lazy_dict b l c xs)
    \<and> dict_find_int_value (bencode (Dictionary_t [([97], Int_t (- 12)), ([98], String_t [1, 2])])) [97] 7 xs = - 12"
proof -
  let ?m = "[([97], Int_t (- 12)), ([98], String_t [1, 2])] :: (bytes \<times> entry) list"
  have "length (bencode (Dictionary_t ?m)) < 2 ^ 31" by code_simp
  then show ?thesis using lazy_dict_lookup [of ?m 1000 1000000 "[97]" 7] by auto
qed

end
