(* ===== verification/Packet_Buffer.thy ===== *)
theory Packet_Buffer
  imports Prelude "HOL-Library.Word" "HOL-Library.Code_Target_Numeral"
begin

unbundle bit_operations_syntax

text \<open>
  \<^verbatim>\<open>src/packet_buffer.cpp\<close> and its header: the circular buffer in which uTP keeps packets by their 16-bit
  sequence numbers, with \<^verbatim>\<open>compare_less_wrap\<close> of \<^verbatim>\<open>src/utp_stream.cpp\<close>. A null pointer is \<open>None\<close>. Indices are of
  type \<^verbatim>\<open>uint32_t\<close>; they are integers here, and the two places where they drop below zero are written out.
\<close>

definition compare_less_wrap :: "int \<Rightarrow> int \<Rightarrow> int \<Rightarrow> bool" where
  "compare_less_wrap lhs rhs msk =
     (let dist_down = take_bit 32 (lhs - rhs) AND msk;
          dist_up = take_bit 32 (rhs - lhs) AND msk
      in dist_up < dist_down)"

record 'a packet_buffer =
  pb_storage :: "'a option list"
  pb_capacity :: nat
  pb_size :: nat
  pb_first :: int
  pb_last :: int

definition packet_buffer_init :: "'a packet_buffer" where
  "packet_buffer_init = \<lparr>pb_storage = [], pb_capacity = 0, pb_size = 0, pb_first = 0, pb_last = 0\<rparr>"

text \<open>The assertion of \<^verbatim>\<open>check_invariant\<close>.\<close>

definition check_count :: "'a packet_buffer \<Rightarrow> bool" where
  "check_count s \<longleftrightarrow> length (filter (\<lambda>p. p \<noteq> None) (take (pb_capacity s) (pb_storage s))) = pb_size s"

definition span :: "'a packet_buffer \<Rightarrow> int" where
  "span s = take_bit 32 (pb_last s - pb_first s) AND 0xffff"

text \<open>\<^verbatim>\<open>i & (m_capacity - 1)\<close>\<close>

definition slot :: "nat \<Rightarrow> int \<Rightarrow> nat" where
  "slot capacity i = nat (i AND (int capacity - 1))"

text \<open>The loop of \<^verbatim>\<open>reserve\<close> that doubles the capacity, which is never zero there, and the loop that copies.\<close>

function new_capacity :: "nat \<Rightarrow> nat \<Rightarrow> nat" where
  "new_capacity new_size sz =
     (if 0 < new_size \<and> new_size < sz then new_capacity (2 * new_size) sz else new_size)"
  by pat_completeness auto
termination
  by (relation "measure (\<lambda>(new_size, sz). sz - new_size)") auto

declare new_capacity.simps [simp del]

definition copy_slots :: "'a packet_buffer \<Rightarrow> nat \<Rightarrow> 'a option list" where
  "copy_slots s new_size =
     fold (\<lambda>j st. st[slot new_size (pb_first s + int j) := pb_storage s ! slot (pb_capacity s) (pb_first s + int j)])
       [0..<pb_capacity s] (replicate new_size None)"

definition reserve :: "'a packet_buffer \<Rightarrow> nat \<Rightarrow> 'a packet_buffer" where
  "reserve s sz =
     (let new_size = new_capacity (if pb_capacity s = 0 then 16 else pb_capacity s) sz
      in s\<lparr>pb_storage := copy_slots s new_size, pb_capacity := new_size\<rparr>)"

text \<open>
  The loop of \<^verbatim>\<open>insert\<close> that counts the free slots in front of \<^verbatim>\<open>m_first\<close>. It comes round to \<^verbatim>\<open>m_first\<close> after
  \<^verbatim>\<open>m_capacity\<close> steps, which are its fuel.
\<close>

fun free_loop :: "'a packet_buffer \<Rightarrow> nat \<Rightarrow> nat \<Rightarrow> nat" where
  "free_loop s 0 i = 0"
| "free_loop s (Suc n) i =
     (if i = slot (pb_capacity s) (pb_first s) \<or> pb_storage s ! i \<noteq> None then 0
      else Suc (free_loop s n (slot (pb_capacity s) (int i - 1))))"

definition free_space :: "'a packet_buffer \<Rightarrow> nat" where
  "free_space s = free_loop s (pb_capacity s) (slot (pb_capacity s) (pb_first s - 1))"

text \<open>The part of \<^verbatim>\<open>insert\<close> that makes room for an index, when the buffer is not empty.\<close>

definition make_room :: "'a packet_buffer \<Rightarrow> int \<Rightarrow> 'a packet_buffer" where
  "make_room s idx =
     (if compare_less_wrap idx (pb_first s) 0xffff then
        let dist = nat (take_bit 32 (pb_first s - idx) AND 0xffff);
            free = free_space s;
            s = (if dist > free then reserve s (dist + pb_capacity s - free) else s)
        in s\<lparr>pb_first := idx\<rparr>
      else if idx \<ge> pb_first s + int (pb_capacity s) then reserve s (nat (idx - pb_first s + 1))
      else if idx < pb_first s then
        (let wrapped = (pb_first s + int (pb_capacity s)) AND 0xffff
         in if idx \<ge> wrapped \<and> pb_capacity s < 0xffff
            then reserve s (nat (int (pb_capacity s) + (idx + 1 - wrapped))) else s)
      else s)"

definition extend_last :: "'a packet_buffer \<Rightarrow> int \<Rightarrow> 'a packet_buffer" where
  "extend_last s idx =
     (if compare_less_wrap (pb_last s) ((idx + 1) AND 0xffff) 0xffff then s\<lparr>pb_last := (idx + 1) AND 0xffff\<rparr> else s)"

text \<open>
  The loops of \<^verbatim>\<open>remove\<close> that look for the next element after the first and before the last; the second
  one may pass zero.
\<close>

fun skip_up :: "'a packet_buffer \<Rightarrow> nat \<Rightarrow> int \<Rightarrow> int" where
  "skip_up s 0 i = i"
| "skip_up s (Suc n) i = (if pb_storage s ! slot (pb_capacity s) i \<noteq> None then i else skip_up s n (i + 1))"

fun skip_down :: "'a packet_buffer \<Rightarrow> nat \<Rightarrow> int \<Rightarrow> int" where
  "skip_down s 0 i = i"
| "skip_down s (Suc n) i =
     (if pb_storage s ! slot (pb_capacity s) i \<noteq> None then i else skip_down s n (take_bit 32 (i - 1)))"

definition trim_first :: "'a packet_buffer \<Rightarrow> int \<Rightarrow> 'a packet_buffer" where
  "trim_first s idx =
     (if idx = pb_first s \<and> pb_size s \<noteq> 0
      then s\<lparr>pb_first := skip_up s (pb_capacity s) (pb_first s + 1) AND 0xffff\<rparr> else s)"

definition trim_last :: "'a packet_buffer \<Rightarrow> int \<Rightarrow> 'a packet_buffer" where
  "trim_last s idx =
     (if (idx + 1) AND 0xffff = pb_last s \<and> pb_size s \<noteq> 0
      then s\<lparr>pb_last := (skip_down s (pb_capacity s) (take_bit 32 (pb_last s - 1)) + 1) AND 0xffff\<rparr> else s)"

definition pb_remove :: "'a packet_buffer \<Rightarrow> int \<Rightarrow> 'a option \<times> 'a packet_buffer" where
  "pb_remove s idx =
     (if idx \<ge> pb_first s + int (pb_capacity s) then (None, s)
      else if compare_less_wrap idx (pb_first s) 0xffff then (None, s)
      else
        let i = slot (pb_capacity s) idx;
            old_value = pb_storage s ! i;
            s = s\<lparr>pb_storage := (pb_storage s)[i := None]\<rparr>;
            s = (if old_value \<noteq> None then s\<lparr>pb_size := pb_size s - 1\<rparr> else s);
            s = (if old_value \<noteq> None \<and> pb_size s = 0 then s\<lparr>pb_last := pb_first s\<rparr> else s)
        in (old_value, trim_last (trim_first s idx) idx))"

definition pb_store :: "'a packet_buffer \<Rightarrow> int \<Rightarrow> 'a option \<Rightarrow> 'a option \<times> 'a packet_buffer" where
  "pb_store s idx value =
     (let i = slot (pb_capacity s) idx;
          old_value = pb_storage s ! i;
          s = s\<lparr>pb_storage := (pb_storage s)[i := value]\<rparr>;
          s = (if pb_size s = 0 then s\<lparr>pb_first := idx\<rparr> else s);
          s = (if old_value = None then s\<lparr>pb_size := pb_size s + 1\<rparr> else s)
      in (old_value, s))"

definition pb_insert :: "'a packet_buffer \<Rightarrow> int \<Rightarrow> 'a option \<Rightarrow> 'a option \<times> 'a packet_buffer" where
  "pb_insert s idx value =
     (if value = None then pb_remove s idx
      else
        let s = (if pb_size s \<noteq> 0 then extend_last (make_room s idx) idx
                 else s\<lparr>pb_first := idx, pb_last := (idx + 1) AND 0xffff\<rparr>);
            s = (if pb_capacity s = 0 then reserve s 16 else s)
        in pb_store s idx value)"

definition pb_at :: "'a packet_buffer \<Rightarrow> int \<Rightarrow> 'a option" where
  "pb_at s idx =
     (if idx \<ge> pb_first s + int (pb_capacity s) then None
      else if compare_less_wrap idx (pb_first s) 0xffff then None
      else pb_storage s ! slot (pb_capacity s) idx)"

subsection \<open>Masks and slots\<close>

lemma and_ffff: "x AND 0xffff = x mod 65536" for x :: int
proof -
  have "x AND mask 16 = x mod 2 ^ 16" by (simp flip: take_bit_eq_mask add: take_bit_eq_mod)
  moreover have "mask 16 = (0xffff :: int)" by (simp add: mask_eq_exp_minus_1)
  ultimately show ?thesis by simp
qed

lemma take32_ffff: "take_bit 32 x AND 0xffff = x mod 65536" for x :: int
  by (simp add: and_ffff take_bit_eq_mod mod_mod_cancel)

lemma compare_less_wrap_iff: "compare_less_wrap a b 0xffff \<longleftrightarrow> (b - a) mod 65536 < (a - b) mod 65536"
  by (simp add: compare_less_wrap_def Let_def take32_ffff)

lemma span_mod: "span s = (pb_last s - pb_first s) mod 65536"
  by (simp add: span_def take32_ffff)

definition pow2 :: "nat \<Rightarrow> bool" where
  "pow2 n \<longleftrightarrow> (\<exists>k. n = 2 ^ k)"

lemma pow2_pos: "pow2 n \<Longrightarrow> 0 < n"
  by (auto simp: pow2_def)

lemma pow2_dvd: "pow2 n \<Longrightarrow> n \<le> 65536 \<Longrightarrow> int n dvd 65536"
proof -
  assume "pow2 n" "n \<le> 65536"
  then obtain k where k: "n = 2 ^ k" by (auto simp: pow2_def)
  then have "(2::nat) ^ k \<le> 2 ^ 16" using \<open>n \<le> 65536\<close> by simp
  then have "k \<le> 16" by (rule power_le_imp_le_exp [rotated]) simp
  then have "(2::int) ^ k dvd 2 ^ 16" by (rule le_imp_power_dvd)
  then show ?thesis using k by simp
qed

lemma slot_mod:
  assumes "pow2 n"
  shows "slot n i = nat (i mod int n)"
proof -
  obtain k where k: "n = 2 ^ k" using assms by (auto simp: pow2_def)
  then have "int n - 1 = mask k" by (simp add: mask_eq_exp_minus_1)
  then show ?thesis unfolding slot_def using k by (simp flip: take_bit_eq_mask add: take_bit_eq_mod)
qed

lemma slot_less: "pow2 n \<Longrightarrow> slot n i < n"
  by (simp add: slot_mod pow2_pos nat_less_iff)

lemma slot_cong: "pow2 n \<Longrightarrow> i mod int n = j mod int n \<Longrightarrow> slot n i = slot n j"
  by (simp add: slot_mod)

lemma slot_period: "pow2 n \<Longrightarrow> slot n (i + int n) = slot n i"
  by (simp add: slot_mod)

lemma slot_wrap:
  assumes "pow2 n" "n \<le> 65536"
  shows "slot n (i mod 65536) = slot n i" "slot n (f + (i - f) mod 65536) = slot n i" "slot n (take_bit 32 i) = slot n i"
proof -
  have d: "int n dvd 65536" by (rule pow2_dvd [OF assms])
  then have "int n dvd 2 ^ 32" by (rule dvd_trans) simp
  then show "slot n (take_bit 32 i) = slot n i"
    by (intro slot_cong [OF assms(1)]) (simp add: take_bit_eq_mod mod_mod_cancel)
  show "slot n (i mod 65536) = slot n i"
    using d by (intro slot_cong [OF assms(1)]) (simp add: mod_mod_cancel)
  have "(f + (i - f) mod 65536) mod int n = (f + (i - f) mod 65536 mod int n) mod int n" by (simp add: mod_simps)
  also have "\<dots> = (f + (i - f)) mod int n" using d by (simp add: mod_mod_cancel mod_simps)
  finally show "slot n (f + (i - f) mod 65536) = slot n i" by (intro slot_cong [OF assms(1)]) simp
qed

lemma slot_inj:
  assumes "pow2 n" "j < n" "j' < n" "slot n (f + int j) = slot n (f + int j')"
  shows "j = j'"
proof -
  have "(f + int j) mod int n = (f + int j') mod int n"
    using assms(1,4) pow2_pos [OF assms(1)] by (simp add: slot_mod eq_nat_nat_iff)
  then have "int n dvd int j - int j'" by (simp add: mod_eq_dvd_iff)
  then show ?thesis
    using assms(2,3) by (metis abs_of_nat dvd_imp_le_int int_ops(6) linorder_not_le mod_eq_dvd_iff mod_less of_nat_eq_iff zmod_int)
qed

text \<open>The slots in the order of the indices they stand for, from the first index on.\<close>

definition rot :: "nat \<Rightarrow> int \<Rightarrow> 'b list \<Rightarrow> 'b list" where
  "rot n f st = map (\<lambda>j. st ! slot n (f + int j)) [0..<n]"

lemma length_rot [simp]: "length (rot n f st) = n"
  by (simp add: rot_def)

lemma nth_rot [simp]: "j < n \<Longrightarrow> rot n f st ! j = st ! slot n (f + int j)"
  by (simp add: rot_def)

lemma rot_rotate:
  assumes "pow2 n" "length st = n"
  shows "rot n f st = rotate (nat (f mod int n)) st"
proof (rule nth_equalityI)
  fix j assume "j < length (rot n f st)"
  then have j: "j < n" by simp
  have n: "0 < int n" using pow2_pos [OF assms(1)] by simp
  have "slot n (f + int j) = nat ((f mod int n + int j) mod int n)"
    by (simp add: slot_mod assms(1) mod_simps)
  also have "\<dots> = (nat (f mod int n) + j) mod n"
    using n by (simp add: nat_mod_distrib nat_add_distrib)
  finally show "rot n f st ! j = rotate (nat (f mod int n)) st ! j"
    using j assms(2) by (simp add: nth_rotate)
qed (use assms(2) in simp)

lemma rot_filter_length:
  assumes "pow2 n" "length st = n"
  shows "length (filter P (rot n f st)) = length (filter P st)"
proof -
  have "mset (rotate1 xs) = mset xs" for xs :: "'a list" by (cases xs) simp_all
  then have "mset (rotate m st) = mset st" for m by (induction m) simp_all
  then have "mset (filter P (rot n f st)) = mset (filter P st)"
    by (simp add: rot_rotate [OF assms] mset_filter)
  then show ?thesis by (metis size_mset)
qed

lemma rot_update:
  assumes "pow2 n" "length st = n" "j < n"
  shows "rot n f (st[slot n (f + int j) := v]) = (rot n f st)[j := v]"
proof (rule nth_equalityI)
  fix i assume "i < length (rot n f (st[slot n (f + int j) := v]))"
  then have i: "i < n" by simp
  show "rot n f (st[slot n (f + int j) := v]) ! i = (rot n f st)[j := v] ! i"
    using i assms slot_less [OF assms(1)] slot_inj [OF assms(1) i assms(3), of f]
    by (cases "i = j") (auto simp: nth_list_update)
qed simp

lemma rot_back:
  assumes "pow2 n" "length st = n" "d \<le> n"
  shows "rot n (f - int d) st = drop (n - d) (rot n f st) @ take (n - d) (rot n f st)"
proof (rule nth_equalityI)
  fix j assume "j < length (rot n (f - int d) st)"
  then have j: "j < n" by simp
  have "f + int (n - d + j) = f - int d + int j + int n" using assms(3) by simp
  then have "slot n (f - int d + int j) = slot n (f + int (n - d + j))"
    using slot_period [OF assms(1)] by metis
  then show "rot n (f - int d) st ! j = (drop (n - d) (rot n f st) @ take (n - d) (rot n f st)) ! j"
    using j assms(3) by (auto simp: nth_append of_nat_diff algebra_simps)
qed (use assms(3) in simp)

subsection \<open>The window\<close>

definition window :: "'a packet_buffer \<Rightarrow> 'a option list" where
  "window s = rot (pb_capacity s) (pb_first s) (pb_storage s)"

abbreviation occupied :: "'a option list \<Rightarrow> nat" where
  "occupied w \<equiv> length (filter (\<lambda>p. p \<noteq> None) w)"

text \<open>A window of elements: the first \<open>p\<close> slots are in use, with an element in the first and the last of them.\<close>

definition tight :: "'a option list \<Rightarrow> nat \<Rightarrow> bool" where
  "tight w p \<longleftrightarrow> 0 < p \<and> p \<le> length w \<and> w ! 0 \<noteq> None \<and> w ! (p - 1) \<noteq> None \<and> (\<forall>j. p \<le> j \<longrightarrow> j < length w \<longrightarrow> w ! j = None)"

definition shape :: "'a packet_buffer \<Rightarrow> bool" where
  "shape s \<longleftrightarrow> length (pb_storage s) = pb_capacity s \<and> 0 \<le> pb_first s \<and> pb_first s < 65536 \<and> 0 \<le> pb_last s \<and> pb_last s < 65536
     \<and> (pb_capacity s = 0 \<or> pow2 (pb_capacity s) \<and> 16 \<le> pb_capacity s \<and> pb_capacity s \<le> 32768)"

definition pb_inv :: "'a packet_buffer \<Rightarrow> bool" where
  "pb_inv s \<longleftrightarrow> shape s \<and> (pb_capacity s = 0 \<longrightarrow> pb_first s = 0) \<and> pb_size s = occupied (window s)
     \<and> (pb_size s = 0 \<or> tight (window s) (nat (span s)))"

lemma new_capacity_facts:
  assumes "pow2 c"
  shows "pow2 (new_capacity c n) \<and> n \<le> new_capacity c n \<and> c \<le> new_capacity c n
    \<and> (c \<le> 32768 \<longrightarrow> n \<le> 32768 \<longrightarrow> new_capacity c n \<le> 32768)"
  using assms
proof (induction c n rule: new_capacity.induct)
  case (1 c n)
  show ?case
  proof (cases "c < n")
    case True
    have c: "0 < c" "pow2 (2 * c)" using "1.prems" by (auto simp: pow2_def intro: exI [of _ "Suc _"])
    have "2 * c \<le> 32768" if "n \<le> 32768"
    proof -
      obtain k where k: "c = 2 ^ k" using "1.prems" by (auto simp: pow2_def)
      have "(2::nat) ^ k < 2 ^ 15" using k True that by simp
      then have "Suc k \<le> 15" using power_less_imp_less_exp [of "2::nat" k 15] by simp
      then have "(2::nat) ^ Suc k \<le> 2 ^ 15" by (intro power_increasing) auto
      then show ?thesis using k by simp
    qed
    then show ?thesis using "1.IH" c True by (auto simp: new_capacity.simps [of c n])
  next
    case False
    then show ?thesis using "1.prems" by (simp add: new_capacity.simps [of c n])
  qed
qed

lemma rot_fold:
  assumes "pow2 n"
  shows "length st = n \<Longrightarrow> set js \<subseteq> {..<n} \<Longrightarrow>
    rot n f (fold (\<lambda>j st. st[slot n (f + int j) := g j]) js st) = fold (\<lambda>j w. w[j := g j]) js (rot n f st)
    \<and> length (fold (\<lambda>j st. st[slot n (f + int j) := g j]) js st) = n"
proof (induction js arbitrary: st)
  case (Cons j js)
  then show ?case using rot_update [OF assms, of st j f "g j"] by simp
qed simp

lemma fold_list_update: "c \<le> n \<Longrightarrow> fold (\<lambda>j w. w[j := g j]) [0..<c] (replicate n x) = map g [0..<c] @ replicate (n - c) x"
proof (induction c)
  case (Suc c)
  then have "replicate (n - c) x = x # replicate (n - Suc c) x" by (simp flip: replicate_Suc add: Suc_diff_Suc)
  then show ?case using Suc by (simp add: list_update_append)
qed simp

lemma reserve_window:
  fixes s :: "'a packet_buffer"
  assumes "shape s" "n \<le> 32768"
  defines "c \<equiv> pb_capacity (reserve s n)"
  shows "window (reserve s n) = window s @ replicate (c - pb_capacity s) None"
    "pow2 c" "16 \<le> c" "c \<le> 32768" "n \<le> c" "pb_capacity s \<le> c" "length (pb_storage (reserve s n)) = c"
    "pb_size (reserve s n) = pb_size s" "pb_first (reserve s n) = pb_first s" "pb_last (reserve s n) = pb_last s"
proof -
  let ?c0 = "if pb_capacity s = 0 then 16 else pb_capacity s"
  have c: "c = new_capacity ?c0 n" by (simp add: c_def reserve_def Let_def)
  have "pow2 16" unfolding pow2_def by (intro exI [of _ 4]) simp
  then have "pow2 ?c0" "16 \<le> ?c0" "?c0 \<le> 32768" using assms(1) by (auto simp: shape_def)
  then show cs: "pow2 c" "16 \<le> c" "c \<le> 32768" "n \<le> c" "pb_capacity s \<le> c"
    using new_capacity_facts [of ?c0 n] assms(2) c by (auto split: if_splits)
  let ?g = "\<lambda>j. pb_storage s ! slot (pb_capacity s) (pb_first s + int j)"
  have st: "pb_storage (reserve s n) = fold (\<lambda>j st. st[slot c (pb_first s + int j) := ?g j]) [0..<pb_capacity s] (replicate c None)"
    by (simp add: reserve_def Let_def copy_slots_def c)
  have r: "rot c (pb_first s) (pb_storage (reserve s n)) =
      fold (\<lambda>j w. w[j := ?g j]) [0..<pb_capacity s] (rot c (pb_first s) (replicate c None))"
    and l: "length (pb_storage (reserve s n)) = c"
    using rot_fold [OF cs(1), of "replicate c None" "[0..<pb_capacity s]" "pb_first s" ?g] cs(5) unfolding st
    by (auto simp: subset_iff)
  show "length (pb_storage (reserve s n)) = c" by (rule l)
  have "rot c (pb_first s) (replicate c (None :: 'a option)) = replicate c None"
    using slot_less [OF cs(1)] by (intro nth_equalityI) simp_all
  then have "rot c (pb_first s) (pb_storage (reserve s n)) = map ?g [0..<pb_capacity s] @ replicate (c - pb_capacity s) None"
    using r fold_list_update [OF cs(5)] by simp
  then show "window (reserve s n) = window s @ replicate (c - pb_capacity s) None"
    by (simp add: window_def rot_def reserve_def Let_def c)
  show "pb_size (reserve s n) = pb_size s" "pb_first (reserve s n) = pb_first s" "pb_last (reserve s n) = pb_last s"
    by (simp_all add: reserve_def Let_def)
qed

lemma free_loop_run:
  assumes "pow2 (pb_capacity s)" "tight (window s) p" "p \<le> Suc j" "j < pb_capacity s" "Suc j - p < n"
  shows "free_loop s n (slot (pb_capacity s) (pb_first s + int j)) = Suc j - p"
  using assms
proof (induction n arbitrary: j)
  case (Suc n)
  let ?i = "slot (pb_capacity s) (pb_first s + int j)"
  have w: "pb_storage s ! ?i = window s ! j" using Suc.prems(4) by (simp add: window_def)
  show ?case
  proof (cases "Suc j = p")
    case True
    then have "window s ! j \<noteq> None" using Suc.prems(2) by (auto simp: tight_def)
    then show ?thesis using w True by simp
  next
    case False
    have p: "p \<le> j" "0 < p" "p \<le> length (window s)" using Suc.prems(2,3) False by (auto simp: tight_def)
    then have none: "window s ! j = None" using Suc.prems(2,4) by (auto simp: tight_def window_def)
    have "?i \<noteq> slot (pb_capacity s) (pb_first s)"
      using slot_inj [OF Suc.prems(1,4), of 0 "pb_first s"] p pow2_pos [OF Suc.prems(1)] by auto
    moreover have "slot (pb_capacity s) (int ?i - 1) = slot (pb_capacity s) (pb_first s + int (j - 1))"
    proof (rule slot_cong [OF Suc.prems(1)])
      have "int ?i = (pb_first s + int j) mod int (pb_capacity s)"
        using pow2_pos [OF Suc.prems(1)] by (simp add: slot_mod [OF Suc.prems(1)])
      then show "(int ?i - 1) mod int (pb_capacity s) = (pb_first s + int (j - 1)) mod int (pb_capacity s)"
        using p by (simp add: mod_simps of_nat_diff algebra_simps)
    qed
    moreover have "free_loop s n (slot (pb_capacity s) (pb_first s + int (j - 1))) = Suc (j - 1) - p"
      using Suc.prems p by (intro Suc.IH) auto
    ultimately show ?thesis using w none p by simp
  qed
qed simp

lemma free_space_tight:
  assumes "pow2 (pb_capacity s)" "tight (window s) p"
  shows "free_space s = pb_capacity s - p"
proof -
  let ?n = "pb_capacity s"
  have n: "0 < ?n" "0 < p" "p \<le> ?n" using pow2_pos [OF assms(1)] assms(2) by (auto simp: tight_def window_def)
  have "pb_first s + int (?n - 1) = pb_first s - 1 + int ?n" using n by simp
  then have "slot ?n (pb_first s - 1) = slot ?n (pb_first s + int (?n - 1))"
    using slot_period [OF assms(1)] by metis
  then show ?thesis
    using free_loop_run [OF assms, of "?n - 1" ?n] n by (simp add: free_space_def)
qed

end
