(* ===== verification/Packet_Map.thy ===== *)
theory Packet_Map
  imports Packet_Buffer
begin

text \<open>
  The packet buffer refines a map from 16-bit sequence numbers to packets, as long as the indices in it
  span at most half of the index space and none of them falls into a gap that the code does not handle.
\<close>

subsection \<open>The map that the buffer stands for\<close>

definition ahead :: "'a packet_buffer \<Rightarrow> int \<Rightarrow> nat" where
  "ahead s idx = nat ((idx - pb_first s) mod 65536)"

definition contents :: "'a packet_buffer \<Rightarrow> int \<Rightarrow> 'a option" where
  "contents s idx =
     (if 0 \<le> idx \<and> idx < 65536 \<and> ahead s idx < pb_capacity s then pb_storage s ! slot (pb_capacity s) idx else None)"

lemma mod16: "- 65536 \<le> x \<Longrightarrow> x < 65536 \<Longrightarrow> x mod 65536 = (if x < 0 then x + 65536 else x)" for x :: int
proof (cases "x < 0")
  case True
  moreover assume "- 65536 \<le> x" "x < 65536"
  ultimately have "(x + 65536) mod 65536 = x + 65536" by (intro mod_pos_pos_trivial) auto
  then show ?thesis using True by simp
qed simp

lemma ahead_bound: "ahead s idx < 65536"
  by (simp add: ahead_def nat_less_iff)

lemma slot_ahead:
  assumes "pow2 (pb_capacity s)" "pb_capacity s \<le> 65536"
  shows "slot (pb_capacity s) (pb_first s + int (ahead s idx)) = slot (pb_capacity s) idx"
  using slot_wrap(2) [OF assms, of "pb_first s" idx] by (simp add: ahead_def)

lemma contents_window:
  assumes "shape s" "0 \<le> idx" "idx < 65536"
  shows "contents s idx = (if ahead s idx < pb_capacity s then window s ! ahead s idx else None)"
  using assms slot_ahead [of s idx] by (auto simp: contents_def window_def shape_def)

lemma contents_tight:
  assumes "shape s" "0 \<le> idx" "idx < 65536" "tight (window s) p"
  shows "contents s idx = (if ahead s idx < p then window s ! ahead s idx else None)"
  using assms(4) by (auto simp: contents_window [OF assms(1-3)] tight_def window_def)

lemma window_store:
  assumes "shape s" "ahead s idx < pb_capacity s"
  shows "window (s\<lparr>pb_storage := (pb_storage s)[slot (pb_capacity s) idx := v]\<rparr>) = (window s)[ahead s idx := v]"
proof -
  have c: "pow2 (pb_capacity s)" "pb_capacity s \<le> 65536" using assms by (auto simp: shape_def)
  then have "slot (pb_capacity s) idx = slot (pb_capacity s) (pb_first s + int (ahead s idx))"
    using slot_ahead by metis
  then show ?thesis
    using rot_update [OF c(1) _ assms(2), of "pb_storage s" "pb_first s" v] assms(1) by (simp add: window_def shape_def)
qed

text \<open>Indices that \<^verbatim>\<open>at\<close> and \<^verbatim>\<open>remove\<close> take for others, and those that \<^verbatim>\<open>insert\<close> makes no room for.\<close>

definition aliased :: "'a packet_buffer \<Rightarrow> int \<Rightarrow> bool" where
  "aliased s idx \<longleftrightarrow> idx < pb_first s \<and> pb_capacity s \<le> ahead s idx \<and> ahead s idx \<le> 32768"

definition unroomy :: "'a packet_buffer \<Rightarrow> int \<Rightarrow> bool" where
  "unroomy s idx \<longleftrightarrow> idx < pb_first s \<and> pb_first s + int (pb_capacity s) < 65536"

text \<open>The indices that may be inserted: the span stays within half of the index space.\<close>

definition near :: "'a packet_buffer \<Rightarrow> int \<Rightarrow> bool" where
  "near s idx \<longleftrightarrow> 0 \<le> idx \<and> idx < 65536 \<and>
     (pb_size s = 0 \<or> ahead s idx < 32768 \<and> \<not> unroomy s idx
        \<or> (pb_first s - idx) mod 65536 + span s \<le> 32768)"

lemma ahead_cases:
  assumes "shape s" "0 \<le> idx" "idx < 65536"
  shows "int (ahead s idx) = (if idx < pb_first s then idx - pb_first s + 65536 else idx - pb_first s)"
    "compare_less_wrap idx (pb_first s) 0xffff \<longleftrightarrow> 32768 < ahead s idx"
proof -
  have f: "0 \<le> pb_first s" "pb_first s < 65536" using assms(1) by (auto simp: shape_def)
  have d: "(idx - pb_first s) mod 65536 = (if idx < pb_first s then idx - pb_first s + 65536 else idx - pb_first s)"
    "(pb_first s - idx) mod 65536 = (if pb_first s < idx then pb_first s - idx + 65536 else pb_first s - idx)"
    using assms f by (simp_all add: mod16)
  show "int (ahead s idx) = (if idx < pb_first s then idx - pb_first s + 65536 else idx - pb_first s)"
    using d(1) f assms(2) by (simp add: ahead_def)
  then show "compare_less_wrap idx (pb_first s) 0xffff \<longleftrightarrow> 32768 < ahead s idx"
    unfolding compare_less_wrap_iff d by (cases idx "pb_first s" rule: linorder_cases) auto
qed

lemma inv_None: "pb_inv s \<Longrightarrow> pb_size s = 0 \<Longrightarrow> j < pb_capacity s \<Longrightarrow> window s ! j = None"
  using nth_mem [of j "window s"] by (auto simp: pb_inv_def filter_empty_conv window_def simp del: nth_rot)

lemma pb_at_contents:
  assumes "pb_inv s" "0 \<le> idx" "idx < 65536" "\<not> aliased s idx"
  shows "pb_at s idx = contents s idx"
proof -
  have sh: "shape s" using assms(1) by (simp add: pb_inv_def)
  note a = ahead_cases [OF sh assms(2,3)]
  have cap: "pb_capacity s \<le> 32768" using sh by (auto simp: shape_def)
  show ?thesis
  proof (cases "idx \<ge> pb_first s + int (pb_capacity s) \<or> 32768 < ahead s idx")
    case True
    then have "\<not> ahead s idx < pb_capacity s" using a(1) cap by (auto split: if_splits)
    then show ?thesis using True a(2) by (auto simp: pb_at_def contents_def)
  next
    case False
    then have "ahead s idx < pb_capacity s" using assms(4) a(1) by (auto simp: aliased_def split: if_splits)
    then show ?thesis using False a(2) assms(2,3) by (simp add: pb_at_def contents_def)
  qed
qed

subsection \<open>Insertion\<close>

text \<open>
  What making room for an index has to achieve: the index is inside the window, the contents are
  the same, and with an element at the index the window is tight again.
\<close>

definition roomy :: "'a packet_buffer \<Rightarrow> 'a packet_buffer \<Rightarrow> int \<Rightarrow> bool" where
  "roomy s s' idx \<longleftrightarrow> shape s' \<and> pb_capacity s' \<noteq> 0 \<and> ahead s' idx < pb_capacity s' \<and> contents s' = contents s
     \<and> occupied (window s') = occupied (window s) \<and> pb_size s' = pb_size s
     \<and> (\<forall>v. tight ((window s')[ahead s' idx := Some v]) (nat (span s')))"

lemma tight_append: "tight w p \<Longrightarrow> tight (w @ replicate k None) p"
  by (auto simp: tight_def nth_append)

lemma tight_store: "tight w p \<Longrightarrow> d < length w \<Longrightarrow> tight (w[d := Some v]) (max p (Suc d))"
  by (cases "p \<le> d") (auto simp: tight_def nth_list_update max_def)

lemma tight_front:
  assumes "tight w p" "p \<le> n" "n \<le> length w" "0 < d"
  shows "tight ((replicate d None @ take n w)[0 := Some v]) (d + p)"
proof -
  let ?u = "(replicate d None @ take n w)[0 := Some v]"
  have u: "?u ! j = w ! (j - d)" if "d \<le> j" "j < d + n" for j
    using that assms(3,4) by (simp add: nth_list_update nth_append)
  have l: "length ?u = d + n" using assms(3) by simp
  have p: "0 < p" "w ! (p - 1) \<noteq> None" "\<And>j. p \<le> j \<Longrightarrow> j < length w \<Longrightarrow> w ! j = None" using assms(1) by (auto simp: tight_def)
  have "?u ! (d + p - 1) = w ! (p - 1)" using u [of "d + p - 1"] p(1) assms(2) by simp
  moreover have "?u ! j = None" if "d + p \<le> j" "j < d + n" for j
    using u [of j] p(3) [of "j - d"] that assms(3) by simp
  moreover have "?u ! 0 = Some v" using assms(4) by simp
  ultimately show ?thesis unfolding tight_def l using p(1,2) assms(2) by simp
qed

lemma span_extend:
  fixes f l idx :: int
  defines "p \<equiv> (l - f) mod 65536" and "d \<equiv> (idx - f) mod 65536"
  assumes "0 < p" "p \<le> 32768" "d < 32768"
  shows "((if compare_less_wrap l ((idx + 1) AND 0xffff) 0xffff then (idx + 1) AND 0xffff else l) - f) mod 65536 = max p (d + 1)"
proof -
  have d0: "0 \<le> d" by (simp add: d_def)
  have e: "idx = f + d + 65536 * ((idx - f) div 65536)" "l = f + p + 65536 * ((l - f) div 65536)"
    unfolding d_def p_def by (simp_all add: algebra_simps flip: minus_mult_div_eq_mod)
  let ?k = "(idx - f) div 65536 - (l - f) div 65536"
  have "idx + 1 - l = d + 1 - p + 65536 * ?k" "l - (idx + 1) = p - (d + 1) + 65536 * (- ?k)"
    "idx + 1 - f = d + 1 + 65536 * ((idx - f) div 65536)"
    using e by (auto simp: algebra_simps)
  then have "(idx + 1 - l) mod 65536 = (d + 1 - p) mod 65536" "(l - (idx + 1)) mod 65536 = (p - (d + 1)) mod 65536"
    "(idx + 1 - f) mod 65536 = (d + 1) mod 65536"
    by (simp_all only: mod_mult_self2)
  then have m: "((idx + 1) mod 65536 - l) mod 65536 = (d + 1 - p) mod 65536" "(l - (idx + 1) mod 65536) mod 65536 = (p - (d + 1)) mod 65536"
    "((idx + 1) mod 65536 - f) mod 65536 = (d + 1) mod 65536"
    by (simp_all only: mod_diff_left_eq mod_diff_right_eq)
  have "compare_less_wrap l ((idx + 1) AND 0xffff) 0xffff \<longleftrightarrow> (d + 1 - p) mod 65536 < (p - (d + 1)) mod 65536"
    by (simp only: compare_less_wrap_iff and_ffff m)
  also have "\<dots> \<longleftrightarrow> p < d + 1"
    using mod16 [of "d + 1 - p"] mod16 [of "p - (d + 1)"] assms(3-5) d0 by simp
  finally have less: "compare_less_wrap l ((idx + 1) AND 0xffff) 0xffff \<longleftrightarrow> p < d + 1" .
  have "(d + 1) mod 65536 = d + 1" using assms(5) d0 by simp
  then have "((if p < d + 1 then (idx + 1) mod 65536 else l) - f) mod 65536 = max p (d + 1)"
    using m(3) p_def by (cases "p < d + 1") (simp_all add: max_def)
  then show ?thesis using less by (simp only: and_ffff)
qed

lemma extend_last_span:
  assumes "0 < span s" "span s \<le> 32768" "ahead s idx < 32768"
  shows "span (extend_last s idx) = max (span s) (int (ahead s idx) + 1)"
proof -
  have a: "int (ahead s idx) = (idx - pb_first s) mod 65536" by (simp add: ahead_def)
  have "span (extend_last s idx) =
      ((if compare_less_wrap (pb_last s) ((idx + 1) AND 0xffff) 0xffff then (idx + 1) AND 0xffff else pb_last s) - pb_first s) mod 65536"
    by (simp add: span_mod extend_last_def)
  also have "\<dots> = max ((pb_last s - pb_first s) mod 65536) ((idx - pb_first s) mod 65536 + 1)"
    using assms a by (intro span_extend) (auto simp: span_mod)
  finally show ?thesis by (simp add: a span_mod)
qed

lemma rot_wrap:
  assumes "pow2 n" "n \<le> 65536"
  shows "rot n (x mod 65536) st = rot n x st"
proof -
  have "slot n (x mod 65536 + int j) = slot n (x + int j)" for j
    by (rule slot_cong [OF assms(1) mod_add_cong [OF mod_mod_cancel [OF pow2_dvd [OF assms]] refl]])
  then show ?thesis by (simp add: rot_def)
qed

lemma roomier:
  assumes "shape s" "s1 = s \<or> (\<exists>n \<le> 32768. s1 = reserve s n)"
  obtains k where "window s1 = window s @ replicate k None" "shape s1" "pb_first s1 = pb_first s" "pb_last s1 = pb_last s"
    "pb_size s1 = pb_size s"
  using assms(2)
proof (elim disjE exE conjE)
  assume "s1 = s"
  then show ?thesis using that [of 0] assms(1) by simp
next
  fix n assume "n \<le> 32768" "s1 = reserve s n"
  then show ?thesis using that reserve_window [OF assms(1)] assms(1) by (auto simp: shape_def)
qed

lemma roomy_forward:
  assumes "pb_inv s" "pb_size s \<noteq> 0" "0 \<le> idx" "idx < 65536" "ahead s idx < 32768"
    "s1 = s \<or> (\<exists>n \<le> 32768. s1 = reserve s n)" "ahead s idx < pb_capacity s1"
  shows "roomy s (extend_last s1 idx) idx"
proof -
  let ?p = "nat (span s)" and ?d = "ahead s idx" and ?s = "extend_last s1 idx"
  have sh: "shape s" and t: "tight (window s) ?p" and cnt: "pb_size s = occupied (window s)"
    using assms(1,2) by (auto simp: pb_inv_def)
  obtain k where w: "window s1 = window s @ replicate k None" and sh1: "shape s1" "pb_first s1 = pb_first s" "pb_last s1 = pb_last s" "pb_size s1 = pb_size s"
    by (rule roomier [OF sh assms(6)])
  have eq: "window ?s = window s1" "pb_first ?s = pb_first s" "pb_capacity ?s = pb_capacity s1" "pb_size ?s = pb_size s" "ahead ?s = ahead s"
    using sh1 by (auto simp: extend_last_def window_def ahead_def fun_eq_iff)
  have f: "0 \<le> pb_first s" "pb_first s < 65536" "0 \<le> pb_last s" "pb_last s < 65536" using sh by (auto simp: shape_def)
  have shs: "shape ?s" using sh1(1) by (auto simp: extend_last_def shape_def and_ffff)
  have p: "0 < ?p" "?p \<le> 32768" using t sh by (auto simp: tight_def window_def shape_def)
  have "span s1 = span s" "ahead s1 idx = ?d" using sh1 by (simp_all add: span_mod ahead_def)
  then have "span ?s = max (span s) (int ?d + 1)"
    using extend_last_span [of s1 idx] p assms(5) by simp
  then have sp: "nat (span ?s) = max ?p (Suc ?d)" by (auto simp: max_def nat_le_iff)
  have "tight ((window ?s)[ahead ?s idx := Some v]) (nat (span ?s))" for v
  proof -
    have "tight (window s1) ?p" using t w tight_append by metis
    then show ?thesis
      unfolding sp eq(1,5) using assms(7) by (intro tight_store) (simp_all add: window_def)
  qed
  moreover have "contents ?s idx' = contents s idx'" for idx'
  proof (cases "0 \<le> idx' \<and> idx' < 65536")
    case True
    have l: "length (window s) = pb_capacity s" "length (window s1) = pb_capacity s1" by (simp_all add: window_def)
    have "pb_capacity s \<le> pb_capacity s1" using w l by (metis le_add1 length_append)
    moreover have "window s1 ! ahead s idx' = None" if "\<not> ahead s idx' < pb_capacity s" "ahead s idx' < pb_capacity s1"
      using that l unfolding w by (simp add: nth_append)
    moreover have "window s1 ! ahead s idx' = window s ! ahead s idx'" if "ahead s idx' < pb_capacity s"
      using that l(1) unfolding w by (simp add: nth_append)
    ultimately show ?thesis
      unfolding contents_window [OF sh conjunct1 [OF True] conjunct2 [OF True]]
        contents_window [OF shs conjunct1 [OF True] conjunct2 [OF True]] eq by simp
  qed (auto simp: contents_def)
  moreover have "occupied (window ?s) = occupied (window s)" unfolding eq(1) w by simp
  ultimately show ?thesis
    unfolding roomy_def fun_eq_iff eq using shs assms(7) by simp
qed

lemma occupied_split: "occupied w = occupied (take k w) + occupied (drop k w)"
  by (metis append_take_drop_id filter_append length_append)

lemma roomy_backward:
  assumes "pb_inv s" "pb_size s \<noteq> 0" "0 \<le> idx" "idx < 65536" "D = nat ((pb_first s - idx) mod 65536)" "0 < D"
    "int D + span s \<le> 32768" "s1 = s \<or> (\<exists>n \<le> 32768. s1 = reserve s n)" "D + nat (span s) \<le> pb_capacity s1"
  shows "roomy s (extend_last (s1\<lparr>pb_first := idx\<rparr>) idx) idx"
proof -
  let ?p = "nat (span s)" and ?s = "s1\<lparr>pb_first := idx\<rparr>"
  have sh: "shape s" and t: "tight (window s) ?p" and cnt: "pb_size s = occupied (window s)"
    using assms(1,2) by (auto simp: pb_inv_def)
  obtain k where w: "window s1 = window s @ replicate k None" and sh1: "shape s1" "pb_first s1 = pb_first s" "pb_last s1 = pb_last s" "pb_size s1 = pb_size s"
    by (rule roomier [OF sh assms(8)])
  have f: "0 \<le> pb_first s" "pb_first s < 65536" using sh by (auto simp: shape_def)
  have p: "0 < ?p" "0 < span s" "?p \<le> 32768" "?p \<le> length (window s)" using t sh by (auto simp: tight_def window_def shape_def)
  have cap: "pow2 (pb_capacity s1)" "pb_capacity s1 \<le> 65536" "length (pb_storage s1) = pb_capacity s1" "0 < pb_capacity s1"
    using sh1(1) p assms(9) by (auto simp: shape_def)
  have idx: "idx = (pb_first s - int D) mod 65536"
    unfolding assms(5) using assms(3,4) by (simp add: mod_simps)
  let ?n = "pb_capacity s1 - D"
  have "window ?s = rot (pb_capacity s1) (pb_first s - int D) (pb_storage s1)"
    unfolding window_def using rot_wrap [OF cap(1,2)] idx by simp
  also have "\<dots> = drop ?n (window s1) @ take ?n (window s1)"
    using rot_back [OF cap(1,3), of D "pb_first s"] assms(9) sh1(2) by (simp add: window_def)
  also have dr: "drop ?n (window s1) = replicate D None"
  proof -
    have "tight (window s1) ?p" using t w tight_append by metis
    moreover have "length (window s1) = pb_capacity s1" by (simp add: window_def)
    ultimately show ?thesis using assms(9) by (intro nth_equalityI) (auto simp: tight_def)
  qed
  finally have ws: "window ?s = replicate D None @ take ?n (window s1)" .
  have "span ?s = (span s + int D) mod 65536"
    unfolding span_mod idx using sh1(3) by (simp add: mod_simps algebra_simps)
  then have sp: "span ?s = int D + span s" using assms(7) p by simp
  let ?e = "extend_last ?s idx"
  have eq: "window ?e = window ?s" "pb_first ?e = idx" "pb_capacity ?e = pb_capacity s1" "pb_size ?e = pb_size s" "ahead ?e = ahead ?s"
    using sh1 by (auto simp: extend_last_def window_def ahead_def fun_eq_iff)
  have "span ?e = max (span ?s) 1"
    using extend_last_span [of ?s idx] sp p assms(7) by (simp add: ahead_def)
  then have spe: "nat (span ?e) = D + ?p" using sp p by auto
  have she: "shape ?e" using sh1(1) assms(3,4) p cap by (auto simp: extend_last_def shape_def and_ffff)
  have tw: "tight (window s1) ?p" using t w tight_append by metis
  have lw: "length (window s1) = pb_capacity s1" "length (window s) = pb_capacity s" by (simp_all add: window_def)
  have a0: "ahead ?e idx = 0" by (simp add: eq ahead_def)
  have "tight ((window ?e)[ahead ?e idx := Some v]) (nat (span ?e))" for v
    unfolding spe a0 eq(1) ws using tw assms(6,9) lw by (intro tight_front) auto
  moreover have "contents ?e i = contents s i" for i
  proof (cases "0 \<le> i \<and> i < 65536")
    case True
    have c: "contents s i = (if ahead s i < ?p then window s1 ! ahead s i else None)"
      using contents_tight [OF sh _ _ t, of i] True w p(4) by (auto simp: nth_append)
    have e: "contents ?e i = (if ahead ?e i < pb_capacity s1 then (replicate D None @ take ?n (window s1)) ! ahead ?e i else None)"
      using contents_window [OF she, of i] True eq(1,3) ws by simp
    have "int (ahead ?e i) = (int (ahead s i) + int D) mod 65536"
    proof -
      have "int (ahead ?e i) = (i - (pb_first s - int D) mod 65536) mod 65536"
        using eq(5) idx by (simp add: ahead_def)
      then show ?thesis by (simp add: ahead_def mod_simps algebra_simps)
    qed
    then have "ahead ?e i = (if ahead s i + D < 65536 then ahead s i + D else ahead s i + D - 65536)"
      using ahead_bound [of s i] assms(7) p(2) mod16 [of "int (ahead s i) + int D"] mod16 [of "int (ahead s i) + int D - 65536"]
      by auto
    moreover have "take ?n (window s1) ! ahead s i = window s1 ! ahead s i" "window s1 ! ahead s i = None \<or> ahead s i < ?p"
      if "ahead s i + D < pb_capacity s1"
      using that tw lw(1) by (auto simp: tight_def)
    ultimately show ?thesis
      unfolding c e using ahead_bound [of s i] assms(7,9) p by (auto simp: nth_append)
  qed (auto simp: contents_def)
  moreover have "occupied (window ?e) = occupied (window s)"
  proof -
    have "occupied (window s1) = occupied (window s)" unfolding w by simp
    then show ?thesis unfolding eq(1) ws using occupied_split [of "window s1" ?n] dr by simp
  qed
  ultimately show ?thesis
    unfolding roomy_def fun_eq_iff using she eq(3,4) cap(4) a0 by simp
qed

lemma make_room_roomy:
  assumes "pb_inv s" "pb_size s \<noteq> 0" "near s idx"
  shows "roomy s (extend_last (make_room s idx) idx) idx"
proof -
  have sh: "shape s" and t: "tight (window s) (nat (span s))" using assms(1,2) by (auto simp: pb_inv_def)
  have p: "0 < span s" "span s \<le> int (pb_capacity s)" using t by (auto simp: tight_def window_def)
  have idx: "0 \<le> idx" "idx < 65536" using assms(3) by (auto simp: near_def)
  have f: "0 \<le> pb_first s" "pb_first s < 65536" using sh by (simp_all add: shape_def)
  have cap: "pow2 (pb_capacity s)" "pb_capacity s \<le> 32768" using sh p by (auto simp: shape_def)
  note a = ahead_cases [OF sh idx]
  define D where "D = nat ((pb_first s - idx) mod 65536)"
  have D: "int D = (if idx \<le> pb_first s then pb_first s - idx else pb_first s - idx + 65536)"
    using f idx by (simp add: D_def mod16)
  show ?thesis
  proof (cases "32768 < ahead s idx")
    case True
    then have near: "int D + span s \<le> 32768" using assms(2,3) by (auto simp: near_def D_def)
    have free: "free_space s = pb_capacity s - nat (span s)" by (rule free_space_tight [OF cap(1) t])
    have "0 < D" using True a(1) D ahead_bound [of s idx] by (auto split: if_splits)
    moreover have "make_room s idx =
        (if D > free_space s then reserve s (D + pb_capacity s - free_space s) else s)\<lparr>pb_first := idx\<rparr>"
      using True a(2) by (simp add: make_room_def Let_def take32_ffff D_def)
    moreover have "D + pb_capacity s - free_space s = D + nat (span s)" using free p by simp
    moreover have "D + nat (span s) \<le> 32768" using near p by simp
    ultimately show ?thesis
      using roomy_backward [OF assms(1,2) idx D_def _ near] reserve_window(5) [OF sh, of "D + nat (span s)"] free
      by (cases "D > free_space s") auto
  next
    case False
    have "ahead s idx < 32768 \<and> \<not> unroomy s idx \<or> int D + span s \<le> 32768"
      using assms(2,3) by (simp add: near_def D_def)
    then have d: "ahead s idx < 32768" "\<not> unroomy s idx"
      using False a(1) D p by (auto simp: unroomy_def split: if_splits)
    define s1 where "s1 = make_room s idx"
    have "s1 = s \<and> ahead s idx < pb_capacity s \<or> s1 = reserve s (Suc (ahead s idx))"
    proof (cases "idx < pb_first s")
      case True
      have w: "(pb_first s + int (pb_capacity s)) mod 65536 = pb_first s + int (pb_capacity s) - 65536"
        using d(2) True f cap(2) mod16 [of "pb_first s + int (pb_capacity s) - 65536"] by (simp add: unroomy_def)
      have "nat (int (pb_capacity s) + (idx + 1 - (pb_first s + int (pb_capacity s) - 65536))) = Suc (ahead s idx)"
        using a(1) True by simp
      then show ?thesis
        using True False a cap(2) w by (simp add: s1_def make_room_def Let_def and_ffff)
    next
      case ge: False
      then have "nat (idx - pb_first s + 1) = Suc (ahead s idx)" using a(1) by simp
      then show ?thesis using ge False a by (simp add: s1_def make_room_def)
    qed
    then show ?thesis
    proof (elim disjE conjE)
      assume "s1 = reserve s (Suc (ahead s idx))"
      moreover have "Suc (ahead s idx) \<le> 32768" using d(1) by simp
      ultimately show ?thesis
        unfolding s1_def [symmetric] using roomy_forward [OF assms(1,2) idx d(1)] reserve_window(5) [OF sh] by (metis Suc_le_eq)
    qed (use roomy_forward [OF assms(1,2) idx d(1)] s1_def in auto)
  qed
qed

lemma occupied_store: "d < length w \<Longrightarrow> occupied (w[d := Some v]) = occupied w + (if w ! d = None then 1 else 0)"
proof (induction w arbitrary: d)
  case (Cons x w)
  then show ?case by (cases d) auto
qed simp

lemma roomy_empty:
  assumes "pb_inv s" "pb_size s = 0" "0 \<le> idx" "idx < 65536"
    "s1 = s\<lparr>pb_first := idx, pb_last := (idx + 1) AND 0xffff\<rparr>" "s0 = (if pb_capacity s1 = 0 then reserve s1 16 else s1)"
  shows "roomy s s0 idx" "pb_first s0 = idx"
proof -
  have sh: "shape s" and occ: "occupied (window s) = 0" using assms(1,2) by (auto simp: pb_inv_def)
  have sh1: "shape s1" using sh assms(3-5) by (auto simp: shape_def and_ffff)
  have "pb_storage s = replicate (pb_capacity s) None"
  proof (cases "pb_capacity s = 0")
    case False
    then have "pow2 (pb_capacity s)" "length (pb_storage s) = pb_capacity s" using sh by (auto simp: shape_def)
    then have "occupied (pb_storage s) = 0" using occ rot_filter_length by (metis window_def)
    then show ?thesis using \<open>length (pb_storage s) = pb_capacity s\<close> by (intro replicate_eqI) (auto simp: filter_empty_conv)
  qed (use sh in \<open>simp add: shape_def\<close>)
  then have "window s1 = replicate (pb_capacity s) None"
    using sh by (intro nth_equalityI) (auto simp: window_def assms(5) shape_def slot_less)
  moreover have s1: "pb_first s1 = idx" "pb_last s1 = (idx + 1) mod 65536" "pb_size s1 = pb_size s" "pb_capacity s1 = pb_capacity s"
    by (simp_all add: assms(5) and_ffff)
  ultimately have w: "window s0 = replicate (pb_capacity s0) None" and sh0: "shape s0" "pb_capacity s0 \<noteq> 0"
    and eq: "pb_first s0 = idx" "pb_last s0 = (idx + 1) mod 65536" "pb_size s0 = pb_size s"
  proof -
    assume w1: "window s1 = replicate (pb_capacity s) None"
    have r: "window s0 = replicate (pb_capacity s0) None \<and> shape s0 \<and> pb_capacity s0 \<noteq> 0
        \<and> pb_first s0 = pb_first s1 \<and> pb_last s0 = pb_last s1 \<and> pb_size s0 = pb_size s1"
    proof (cases "pb_capacity s1 = 0")
      case True
      then have s0: "s0 = reserve s1 16" by (simp add: assms(6))
      show ?thesis
        unfolding s0 using reserve_window [OF sh1, of 16] w1 s1(4) True sh1 by (simp add: shape_def)
    next
      case False
      then have "s0 = s1" by (simp add: assms(6))
      then show ?thesis using w1 s1(4) sh1 False by simp
    qed
    then show "window s0 = replicate (pb_capacity s0) None" "shape s0" "pb_capacity s0 \<noteq> 0"
      "pb_first s0 = idx" "pb_last s0 = (idx + 1) mod 65536" "pb_size s0 = pb_size s"
      unfolding s1 by simp_all
  qed
  have "span s0 = 1" unfolding span_mod eq by (simp add: mod_simps)
  then have "tight ((window s0)[ahead s0 idx := Some v]) (nat (span s0))" for v
    using w sh0(2) eq by (auto simp: tight_def ahead_def nth_list_update)
  moreover have "contents s0 i = contents s i" for i
  proof (cases "0 \<le> i \<and> i < 65536")
    case True
    then show ?thesis
      using contents_window [OF sh, of i] contents_window [OF sh0(1), of i] w inv_None [OF assms(1,2)] by auto
  qed (auto simp: contents_def)
  ultimately show "roomy s s0 idx"
    unfolding roomy_def fun_eq_iff using sh0 eq w occ by (simp add: ahead_def)
  show "pb_first s0 = idx" by (rule eq(1))
qed

lemma ahead_inj: "0 \<le> i \<Longrightarrow> i < 65536 \<Longrightarrow> 0 \<le> j \<Longrightarrow> j < 65536 \<Longrightarrow> ahead s i = ahead s j \<Longrightarrow> i = j"
proof -
  assume *: "0 \<le> i" "i < 65536" "0 \<le> j" "j < 65536" "ahead s i = ahead s j"
  then have "(i - pb_first s) mod 65536 = (j - pb_first s) mod 65536" by (simp add: ahead_def eq_nat_nat_iff)
  then have "i mod 65536 = j mod 65536" by (metis diff_add_cancel mod_add_left_eq)
  then show ?thesis using * by simp
qed

lemma contents_store:
  assumes "shape s" "0 \<le> idx" "idx < 65536" "ahead s idx < pb_capacity s"
  shows "contents (s\<lparr>pb_storage := (pb_storage s)[slot (pb_capacity s) idx := v]\<rparr>) = (contents s)(idx := v)"
proof
  fix i
  let ?s = "s\<lparr>pb_storage := (pb_storage s)[slot (pb_capacity s) idx := v]\<rparr>"
  have sh: "shape ?s" using assms(1) by (simp add: shape_def)
  have a: "ahead ?s = ahead s" "pb_capacity ?s = pb_capacity s" by (simp_all add: ahead_def fun_eq_iff)
  show "contents ?s i = ((contents s)(idx := v)) i"
  proof (cases "0 \<le> i \<and> i < 65536")
    case True
    then show ?thesis
      using contents_window [OF sh, of i] contents_window [OF assms(1), of i] window_store [OF assms(1,4), of v] a assms
        ahead_inj [of i idx s] by (auto simp: nth_list_update window_def)
  qed (use assms(2,3) in \<open>auto simp: contents_def\<close>)
qed

lemma store_refines:
  assumes "roomy s s0 idx" "pb_inv s" "0 \<le> idx" "idx < 65536"
    "old = pb_storage s0 ! slot (pb_capacity s0) idx"
    "s' = s0\<lparr>pb_storage := (pb_storage s0)[slot (pb_capacity s0) idx := Some v], pb_size := pb_size s0 + (if old = None then 1 else 0)\<rparr>"
  shows "old = contents s idx \<and> contents s' = (contents s)(idx := Some v) \<and> pb_inv s'"
proof -
  let ?s = "s0\<lparr>pb_storage := (pb_storage s0)[slot (pb_capacity s0) idx := Some v]\<rparr>"
  have r: "shape s0" "pb_capacity s0 \<noteq> 0" "ahead s0 idx < pb_capacity s0" "contents s0 = contents s"
    "occupied (window s0) = occupied (window s)" "pb_size s0 = pb_size s" "tight ((window s0)[ahead s0 idx := Some v]) (nat (span s0))"
    using assms(1) by (auto simp: roomy_def)
  have eq: "window s' = window ?s" "contents s' = contents ?s" "span s' = span s0"
    by (auto simp: assms(6) window_def contents_def ahead_def span_def fun_eq_iff)
  have old: "old = contents s idx" using r(3,4) assms(3-5) by (metis contents_def)
  have w: "window s' = (window s0)[ahead s0 idx := Some v]" using window_store [OF r(1,3)] eq(1) by simp
  have "old = window s0 ! ahead s0 idx" using old r(3,4) contents_window [OF r(1) assms(3,4)] by simp
  then have "pb_size s' = occupied (window s')"
    using occupied_store [of "ahead s0 idx" "window s0" v] r(3,5,6) assms(2) w by (simp add: assms(6) pb_inv_def window_def)
  moreover have "shape s'" using r(1) by (simp add: assms(6) shape_def)
  ultimately have "pb_inv s'" using r(2,7) w eq(3) by (simp add: pb_inv_def assms(6))
  then show ?thesis using old eq(2) contents_store [OF r(1) assms(3,4) r(3)] r(4) by simp
qed

lemma pb_insert_refines:
  assumes "pb_inv s" "near s idx"
  shows "fst (pb_insert s idx (Some v)) = contents s idx \<and> contents (snd (pb_insert s idx (Some v))) = (contents s)(idx := Some v)
    \<and> pb_inv (snd (pb_insert s idx (Some v)))"
proof -
  have idx: "0 \<le> idx" "idx < 65536" using assms(2) by (auto simp: near_def)
  define s1 where "s1 = (if pb_size s \<noteq> 0 then extend_last (make_room s idx) idx else s\<lparr>pb_first := idx, pb_last := (idx + 1) AND 0xffff\<rparr>)"
  define s0 where "s0 = (if pb_capacity s1 = 0 then reserve s1 16 else s1)"
  have r: "roomy s s0 idx \<and> (pb_size s = 0 \<longrightarrow> pb_first s0 = idx)"
  proof (cases "pb_size s = 0")
    case True
    then show ?thesis using roomy_empty [OF assms(1) True idx _ s0_def] by (simp add: s1_def)
  next
    case False
    then have "roomy s s1 idx" using make_room_roomy [OF assms(1) False assms(2)] by (simp add: s1_def)
    moreover from this have "pb_capacity s1 \<noteq> 0" by (simp add: roomy_def)
    ultimately show ?thesis using False by (simp add: s0_def)
  qed
  then have sz: "pb_size s0 = pb_size s" by (simp add: roomy_def)
  define old where "old = pb_storage s0 ! slot (pb_capacity s0) idx"
  define s' where "s' = s0\<lparr>pb_storage := (pb_storage s0)[slot (pb_capacity s0) idx := Some v], pb_size := pb_size s0 + (if old = None then 1 else 0)\<rparr>"
  have "pb_insert s idx (Some v) = pb_store s0 idx (Some v)" by (simp add: pb_insert_def s1_def s0_def Let_def)
  then have "pb_insert s idx (Some v) = (old, s')" using r sz by (simp add: pb_store_def Let_def old_def s'_def)
  then show ?thesis using store_refines [OF conjunct1 [OF r] assms(1) idx old_def s'_def] by simp
qed

subsection \<open>Removal\<close>

text \<open>The window after the elements at its ends have been skipped.\<close>

lemma skip_up_run:
  assumes "\<And>i. i < k \<Longrightarrow> pb_storage s ! slot (pb_capacity s) (f + int i) = None"
    "pb_storage s ! slot (pb_capacity s) (f + int k) \<noteq> None" "k < n"
  shows "skip_up s n f = f + int k"
  using assms
proof (induction n arbitrary: f k)
  case (Suc n)
  show ?case
  proof (cases k)
    case 0
    then show ?thesis using Suc.prems(2) by simp
  next
    case (Suc k')
    have "skip_up s n (f + 1) = f + 1 + int k'"
    proof (rule Suc.IH)
      fix i assume "i < k'"
      then show "pb_storage s ! slot (pb_capacity s) (f + 1 + int i) = None"
        using Suc.prems(1) [of "Suc i"] Suc by (simp add: algebra_simps)
    qed (use Suc Suc.prems in \<open>simp_all add: algebra_simps\<close>)
    then show ?thesis using Suc.prems(1) [of 0] Suc by simp
  qed
qed simp

lemma take32_diff: "m dvd 65536 \<Longrightarrow> (take_bit 32 x - y) mod m = (x - y) mod m" for m x y :: int
proof (rule mod_diff_cong)
  assume "m dvd 65536"
  then have "m dvd 2 ^ 32" by (rule dvd_trans) simp
  then show "take_bit 32 x mod m = x mod m" by (simp add: take_bit_eq_mod mod_mod_cancel)
qed simp

lemma skip_down_run:
  assumes "pow2 (pb_capacity s)" "pb_capacity s \<le> 65536"
    "\<And>i. i < k \<Longrightarrow> pb_storage s ! slot (pb_capacity s) (f - int i) = None"
    "pb_storage s ! slot (pb_capacity s) (f - int k) \<noteq> None" "k < n"
  shows "(skip_down s n f) mod 65536 = (f - int k) mod 65536"
  using assms(3-5)
proof (induction n arbitrary: f k)
  case (Suc n)
  show ?case
  proof (cases k)
    case 0
    then show ?thesis using Suc.prems(2) by simp
  next
    case (Suc k')
    have sl: "slot (pb_capacity s) (take_bit 32 (f - 1) - int i) = slot (pb_capacity s) (f - 1 - int i)" for i
      by (rule slot_cong [OF assms(1) take32_diff [OF pow2_dvd [OF assms(1,2)]]])
    have "skip_down s n (take_bit 32 (f - 1)) mod 65536 = (take_bit 32 (f - 1) - int k') mod 65536"
    proof (rule Suc.IH)
      fix i assume "i < k'"
      then show "pb_storage s ! slot (pb_capacity s) (take_bit 32 (f - 1) - int i) = None"
        unfolding sl using Suc.prems(1) [of "Suc i"] Suc by (simp add: algebra_simps)
    qed (use Suc Suc.prems sl in \<open>simp_all add: algebra_simps\<close>)
    also have "\<dots> = (f - int k) mod 65536"
      using take32_diff [of 65536 "f - 1" "int k'"] Suc by (simp add: algebra_simps)
    finally show ?thesis using Suc.prems(1) [of 0] Suc by simp
  qed
qed simp

lemma skip_up_window:
  assumes "0 < j" "j < pb_capacity s" "\<And>i. 0 < i \<Longrightarrow> i < j \<Longrightarrow> window s ! i = None" "window s ! j \<noteq> None"
  shows "skip_up s (pb_capacity s) (pb_first s + 1) = pb_first s + int j"
proof -
  have w: "pb_storage s ! slot (pb_capacity s) (pb_first s + 1 + int i) = window s ! Suc i" if "Suc i < pb_capacity s" for i
    using that by (simp add: window_def algebra_simps)
  obtain k where k: "j = Suc k" using assms(1) by (cases j) auto
  have "skip_up s (pb_capacity s) (pb_first s + 1) = pb_first s + 1 + int k"
    using w assms(2-4) k by (intro skip_up_run) auto
  then show ?thesis using k by simp
qed

lemma skip_down_window:
  assumes "pow2 (pb_capacity s)" "pb_capacity s \<le> 65536" "j \<le> q" "q < pb_capacity s"
    "\<And>i. j < i \<Longrightarrow> i \<le> q \<Longrightarrow> window s ! i = None" "window s ! j \<noteq> None" "f mod 65536 = (pb_first s + int q) mod 65536"
  shows "skip_down s (pb_capacity s) f mod 65536 = (pb_first s + int j) mod 65536"
proof -
  have d: "int (pb_capacity s) dvd 65536" by (rule pow2_dvd [OF assms(1,2)])
  have w: "pb_storage s ! slot (pb_capacity s) (f - int i) = window s ! (q - i)" if "i \<le> q" for i
  proof -
    have "f mod int (pb_capacity s) = (pb_first s + int q) mod int (pb_capacity s)"
      using arg_cong [OF assms(7), of "\<lambda>x. x mod int (pb_capacity s)"] by (simp only: mod_mod_cancel [OF d])
    then have "(f - int i) mod int (pb_capacity s) = (pb_first s + int q - int i) mod int (pb_capacity s)"
      by (rule mod_diff_cong) simp
    then have "slot (pb_capacity s) (f - int i) = slot (pb_capacity s) (pb_first s + int (q - i))"
      using that by (intro slot_cong [OF assms(1)]) (simp add: of_nat_diff algebra_simps)
    then show ?thesis using assms(4) by (simp add: window_def)
  qed
  have "skip_down s (pb_capacity s) f mod 65536 = (f - int (q - j)) mod 65536"
  proof (rule skip_down_run [OF assms(1,2)])
    show "pb_storage s ! slot (pb_capacity s) (f - int i) = None" if "i < q - j" for i
      using that w [of i] assms(5) [of "q - i"] by simp
    show "pb_storage s ! slot (pb_capacity s) (f - int (q - j)) \<noteq> None"
      using w [of "q - j"] assms(3,6) by simp
  qed (use assms(4) in simp)
  also have "\<dots> = (pb_first s + int q - int (q - j)) mod 65536"
    using assms(7) by (rule mod_diff_cong) simp
  finally show ?thesis using assms(3) by simp
qed

lemma rot_forward:
  assumes "pow2 n" "length st = n" "k \<le> n"
  shows "rot n (f + int k) st = drop k (rot n f st) @ take k (rot n f st)"
proof -
  have "f + int k = f - int (n - k) + int n" using assms(3) by simp
  then have "slot n (f + int k + int j) = slot n (f - int (n - k) + int j)" for j
    using slot_period [OF assms(1), of "f - int (n - k) + int j"] by (simp add: algebra_simps)
  then have "rot n (f + int k) st = rot n (f - int (n - k)) st" by (simp add: rot_def)
  then show ?thesis using rot_back [OF assms(1,2), of "n - k" f] assms(3) by simp
qed

text \<open>Moving the first index past empty slots.\<close>

lemma shift_first:
  assumes "shape s" "k < pb_capacity s" "\<forall>i < k. window s ! i = None" "s' = s\<lparr>pb_first := (pb_first s + int k) mod 65536\<rparr>"
  shows "window s' = drop k (window s) @ replicate k None" "contents s' = contents s" "shape s'"
proof -
  have cap: "pow2 (pb_capacity s)" "pb_capacity s \<le> 32768" "length (pb_storage s) = pb_capacity s" using assms(1,2) by (auto simp: shape_def)
  have l: "length (window s) = pb_capacity s" by (simp add: window_def)
  have "take k (window s) = replicate k None" using assms(2,3) l by (intro nth_equalityI) auto
  then show w: "window s' = drop k (window s) @ replicate k None"
    using rot_wrap [OF cap(1), of "pb_first s + int k" "pb_storage s"] rot_forward [OF cap(1,3), of k "pb_first s"] assms(2) cap(2)
    by (simp add: window_def assms(4))
  show sh: "shape s'" using assms(1) by (simp add: shape_def assms(4))
  have "contents s' i = contents s i" for i
  proof (cases "0 \<le> i \<and> i < 65536")
    case True
    have c: "contents s' i = (if ahead s' i < pb_capacity s then (drop k (window s) @ replicate k None) ! ahead s' i else None)"
      "contents s i = (if ahead s i < pb_capacity s then window s ! ahead s i else None)"
      using contents_window [OF sh, of i] contents_window [OF assms(1), of i] True w by (simp_all add: assms(4))
    have "int (ahead s' i) = (int (ahead s i) - int k) mod 65536"
      by (simp add: ahead_def assms(4) mod_simps algebra_simps)
    then have a: "ahead s' i = (if ahead s i < k then ahead s i + 65536 - k else ahead s i - k)"
      using ahead_bound [of s i] mod16 [of "int (ahead s i) - int k"] assms(2) cap(2) by (auto simp: of_nat_diff split: if_splits)
    show ?thesis
      unfolding c using a assms(2,3) l cap(2) ahead_bound [of s i] by (auto simp: nth_append)
  qed (auto simp: contents_def)
  then show "contents s' = contents s" by blast
qed

lemma occupied_clear: "d < length w \<Longrightarrow> w ! d \<noteq> None \<Longrightarrow> occupied w = Suc (occupied (w[d := None]))"
proof (induction w arbitrary: d)
  case (Cons x w)
  then show ?case by (cases d) auto
qed simp

lemma occupied_member: "occupied w \<noteq> 0 \<Longrightarrow> \<exists>j < length w. w ! j \<noteq> None"
  by (fastforce simp: filter_empty_conv in_set_conv_nth)

lemma tight_drop:
  assumes "k < p" "p \<le> length w" "w ! k \<noteq> None" "w ! (p - 1) \<noteq> None" "\<forall>j. p \<le> j \<longrightarrow> j < length w \<longrightarrow> w ! j = None"
  shows "tight (drop k w @ replicate k None) (p - k)"
proof -
  have n: "(drop k w @ replicate k None) ! j = (if k + j < length w then w ! (k + j) else None)" if "j < length w" for j
    using that assms(1,2) by (auto simp: nth_append)
  have "p - k - 1 < length w" "k + (p - k - 1) = p - 1" "p - 1 < length w" using assms(1,2) by linarith+
  then have "(drop k w @ replicate k None) ! (p - k - 1) = w ! (p - 1)" using n [of "p - k - 1"] by (simp only: if_True)
  moreover have "(drop k w @ replicate k None) ! j = None" if "p - k \<le> j" "j < length w" for j
    using n [of j] assms(5) that by auto
  moreover have "0 < length w" using assms(1,2) by linarith
  then have "(drop k w @ replicate k None) ! 0 = w ! k" using n [of 0] assms(1,2) by simp
  ultimately show ?thesis unfolding tight_def using assms by simp
qed

lemma trim_first_window:
  assumes "shape s" "tight w p" "1 < p" "window s = w[0 := None]" "pb_size s \<noteq> 0" "span s = int p" "pb_size s = occupied (window s)"
  shows "pb_inv (trim_first s (pb_first s)) \<and> contents (trim_first s (pb_first s)) = contents s"
proof -
  have l: "length w = pb_capacity s" using arg_cong [OF assms(4), of length] by (simp add: window_def)
  have l0: "0 < length w" using assms(2) by (auto simp: tight_def)
  then have w: "window s ! 0 = None" "\<And>i. 0 < i \<Longrightarrow> i < length w \<Longrightarrow> window s ! i = w ! i"
    using assms(4) by simp_all
  define k where "k = (LEAST j. window s ! j \<noteq> None)"
  have q: "window s ! (p - 1) \<noteq> None" using w(2) [of "p - 1"] assms(2,3) by (auto simp: tight_def)
  have k: "window s ! k \<noteq> None" "\<And>i. i < k \<Longrightarrow> window s ! i = None" "k \<le> p - 1"
    unfolding k_def using LeastI [of "\<lambda>j. window s ! j \<noteq> None", OF q] not_less_Least [of _ "\<lambda>j. window s ! j \<noteq> None"]
      Least_le [of "\<lambda>j. window s ! j \<noteq> None", OF q] by blast+
  have "0 < k" "k < pb_capacity s" "p \<le> pb_capacity s" using k w(1) assms(2,3) l by (auto simp: tight_def intro: gr0I)
  note sk = skip_up_window [OF this(1,2) _ k(1)]
  define s' where "s' = s\<lparr>pb_first := (pb_first s + int k) mod 65536\<rparr>"
  have t: "trim_first s (pb_first s) = s'" using sk k(2) assms(5) by (simp add: trim_first_def s'_def and_ffff)
  have "\<forall>i < k. window s ! i = None" using k(2) by blast
  note sh = shift_first [OF assms(1) \<open>k < pb_capacity s\<close> this s'_def]
  have "span s' = (span s - int k) mod 65536" unfolding span_mod s'_def by (simp add: mod_simps algebra_simps)
  then have sp: "nat (span s') = p - k" using assms(6) k(3) \<open>1 < p\<close> span_mod [of s] by simp
  have "tight (window s') (p - k)"
    unfolding sh(1)
  proof (rule tight_drop)
    show "\<forall>j. p \<le> j \<longrightarrow> j < length (window s) \<longrightarrow> window s ! j = None"
      using w(2) assms(2,3) l by (auto simp: tight_def window_def simp del: nth_rot)
  qed (use k q \<open>1 < p\<close> \<open>p \<le> pb_capacity s\<close> in \<open>simp_all add: window_def del: nth_rot\<close>)
  moreover have "occupied (window s') = occupied (window s)"
  proof -
    have "take k (window s) = replicate k None"
      using k(2) \<open>k < pb_capacity s\<close> by (intro nth_equalityI) (simp_all add: window_def del: nth_rot)
    then have "occupied (take k (window s)) = 0" by simp
    then show ?thesis unfolding sh(1) using occupied_split [of "window s" k] by simp
  qed
  ultimately have "pb_inv s'" unfolding pb_inv_def sp using sh(3) assms(5,7) \<open>k < pb_capacity s\<close> by (simp add: s'_def)
  then show ?thesis using t sh(2) by simp
qed

lemma trim_last_window:
  assumes "shape s" "tight w p" "1 < p" "window s = w[p - 1 := None]" "pb_size s \<noteq> 0" "span s = int p" "pb_size s = occupied (window s)"
    "(idx + 1) mod 65536 = pb_last s"
  shows "pb_inv (trim_last s idx) \<and> contents (trim_last s idx) = contents s"
proof -
  have l: "length w = pb_capacity s" using arg_cong [OF assms(4), of length] by (simp add: window_def)
  have p: "p \<le> length w" "w ! 0 \<noteq> None" using assms(2) by (auto simp: tight_def)
  have cap: "pow2 (pb_capacity s)" "pb_capacity s \<le> 65536" "16 \<le> pb_capacity s" using assms(1,3) p l by (auto simp: shape_def)
  have f: "0 \<le> pb_first s" "pb_first s < 65536" "0 \<le> pb_last s" "pb_last s < 65536" using assms(1) by (auto simp: shape_def)
  have w: "window s ! i = (if i = p - 1 then None else w ! i)" if "i < length w" for i
    using that assms(4) by (simp add: nth_list_update)
  define j where "j = (GREATEST i. i < p - 1 \<and> window s ! i \<noteq> None)"
  have "0 < length w" using p(1) assms(3) by linarith
  then have ex: "0 < p - 1 \<and> window s ! 0 \<noteq> None" using w [of 0] p(2) assms(3) by simp
  let ?P = "\<lambda>i. i < p - 1 \<and> window s ! i \<noteq> None"
  have bound: "i \<le> p" if "?P i" for i using conjunct1 [OF that] by linarith
  have j: "?P j" unfolding j_def by (rule GreatestI_nat [of ?P 0 p, OF ex]) (rule bound)
  have greatest: "i \<le> j" if "?P i" for i unfolding j_def by (rule Greatest_le_nat [of ?P, OF that]) (rule bound)
  have none: "window s ! i = None" if "j < i" "i < length w" for i
  proof (cases "i < p - 1")
    case True
    then show ?thesis using greatest [of i] that by force
  next
    case False
    then show ?thesis using w [of i] that assms(2) by (auto simp: tight_def)
  qed
  have "take_bit 32 (pb_last s - 1) mod 65536 = (pb_last s - 1) mod 65536"
    using take32_diff [of 65536 "pb_last s - 1" 0] by simp
  also have "\<dots> = (pb_first s + int (p - 1)) mod 65536"
  proof -
    have "pb_last s mod 65536 = (pb_first s + int p) mod 65536"
      using mod_add_cong [of "pb_last s - pb_first s" 65536 "int p" "pb_first s" "pb_first s"] assms(6) p(1) l cap(2)
      by (simp add: span_mod add.commute)
    then have "(pb_last s - 1) mod 65536 = (pb_first s + int p - 1) mod 65536" by (rule mod_diff_cong) simp
    then show ?thesis using assms(3) by (simp add: of_nat_diff add_diff_eq)
  qed
  finally have f: "take_bit 32 (pb_last s - 1) mod 65536 = (pb_first s + int (p - 1)) mod 65536" .
  have "j \<le> p - 1" "p - 1 < pb_capacity s" using conjunct1 [OF j] p(1) l assms(3) by linarith+
  then have "skip_down s (pb_capacity s) (take_bit 32 (pb_last s - 1)) mod 65536 = (pb_first s + int j) mod 65536"
    using none l by (intro skip_down_window [OF cap(1,2) _ _ _ conjunct2 [OF j] f]) simp_all
  from mod_add_cong [OF this refl, of 1] have t: "trim_last s idx = s\<lparr>pb_last := (pb_first s + int j + 1) mod 65536\<rparr>" (is "_ = ?s")
    using assms(5,8) by (simp add: trim_last_def and_ffff)
  have eq: "window ?s = window s" "contents ?s = contents s" by (auto simp: window_def contents_def ahead_def fun_eq_iff)
  have "span ?s = (int j + 1) mod 65536" unfolding span_mod by (simp add: mod_simps)
  moreover have "int j + 1 < 65536" using conjunct1 [OF j] p(1) l cap(2) by linarith
  ultimately have sp: "nat (span ?s) = Suc j" by simp
  have "tight (window ?s) (Suc j)"
    unfolding eq tight_def using ex j none p l by (auto simp: window_def simp del: nth_rot)
  then have "pb_inv ?s" unfolding pb_inv_def sp using assms(1,7) cap(3) eq by (simp add: shape_def)
  then show ?thesis unfolding t using eq by simp
qed

lemma next_is_last:
  assumes "shape s" "ahead s idx < 32768" "span s = int p"
  shows "(idx + 1) mod 65536 = pb_last s \<longleftrightarrow> Suc (ahead s idx) = p"
proof -
  have d: "int (ahead s idx) = (idx - pb_first s) mod 65536" by (simp add: ahead_def)
  have "((idx + 1) mod 65536 - pb_first s) mod 65536 = ((idx - pb_first s) mod 65536 + 1) mod 65536"
    by (simp add: mod_simps algebra_simps)
  also have "\<dots> = int (Suc (ahead s idx))" unfolding d [symmetric] using assms(2) by simp
  finally have n: "((idx + 1) mod 65536 - pb_first s) mod 65536 = int (Suc (ahead s idx))" .
  have l: "(pb_last s - pb_first s) mod 65536 = int p" using assms(3) by (simp add: span_mod)
  show ?thesis
  proof
    assume "(idx + 1) mod 65536 = pb_last s"
    then show "Suc (ahead s idx) = p" using n l by simp
  next
    assume "Suc (ahead s idx) = p"
    then have "((idx + 1) mod 65536 - pb_first s) mod 65536 = (pb_last s - pb_first s) mod 65536" using n l by simp
    from mod_add_cong [OF this refl, of "pb_first s"] have "(idx + 1) mod 65536 mod 65536 = pb_last s mod 65536" by simp
    then show "(idx + 1) mod 65536 = pb_last s" using assms(1) by (simp add: shape_def)
  qed
qed

lemma tight_inner:
  assumes "tight w p" "d < p" "0 < d" "Suc d \<noteq> p"
  shows "tight (w[d := None]) p"
proof -
  have "d < length w" using assms(1,2) by (auto simp: tight_def)
  then have "w[d := None] ! j = w ! j" if "j \<noteq> d" for j using that by simp
  then show ?thesis using assms by (auto simp: tight_def)
qed

lemma remove_refines:
  assumes "pb_inv s" "0 \<le> idx" "idx < 65536" "ahead s idx < pb_capacity s" "contents s idx \<noteq> None"
    "s1 = s\<lparr>pb_storage := (pb_storage s)[slot (pb_capacity s) idx := None], pb_size := pb_size s - 1\<rparr>"
    "s2 = (if pb_size s1 = 0 then s1\<lparr>pb_last := pb_first s1\<rparr> else s1)"
  shows "pb_inv (trim_last (trim_first s2 idx) idx) \<and> contents (trim_last (trim_first s2 idx) idx) = (contents s)(idx := None)"
proof -
  have sh: "shape s" and sz: "pb_size s = occupied (window s)" using assms(1) by (auto simp: pb_inv_def)
  let ?d = "ahead s idx" and ?p = "nat (span s)"
  have l: "length (window s) = pb_capacity s" by (simp add: window_def)
  have wd: "window s ! ?d \<noteq> None" using assms(4,5) contents_window [OF sh assms(2,3)] by simp
  have occ: "pb_size s = Suc (occupied ((window s)[?d := None]))" using sz occupied_clear [of ?d "window s"] wd assms(4) l by simp
  then have t: "tight (window s) ?p" using assms(1) by (simp add: pb_inv_def)
  have w1: "window s1 = (window s)[?d := None]"
    using window_store [OF sh assms(4), of None] by (simp add: assms(6) window_def)
  have c1: "contents s1 = (contents s)(idx := None)"
    unfolding contents_store [OF sh assms(2-4), of None, symmetric] by (simp add: assms(6) contents_def ahead_def fun_eq_iff)
  have sh1: "shape s1" using sh by (simp add: assms(6) shape_def)
  have sz1: "pb_size s1 = occupied (window s1)" using occ w1 by (simp add: assms(6))
  show ?thesis
  proof (cases "pb_size s1 = 0")
    case True
    then have s2: "s2 = s1\<lparr>pb_last := pb_first s1\<rparr>" using assms(7) by simp
    then have "window s2 = window s1" "contents s2 = contents s1" "shape s2"
      using sh1 by (auto simp: window_def contents_def ahead_def shape_def fun_eq_iff)
    moreover have "pb_capacity s2 \<noteq> 0" "pb_size s2 = 0" "trim_last (trim_first s2 idx) idx = s2"
      using True assms(4,6) s2 by (simp_all add: trim_first_def trim_last_def)
    ultimately show ?thesis using c1 sz1 True by (simp add: pb_inv_def)
  next
    case False
    then have s2: "s2 = s1" using assms(7) by simp
    obtain j where j: "j < length (window s)" "j \<noteq> ?d" "window s ! j \<noteq> None"
      using occupied_member [of "window s1"] False sz1 w1 by (metis assms(4) l length_list_update nth_list_update)
    have "\<not> ?p \<le> ?d" "\<not> ?p \<le> j" "?p \<le> pb_capacity s" "0 < ?p" using t wd j assms(4) l by (auto simp: tight_def)
    then have p: "?d < ?p" "1 < ?p" "?p \<le> 32768" "span s = int ?p" using j(2) sh by (auto simp: shape_def)
    have sp: "span s1 = int ?p" using p(4) by (simp add: assms(6) span_def)
    have last: "(idx + 1) mod 65536 = pb_last s1 \<longleftrightarrow> Suc ?d = ?p"
      using next_is_last [OF sh _ p(4)] p(1,3) by (simp add: assms(6))
    consider "idx = pb_first s1" "?d = 0" | "idx \<noteq> pb_first s1" "Suc ?d = ?p" | "idx \<noteq> pb_first s1" "?d \<noteq> 0" "Suc ?d \<noteq> ?p"
    proof -
      have "ahead s (pb_first s) = 0" "pb_first s1 = pb_first s" by (simp_all add: ahead_def assms(6))
      then have "?d = 0 \<longleftrightarrow> idx = pb_first s1"
        using ahead_inj [of idx "pb_first s" s] assms(2,3) sh by (auto simp: shape_def)
      then show ?thesis using that by blast
    qed
    then show ?thesis
    proof cases
      case 1
      have r: "pb_inv (trim_first s1 idx)" "contents (trim_first s1 idx) = contents s1"
        using trim_first_window [OF sh1 t p(2) _ False sp sz1] w1 1 by auto
      moreover have "trim_last (trim_first s1 idx) idx = trim_first s1 idx"
        using last 1 p(2) by (auto simp: trim_last_def trim_first_def and_ffff)
      ultimately show ?thesis using s2 c1 by simp
    next
      case 2
      then have "trim_first s1 idx = s1" by (simp add: trim_first_def)
      moreover have "window s1 = (window s)[?p - 1 := None]" using w1 2(2) by (simp flip: 2(2))
      ultimately show ?thesis
        using trim_last_window [OF sh1 t p(2) _ False sp sz1, of idx] 2 last s2 c1 by simp
    next
      case 3
      then have e: "trim_last (trim_first s1 idx) idx = s1" using last by (simp add: trim_first_def trim_last_def and_ffff)
      have "tight (window s1) ?p"
        unfolding w1 using t p(1) 3 by (intro tight_inner) auto
      moreover have "pb_capacity s1 \<noteq> 0" using assms(4) by (simp add: assms(6))
      moreover have "nat (span s1) = ?p" using sp by simp
      ultimately have "pb_inv s1" using sh1 sz1 by (simp only: pb_inv_def) simp
      then show ?thesis using e s2 c1 by simp
    qed
  qed
qed

lemma pb_remove_refines:
  assumes "pb_inv s" "0 \<le> idx" "idx < 65536" "\<not> aliased s idx"
  shows "fst (pb_remove s idx) = contents s idx \<and> contents (snd (pb_remove s idx)) = (contents s)(idx := None)
    \<and> pb_inv (snd (pb_remove s idx))"
proof -
  have sh: "shape s" using assms(1) by (simp add: pb_inv_def)
  note a = ahead_cases [OF sh assms(2,3)]
  have cap: "pb_capacity s \<le> 32768" using sh by (auto simp: shape_def)
  show ?thesis
  proof (cases "idx \<ge> pb_first s + int (pb_capacity s) \<or> 32768 < ahead s idx")
    case True
    then have "\<not> ahead s idx < pb_capacity s" using a(1) cap by (auto split: if_splits)
    then have c: "contents s idx = None" by (simp add: contents_def)
    have "pb_remove s idx = (None, s)" using True a(2) by (auto simp: pb_remove_def)
    then show ?thesis using c assms(1) by (simp add: fun_upd_idem)
  next
    case False
    then have d: "ahead s idx < pb_capacity s" using assms(4) a(1) by (auto simp: aliased_def split: if_splits)
    let ?i = "slot (pb_capacity s) idx"
    have old: "contents s idx = pb_storage s ! ?i" using d assms(2,3) by (simp add: contents_def)
    have go: "\<not> (pb_first s + int (pb_capacity s) \<le> idx)" "\<not> compare_less_wrap idx (pb_first s) 0xffff" using False a(2) by auto
    show ?thesis
    proof (cases "contents s idx = None")
      case True
      then have "s\<lparr>pb_storage := (pb_storage s)[?i := None]\<rparr> = s" using old by (simp add: list_update_id [of "pb_storage s" ?i, unfolded old [symmetric] True])
      moreover have "trim_last (trim_first s idx) idx = s"
      proof (cases "pb_size s = 0")
        case False
        then have t: "tight (window s) (nat (span s))" using assms(1) by (simp add: pb_inv_def)
        have w: "window s ! ahead s idx = None" using True contents_window [OF sh assms(2,3)] d by simp
        have "idx \<noteq> pb_first s" using w t by (auto simp: tight_def ahead_def)
        moreover have "Suc (ahead s idx) \<noteq> nat (span s)" using w t unfolding tight_def by (metis diff_Suc_1)
        then have "(idx + 1) mod 65536 \<noteq> pb_last s"
          using next_is_last [OF sh, of idx "nat (span s)"] d cap t by (auto simp: tight_def)
        ultimately show ?thesis by (simp add: trim_first_def trim_last_def and_ffff)
      qed (simp add: trim_first_def trim_last_def)
      ultimately have "pb_remove s idx = (None, s)" using go old True by (simp add: pb_remove_def Let_def)
      then show ?thesis using True assms(1) by (simp add: fun_upd_idem)
    next
      case False
      define s1 where "s1 = s\<lparr>pb_storage := (pb_storage s)[?i := None], pb_size := pb_size s - 1\<rparr>"
      define s2 where "s2 = (if pb_size s1 = 0 then s1\<lparr>pb_last := pb_first s1\<rparr> else s1)"
      have "pb_remove s idx = (contents s idx, trim_last (trim_first s2 idx) idx)"
        using go old False by (simp add: pb_remove_def Let_def s1_def s2_def)
      then show ?thesis using remove_refines [OF assms(1-3) d False s1_def s2_def] by simp
    qed
  qed
qed

subsection \<open>Sequences of operations\<close>

text \<open>What a client relies on: a map with a condition on the indices that may be used in a state.\<close>

fun permitted :: "('s \<Rightarrow> 'k \<Rightarrow> bool) \<Rightarrow> ('s \<Rightarrow> 'k \<Rightarrow> bool) \<Rightarrow> ('s \<Rightarrow> 'k \<Rightarrow> 'a \<Rightarrow> 's) \<Rightarrow> ('s \<Rightarrow> 'k \<Rightarrow> 's)
    \<Rightarrow> 's \<Rightarrow> ('k \<times> 'a option) list \<Rightarrow> bool" where
  "permitted can_put can_del put del s [] \<longleftrightarrow> True"
| "permitted can_put can_del put del s ((k, Some v) # ops) \<longleftrightarrow> can_put s k \<and> permitted can_put can_del put del (put s k v) ops"
| "permitted can_put can_del put del s ((k, None) # ops) \<longleftrightarrow> can_del s k \<and> permitted can_put can_del put del (del s k) ops"

fun run_ops :: "('s \<Rightarrow> 'k \<Rightarrow> 'a \<Rightarrow> 's) \<Rightarrow> ('s \<Rightarrow> 'k \<Rightarrow> 's) \<Rightarrow> 's \<Rightarrow> ('k \<times> 'a option) list \<Rightarrow> 's" where
  "run_ops put del s [] = s"
| "run_ops put del s ((k, Some v) # ops) = run_ops put del (put s k v) ops"
| "run_ops put del s ((k, None) # ops) = run_ops put del (del s k) ops"

locale index_map =
  fixes inv :: "'s \<Rightarrow> bool" and get :: "'s \<Rightarrow> 'k \<Rightarrow> 'a option" and can_put can_del :: "'s \<Rightarrow> 'k \<Rightarrow> bool"
    and put :: "'s \<Rightarrow> 'k \<Rightarrow> 'a \<Rightarrow> 's" and del :: "'s \<Rightarrow> 'k \<Rightarrow> 's"
  assumes put_inv: "inv s \<Longrightarrow> can_put s k \<Longrightarrow> inv (put s k v)"
    and get_put: "inv s \<Longrightarrow> can_put s k \<Longrightarrow> get (put s k v) = (get s)(k := Some v)"
    and del_inv: "inv s \<Longrightarrow> can_del s k \<Longrightarrow> inv (del s k)"
    and get_del: "inv s \<Longrightarrow> can_del s k \<Longrightarrow> get (del s k) = (get s)(k := None)"
begin

lemma run_refines:
  assumes "inv s" "permitted can_put can_del put del s ops"
  shows "inv (run_ops put del s ops)" "get (run_ops put del s ops) = fold (\<lambda>(k, v) m. m(k := v)) ops (get s)"
  using assms
proof (induction ops arbitrary: s)
  case (Cons op ops)
  obtain k v where op: "op = (k, v)" by fastforce
  { case 1
    then show ?case using Cons.IH(1) op put_inv del_inv by (cases v) auto
  next
    case 2
    then show ?case using Cons.IH(2) op put_inv get_put del_inv get_del by (cases v) auto
  }
qed simp_all

end

definition pb_put :: "'a packet_buffer \<Rightarrow> int \<Rightarrow> 'a \<Rightarrow> 'a packet_buffer" where
  "pb_put s idx v = snd (pb_insert s idx (Some v))"

definition pb_del :: "'a packet_buffer \<Rightarrow> int \<Rightarrow> 'a packet_buffer" where
  "pb_del s idx = snd (pb_remove s idx)"

definition clear_of :: "'a packet_buffer \<Rightarrow> int \<Rightarrow> bool" where
  "clear_of s idx \<longleftrightarrow> 0 \<le> idx \<and> idx < 65536 \<and> \<not> aliased s idx"

interpretation pbm: index_map pb_inv contents near clear_of pb_put pb_del
proof
  fix s :: "'a packet_buffer" and k and v :: 'a
  assume "pb_inv s" "near s k"
  from pb_insert_refines [OF this, of v]
  show "pb_inv (pb_put s k v)" "contents (pb_put s k v) = (contents s)(k := Some v)"
    by (simp_all add: pb_put_def)
next
  fix s :: "'a packet_buffer" and k
  assume "pb_inv s" "clear_of s k"
  then show "pb_inv (pb_del s k)" "contents (pb_del s k) = (contents s)(k := None)"
    using pb_remove_refines [of s k] by (auto simp: pb_del_def clear_of_def)
qed

lemma init_inv: "pb_inv packet_buffer_init" "contents packet_buffer_init = (\<lambda>_. None)"
  by (auto simp: pb_inv_def packet_buffer_init_def shape_def window_def rot_def contents_def)

lemma inv_check_count:
  assumes "pb_inv s"
  shows "check_count s"
proof (cases "pb_capacity s = 0")
  case False
  then have "pow2 (pb_capacity s)" "length (pb_storage s) = pb_capacity s" using assms by (auto simp: pb_inv_def shape_def)
  then show ?thesis
    using assms rot_filter_length [of "pb_capacity s" "pb_storage s"] by (simp add: check_count_def pb_inv_def window_def)
qed (use assms in \<open>auto simp: check_count_def pb_inv_def window_def rot_def\<close>)

lemma inv_ends:
  assumes "pb_inv s" "pb_size s \<noteq> 0"
  shows "contents s (pb_first s) \<noteq> None" "contents s idx \<noteq> None \<Longrightarrow> int (ahead s idx) < span s"
proof -
  have sh: "shape s" and t: "tight (window s) (nat (span s))" using assms by (auto simp: pb_inv_def)
  show "contents s (pb_first s) \<noteq> None"
    using contents_tight [OF sh _ _ t, of "pb_first s"] sh t by (auto simp: shape_def tight_def ahead_def)
  show "int (ahead s idx) < span s" if c: "contents s idx \<noteq> None"
  proof -
    have "0 \<le> idx" "idx < 65536" using c by (auto simp: contents_def split: if_splits)
    then show ?thesis using contents_tight [OF sh _ _ t, of idx] c by (simp split: if_splits)
  qed
qed

subsection \<open>Properties\<close>

text \<open>A packet at 65534 in a buffer for 16, and then one at 20, across the wrap-around.\<close>

definition example1 :: "int packet_buffer" where
  "example1 = \<lparr>pb_storage = (replicate 16 None)[14 := Some 1], pb_capacity = 16, pb_size = 1, pb_first = 65534, pb_last = 65535\<rparr>"

definition example2 :: "int packet_buffer" where
  "example2 = \<lparr>pb_storage = (replicate 32 None)[20 := Some 2, 30 := Some 1], pb_capacity = 32, pb_size = 2, pb_first = 65534, pb_last = 21\<rparr>"

lemma example_run:
  "near packet_buffer_init 65534" "pb_put packet_buffer_init 65534 1 = example1" "near example1 20" "pb_put example1 20 2 = example2"
  "clear_of example2 65534"
  unfolding example1_def example2_def by code_simp+

text \<open>C38: The packet buffer is a map. After any sequence of insertions and removals, each of an index that
  keeps the span within half of the index space and is not in a gap at the wrap-around, the buffer
  holds the packets that a map would hold; \<^verbatim>\<open>at\<close> returns them, \<^verbatim>\<open>insert\<close> and \<^verbatim>\<open>remove\<close> return the packet that was there
  before, the cursor is at a packet, all packets are within the span after it, and the assertion
  of \<^verbatim>\<open>check_invariant\<close> on the number of packets holds.\<close>
theorem packet_buffer_refines:
  assumes "permitted near clear_of pb_put pb_del packet_buffer_init ops" "s = run_ops pb_put pb_del packet_buffer_init ops"
    "m = fold (\<lambda>(k, v) m. m(k := v)) ops (\<lambda>_. None)"
  shows "contents s = m \<and> check_count s \<and>
    (clear_of s idx \<longrightarrow> pb_at s idx = m idx \<and> fst (pb_remove s idx) = m idx) \<and>
    (near s idx \<longrightarrow> fst (pb_insert s idx (Some v)) = m idx) \<and>
    (pb_size s \<noteq> 0 \<longrightarrow> m (pb_first s) \<noteq> None \<and> (m idx \<noteq> None \<longrightarrow> int (ahead s idx) < span s))"
proof -
  have inv: "pb_inv s" "contents s = m"
    using pbm.run_refines [OF init_inv(1) assms(1)] unfolding assms(2,3) init_inv(2) by simp_all
  have "pb_at s idx = m idx \<and> fst (pb_remove s idx) = m idx" if "clear_of s idx"
    using pb_at_contents [OF inv(1), of idx] pb_remove_refines [OF inv(1), of idx] inv(2) that by (simp add: clear_of_def)
  moreover have "fst (pb_insert s idx (Some v)) = m idx" if "near s idx"
    using pb_insert_refines [OF inv(1) that] inv(2) by simp
  ultimately show ?thesis using inv inv_check_count [OF inv(1)] inv_ends [OF inv(1)] by blast
qed


theorem packet_buffer_refines_witness:
  "contents (run_ops pb_put pb_del packet_buffer_init [(65534, Some (1::int)), (20, Some 2), (65534, None)]) =
    fold (\<lambda>(k, v) m. m(k := v)) [(65534, Some 1), (20, Some 2), (65534, None)] (\<lambda>_. None)"
proof -
  have "permitted near clear_of pb_put pb_del packet_buffer_init [(65534, Some (1::int)), (20, Some 2), (65534, None)]"
    by (simp only: permitted.simps example_run)
  from packet_buffer_refines [OF this refl refl] show ?thesis by (rule conjunct1)
qed


end
