(* ===== verification/Bandwidth.thy ===== *)
theory Bandwidth
  imports Prelude "HOL-Library.Signed_Division" "HOL-Library.Code_Target_Numeral"
begin

text \<open>
  \<^verbatim>\<open>src/bandwidth_limit.cpp\<close>, \<^verbatim>\<open>src/bandwidth_queue_entry.cpp\<close> and \<^verbatim>\<open>src/bandwidth_manager.cpp\<close>: the
  rate limiter. Requests share bandwidth channels through pointers, so the channels live in a store
  that maps the address of a channel to its fields. The pointers of a request are the list of its
  channels up to the first null pointer. A peer is a number; \<^verbatim>\<open>is_disconnecting\<close> of a peer is an
  argument, and the calls of its \<^verbatim>\<open>assign_bandwidth\<close> are returned as a list of peers and amounts.
\<close>

subsection \<open>Channels\<close>

record bandwidth_channel =
  bc_tmp :: int
  distribute_quota :: int
  m_quota_left :: int
  m_limit :: int

type_synonym store = "nat \<Rightarrow> bandwidth_channel"

definition bandwidth_channel_init :: bandwidth_channel where
  "bandwidth_channel_init = \<lparr>bc_tmp = 0, distribute_quota = 0, m_quota_left = 0, m_limit = 0\<rparr>"

definition set_throttle :: "int \<Rightarrow> bandwidth_channel \<Rightarrow> bandwidth_channel" where
  "set_throttle limit c = c\<lparr>m_limit := limit\<rparr>"

definition throttle :: "bandwidth_channel \<Rightarrow> int" where
  "throttle c = m_limit c"

definition quota_left :: "bandwidth_channel \<Rightarrow> int" where
  "quota_left c = (if m_limit c = 0 then 2 ^ 31 - 1 else max (m_quota_left c) 0)"

definition update_quota :: "int \<Rightarrow> bandwidth_channel \<Rightarrow> bandwidth_channel" where
  "update_quota dt_milliseconds c =
     (if m_limit c = 0 then c
      else
        let q = m_quota_left c + (m_limit c * dt_milliseconds + 500) sdiv 1000;
            q = (if q > m_limit c * 3 then m_limit c * 3 else q)
        in c\<lparr>m_quota_left := q, distribute_quota := max q 0\<rparr>)"

definition return_quota :: "int \<Rightarrow> bandwidth_channel \<Rightarrow> bandwidth_channel" where
  "return_quota amount c = (if m_limit c = 0 then c else c\<lparr>m_quota_left := m_quota_left c + amount\<rparr>)"

definition use_quota :: "int \<Rightarrow> bandwidth_channel \<Rightarrow> bandwidth_channel" where
  "use_quota amount c = (if m_limit c = 0 then c else c\<lparr>m_quota_left := m_quota_left c - amount\<rparr>)"

text \<open>A call of a member function through each pointer of a list, in order.\<close>

definition each_channel :: "(bandwidth_channel \<Rightarrow> bandwidth_channel) \<Rightarrow> store \<Rightarrow> nat list \<Rightarrow> store" where
  "each_channel f = foldl (\<lambda>st c. st(c := f (st c)))"

subsection \<open>Requests\<close>

record bw_request =
  bw_peer :: nat
  bw_priority :: int
  bw_assigned :: int
  bw_request_size :: int
  bw_ttl :: int
  bw_channel :: "nat list"

definition bw_request_init :: "nat \<Rightarrow> int \<Rightarrow> int \<Rightarrow> bw_request" where
  "bw_request_init pe blk prio =
     \<lparr>bw_peer = pe, bw_priority = prio, bw_assigned = 0, bw_request_size = blk, bw_ttl = 20, bw_channel = []\<rparr>"

definition share :: "store \<Rightarrow> int \<Rightarrow> int \<Rightarrow> nat \<Rightarrow> int" where
  "share st prio quota c =
     (if throttle (st c) = 0 then quota
      else if bc_tmp (st c) = 0 then quota
      else min (distribute_quota (st c) * prio sdiv bc_tmp (st c)) quota)"

definition assign_bandwidth :: "store \<Rightarrow> bw_request \<Rightarrow> store \<times> bw_request \<times> int" where
  "assign_bandwidth st r =
     (let quota = bw_request_size r - bw_assigned r;
          r = r\<lparr>bw_ttl := bw_ttl r - 1\<rparr>
      in if quota = 0 then (st, r, quota)
         else
           let quota = foldl (share st (bw_priority r)) quota (bw_channel r)
           in (each_channel (use_quota quota) st (bw_channel r), r\<lparr>bw_assigned := bw_assigned r + quota\<rparr>, quota))"

subsection \<open>The manager\<close>

record bandwidth_manager =
  m_queue :: "bw_request list"
  m_queued_bytes :: int
  m_channel :: int
  m_abort :: bool

definition bandwidth_manager_init :: "int \<Rightarrow> bandwidth_manager" where
  "bandwidth_manager_init channel = \<lparr>m_queue = [], m_queued_bytes = 0, m_channel = channel, m_abort = False\<rparr>"

definition close :: "bandwidth_manager \<Rightarrow> bandwidth_manager" where
  "close m = m\<lparr>m_abort := True, m_queue := [], m_queued_bytes := 0\<rparr>"

definition is_queued :: "bandwidth_manager \<Rightarrow> nat \<Rightarrow> bool" where
  "is_queued m peer \<longleftrightarrow> list_ex (\<lambda>r. bw_peer r = peer) (m_queue m)"

definition queue_size :: "bandwidth_manager \<Rightarrow> nat" where
  "queue_size m = length (m_queue m)"

definition queued_bytes :: "bandwidth_manager \<Rightarrow> int" where
  "queued_bytes m = m_queued_bytes m"

text \<open>The five optional channels of \<^verbatim>\<open>request_bandwidth\<close> are a list; it returns the bytes granted at once.\<close>

definition request_bandwidth ::
  "store \<Rightarrow> bandwidth_manager \<Rightarrow> nat \<Rightarrow> int \<Rightarrow> int \<Rightarrow> nat option list \<Rightarrow> bandwidth_manager \<times> int" where
  "request_bandwidth st m peer blk prio chans =
     (if m_abort m then (m, 0)
      else
        let cs = filter (\<lambda>c. throttle (st c) > 0) (List.map_filter id chans);
            bwr = (bw_request_init peer blk prio)\<lparr>bw_channel := cs\<rparr>
        in if cs = [] then (m, blk)
           else (m\<lparr>m_queued_bytes := m_queued_bytes m + blk, m_queue := m_queue m @ [bwr]\<rparr>, 0))"

definition check_queue :: "bandwidth_manager \<Rightarrow> bool" where
  "check_queue m \<longleftrightarrow>
     foldl (\<lambda>queued r. queued + (bw_request_size r - bw_assigned r)) 0 (m_queue m) = m_queued_bytes m"

text \<open>
  \<^verbatim>\<open>update_quotas\<close> in four loops: \<open>drop_disconnecting\<close> returns the quota of peers that are going
  away and clears \<^verbatim>\<open>tmp\<close>, \<open>tally\<close> adds up the priorities per channel and collects the channels,
  then every channel gets its quota, and \<open>hand_out\<close> assigns it; \<^verbatim>\<open>tm\<close> is the last component.
\<close>

fun drop_disconnecting ::
  "(nat \<Rightarrow> bool) \<Rightarrow> store \<Rightarrow> bw_request list \<Rightarrow> int \<Rightarrow> store \<times> bw_request list \<times> int" where
  "drop_disconnecting gone st [] qb = (st, [], qb)"
| "drop_disconnecting gone st (r # rs) qb =
     (if gone (bw_peer r)
      then drop_disconnecting gone (each_channel (return_quota (bw_assigned r)) st (bw_channel r)) rs
             (qb - (bw_request_size r - bw_assigned r))
      else case drop_disconnecting gone (each_channel (bc_tmp_update (\<lambda>_. 0)) st (bw_channel r)) rs qb of
             (st, q, qb) \<Rightarrow> (st, r # q, qb))"

definition tally_one :: "int \<Rightarrow> store \<times> nat list \<Rightarrow> nat \<Rightarrow> store \<times> nat list" where
  "tally_one prio a c =
     (case a of (st, channels) \<Rightarrow>
        (st(c := (st c)\<lparr>bc_tmp := bc_tmp (st c) + prio\<rparr>), if bc_tmp (st c) = 0 then channels @ [c] else channels))"

definition tally :: "store \<times> nat list \<Rightarrow> bw_request list \<Rightarrow> store \<times> nat list" where
  "tally = foldl (\<lambda>a r. foldl (tally_one (bw_priority r)) a (bw_channel r))"

fun hand_out :: "store \<Rightarrow> bw_request list \<Rightarrow> int \<Rightarrow> store \<times> bw_request list \<times> int \<times> bw_request list" where
  "hand_out st [] qb = (st, [], qb, [])"
| "hand_out st (r # rs) qb =
     (let (st, r, a) = assign_bandwidth st r in
      if bw_assigned r = bw_request_size r \<or> (bw_ttl r \<le> 0 \<and> bw_assigned r > 0)
      then let a = a + (bw_request_size r - bw_assigned r);
               (st, q, qb, tm) = hand_out st rs (qb - a)
           in (st, q, qb, r # tm)
      else let (st, q, qb, tm) = hand_out st rs (qb - a)
           in (st, r # q, qb, tm))"

definition update_quotas ::
  "(nat \<Rightarrow> bool) \<Rightarrow> int \<Rightarrow> store \<Rightarrow> bandwidth_manager \<Rightarrow> store \<times> bandwidth_manager \<times> (nat \<times> int) list" where
  "update_quotas gone dt st m =
     (if m_abort m then (st, m, [])
      else if m_queue m = [] then (st, m, [])
      else
        let dt_milliseconds = (if dt > 3000 then 3000 else dt);
            (st, q, qb) = drop_disconnecting gone st (m_queue m) (m_queued_bytes m);
            (st, channels) = tally (st, []) q;
            st = each_channel (update_quota dt_milliseconds) st channels;
            (st, q, qb, tm) = hand_out st q qb
        in (st, m\<lparr>m_queue := q, m_queued_bytes := qb\<rparr>, map (\<lambda>r. (bw_peer r, bw_assigned r)) (rev tm)))"

subsection \<open>The store\<close>

lemma each_channel_Nil [simp]: "each_channel f st [] = st"
  by (simp add: each_channel_def)

lemma each_channel_Cons [simp]: "each_channel f st (c # cs) = each_channel f (st(c := f (st c))) cs"
  by (simp add: each_channel_def)

lemma each_channel_apply: "each_channel f st cs c = (f ^^ count_list cs c) (st c)"
  by (induction cs arbitrary: st) (simp_all add: funpow_swap1)

lemma use_quota_pow:
  "(use_quota a ^^ n) ch = (if m_limit ch = 0 then ch else ch\<lparr>m_quota_left := m_quota_left ch - int n * a\<rparr>)"
  by (induction n) (simp_all add: use_quota_def algebra_simps)

lemma return_quota_pow:
  "(return_quota a ^^ n) ch = (if m_limit ch = 0 then ch else ch\<lparr>m_quota_left := m_quota_left ch + int n * a\<rparr>)"
  by (induction n) (simp_all add: return_quota_def algebra_simps)

lemma tmp_clear_pow: "(bc_tmp_update (\<lambda>_. 0) ^^ n) ch = (if n = 0 then ch else ch\<lparr>bc_tmp := 0\<rparr>)"
  by (induction n) simp_all

lemma sdiv_nonneg: "0 \<le> a \<Longrightarrow> 0 < b \<Longrightarrow> a sdiv b = a div (b :: int)"
  by (cases "a = 0") (simp_all add: signed_divide_int_def)

subsection \<open>One request\<close>

definition req_ok :: "bw_request \<Rightarrow> bool" where
  "req_ok r \<longleftrightarrow> 0 \<le> bw_assigned r \<and> bw_assigned r < bw_request_size r \<and> 0 < bw_priority r"

text \<open>A channel that is ready for distribution.\<close>

definition ready :: "bandwidth_channel \<Rightarrow> bool" where
  "ready ch \<longleftrightarrow> 0 \<le> distribute_quota ch \<and> 0 \<le> bc_tmp ch"

lemma shares:
  assumes "0 \<le> quota" "0 \<le> prio" "\<forall>c \<in> set cs. ready (st c)"
  shows "0 \<le> foldl (share st prio) quota cs \<and> foldl (share st prio) quota cs \<le> quota \<and>
    (\<forall>c \<in> set cs. m_limit (st c) \<noteq> 0 \<and> bc_tmp (st c) \<noteq> 0 \<longrightarrow>
       foldl (share st prio) quota cs \<le> distribute_quota (st c) * prio div bc_tmp (st c))"
  using assms
proof (induction cs arbitrary: quota)
  case (Cons c cs)
  have c: "0 \<le> distribute_quota (st c)" "0 \<le> bc_tmp (st c)" using Cons.prems(3) by (simp_all add: ready_def)
  have sd: "distribute_quota (st c) * prio sdiv bc_tmp (st c) = distribute_quota (st c) * prio div bc_tmp (st c)"
    if "bc_tmp (st c) \<noteq> 0" using c Cons.prems(2) that by (intro sdiv_nonneg) simp_all
  have pos: "0 \<le> distribute_quota (st c) * prio div bc_tmp (st c)"
    using c Cons.prems(2) by (metis div_by_0 div_int_pos_iff mult_nonneg_nonneg)
  have s: "0 \<le> share st prio quota c" "share st prio quota c \<le> quota"
    "m_limit (st c) \<noteq> 0 \<and> bc_tmp (st c) \<noteq> 0 \<longrightarrow> share st prio quota c \<le> distribute_quota (st c) * prio div bc_tmp (st c)"
    using Cons.prems(1) sd pos by (auto simp: share_def throttle_def)
  show ?case using Cons.IH [OF s(1) Cons.prems(2)] Cons.prems(3) s by auto
qed simp

lemma assign_bandwidth_spec:
  assumes "assign_bandwidth st r = (st', r', a)" "req_ok r" "\<forall>c \<in> set (bw_channel r). ready (st c)"
  shows "0 \<le> a" "a \<le> bw_request_size r - bw_assigned r"
    "r' = r\<lparr>bw_ttl := bw_ttl r - 1, bw_assigned := bw_assigned r + a\<rparr>"
    "st' c = (if m_limit (st c) = 0 then st c
       else (st c)\<lparr>m_quota_left := m_quota_left (st c) - int (count_list (bw_channel r) c) * a\<rparr>)"
    "c \<in> set (bw_channel r) \<Longrightarrow> m_limit (st c) \<noteq> 0 \<Longrightarrow> bc_tmp (st c) \<noteq> 0 \<Longrightarrow>
       a \<le> distribute_quota (st c) * bw_priority r div bc_tmp (st c)"
proof -
  let ?q = "bw_request_size r - bw_assigned r"
  have q: "0 < ?q" "0 \<le> bw_priority r" using assms(2) by (simp_all add: req_ok_def)
  note sh = shares [OF less_imp_le [OF q(1)] q(2) assms(3)]
  have e: "a = foldl (share st (bw_priority r)) ?q (bw_channel r)" "st' = each_channel (use_quota a) st (bw_channel r)"
    "r' = r\<lparr>bw_ttl := bw_ttl r - 1, bw_assigned := bw_assigned r + a\<rparr>"
    using assms(1) q(1) by (auto simp: assign_bandwidth_def Let_def)
  show "0 \<le> a" "a \<le> ?q" "r' = r\<lparr>bw_ttl := bw_ttl r - 1, bw_assigned := bw_assigned r + a\<rparr>"
    "st' c = (if m_limit (st c) = 0 then st c
       else (st c)\<lparr>m_quota_left := m_quota_left (st c) - int (count_list (bw_channel r) c) * a\<rparr>)"
    "c \<in> set (bw_channel r) \<Longrightarrow> m_limit (st c) \<noteq> 0 \<Longrightarrow> bc_tmp (st c) \<noteq> 0 \<Longrightarrow>
       a \<le> distribute_quota (st c) * bw_priority r div bc_tmp (st c)"
    using sh e by (auto simp: each_channel_apply use_quota_pow)
qed

subsection \<open>Distribution\<close>

definition outstanding :: "bw_request list \<Rightarrow> int" where
  "outstanding rs = sum_list (map (\<lambda>r. bw_request_size r - bw_assigned r) rs)"

text \<open>The sum of the priorities of the requests on a channel.\<close>

definition weight :: "bw_request list \<Rightarrow> nat \<Rightarrow> int" where
  "weight rs c = sum_list (map (\<lambda>r. bw_priority r * int (count_list (bw_channel r) c)) rs)"

lemma weight_simps [simp]: "weight [] c = 0"
  "weight (r # rs) c = bw_priority r * int (count_list (bw_channel r) c) + weight rs c"
  by (simp_all add: weight_def)

lemma outstanding_simps [simp]: "outstanding [] = 0"
  "outstanding (r # rs) = bw_request_size r - bw_assigned r + outstanding rs"
  by (simp_all add: outstanding_def)

definition on_channels :: "bw_request list \<Rightarrow> nat set" where
  "on_channels rs = (\<Union>r \<in> set rs. set (bw_channel r))"

lemma on_channels_simps [simp]: "on_channels [] = {}" "on_channels (r # rs) = set (bw_channel r) \<union> on_channels rs"
  by (simp_all add: on_channels_def)

lemma hand_out_spec:
  assumes "hand_out st rs qb = (st', q, qb', tm)" "\<forall>r \<in> set rs. req_ok r" "\<forall>c. ready (st c)"
  shows "qb' - outstanding q = qb - outstanding rs" "\<forall>r \<in> set q. req_ok r"
    "mset (map bw_peer rs) = mset (map bw_peer q) + mset (map bw_peer tm)"
    "\<forall>r \<in> set tm. 0 < bw_assigned r \<and> bw_assigned r \<le> bw_request_size r"
    "\<forall>r \<in> set q. bw_ttl r \<le> 0 \<longrightarrow> bw_assigned r = 0"
    "m_limit (st' c) = m_limit (st c) \<and> bc_tmp (st' c) = bc_tmp (st c) \<and> distribute_quota (st' c) = distribute_quota (st c)"
    "m_limit (st c) \<noteq> 0 \<Longrightarrow> bc_tmp (st c) \<noteq> 0 \<Longrightarrow> m_quota_left (st' c) \<le> m_quota_left (st c) \<and>
       (m_quota_left (st c) - m_quota_left (st' c)) * bc_tmp (st c) \<le> distribute_quota (st c) * weight rs c"
    "c \<notin> on_channels rs \<Longrightarrow> st' c = st c" "on_channels q \<subseteq> on_channels rs"
proof -
  have "qb' - outstanding q = qb - outstanding rs \<and> (\<forall>r \<in> set q. req_ok r) \<and>
    mset (map bw_peer rs) = mset (map bw_peer q) + mset (map bw_peer tm) \<and>
    (\<forall>r \<in> set tm. 0 < bw_assigned r \<and> bw_assigned r \<le> bw_request_size r) \<and>
    (\<forall>r \<in> set q. bw_ttl r \<le> 0 \<longrightarrow> bw_assigned r = 0) \<and>
    (m_limit (st' c) = m_limit (st c) \<and> bc_tmp (st' c) = bc_tmp (st c) \<and> distribute_quota (st' c) = distribute_quota (st c)) \<and>
    (m_limit (st c) \<noteq> 0 \<longrightarrow> bc_tmp (st c) \<noteq> 0 \<longrightarrow> m_quota_left (st' c) \<le> m_quota_left (st c) \<and>
       (m_quota_left (st c) - m_quota_left (st' c)) * bc_tmp (st c) \<le> distribute_quota (st c) * weight rs c) \<and>
    (c \<notin> on_channels rs \<longrightarrow> st' c = st c) \<and> on_channels q \<subseteq> on_channels rs"
    using assms
  proof (induction rs arbitrary: st qb q qb' tm)
    case (Cons r rs)
    obtain st1 r1 a where as: "assign_bandwidth st r = (st1, r1, a)" by (metis prod_cases3)
    define fin where "fin \<longleftrightarrow> bw_assigned r1 = bw_request_size r1 \<or> (bw_ttl r1 \<le> 0 \<and> bw_assigned r1 > 0)"
    define b where "b = (if fin then a + (bw_request_size r1 - bw_assigned r1) else a)"
    obtain q1 tm1 where h: "hand_out st1 rs (qb - b) = (st', q1, qb', tm1)"
      "q = (if fin then q1 else r1 # q1)" "tm = (if fin then r1 # tm1 else tm1)"
      using Cons.prems(1) as by (auto simp: fin_def b_def Let_def split: prod.splits if_splits)
    have r: "req_ok r" "\<forall>c \<in> set (bw_channel r). ready (st c)" using Cons.prems(2,3) by auto
    note A = assign_bandwidth_spec [OF as r]
    have ch: "m_limit (st1 x) = m_limit (st x)" "bc_tmp (st1 x) = bc_tmp (st x)" "distribute_quota (st1 x) = distribute_quota (st x)" for x
      using A(4) [of x] by auto
    have rd: "\<forall>c. ready (st1 c)" using Cons.prems(3) ch by (simp add: ready_def)
    have r1: "bw_request_size r1 = bw_request_size r" "bw_priority r1 = bw_priority r" "bw_channel r1 = bw_channel r"
      "bw_assigned r1 = bw_assigned r + a" "bw_peer r1 = bw_peer r"
      using A(3) by simp_all
    note IH = Cons.IH [OF h(1) _ rd]
    have ok1: "req_ok r1 \<and> (bw_ttl r1 \<le> 0 \<longrightarrow> bw_assigned r1 = 0)" if "\<not> fin"
      using that A(1,2) r(1) r1 by (auto simp: fin_def req_ok_def)
    have f: "0 < bw_assigned r1 \<and> bw_assigned r1 \<le> bw_request_size r1" if fin
      using that A(1,2) r(1) r1 by (auto simp: fin_def req_ok_def)
    let ?n = "int (count_list (bw_channel r) c)"
    have u: "0 \<le> ?n * a" "?n * a * bc_tmp (st c) \<le> distribute_quota (st c) * (bw_priority r * ?n)"
      "m_quota_left (st1 c) = m_quota_left (st c) - ?n * a" if l: "m_limit (st c) \<noteq> 0" "bc_tmp (st c) \<noteq> 0"
    proof -
      show "0 \<le> ?n * a" using A(1) by simp
      show "m_quota_left (st1 c) = m_quota_left (st c) - ?n * a" using A(4) [of c] l by simp
      show "?n * a * bc_tmp (st c) \<le> distribute_quota (st c) * (bw_priority r * ?n)"
      proof (cases "c \<in> set (bw_channel r)")
        case True
        have t: "0 < bc_tmp (st c)" using Cons.prems(3) l(2) by (simp add: ready_def order_less_le)
        have "a * bc_tmp (st c) \<le> distribute_quota (st c) * bw_priority r"
          using mult_right_mono [OF A(5) [OF True l], of "bc_tmp (st c)"] t
            div_mult_mod_eq [of "distribute_quota (st c) * bw_priority r" "bc_tmp (st c)"]
            pos_mod_sign [of "bc_tmp (st c)" "distribute_quota (st c) * bw_priority r"] by linarith
        from mult_left_mono [OF this, of ?n] show ?thesis by (simp add: algebra_simps)
      qed (simp add: count_notin)
    qed
    have rs: "\<forall>r \<in> set rs. req_ok r" using Cons.prems(2) by simp
    note I = IH [OF rs]
    have "(m_quota_left (st c) - m_quota_left (st' c)) * bc_tmp (st c) \<le> distribute_quota (st c) * weight (r # rs) c"
      if l: "m_limit (st c) \<noteq> 0" "bc_tmp (st c) \<noteq> 0"
    proof -
      have "(m_quota_left (st1 c) - m_quota_left (st' c)) * bc_tmp (st c) \<le> distribute_quota (st c) * weight rs c"
        using I l ch by simp
      moreover have "(m_quota_left (st c) - m_quota_left (st' c)) * bc_tmp (st c) =
          (m_quota_left (st1 c) - m_quota_left (st' c)) * bc_tmp (st c) + ?n * a * bc_tmp (st c)"
        unfolding u(3) [OF l] by (simp add: algebra_simps)
      ultimately show ?thesis using u(2) [OF l] unfolding weight_simps distrib_left by linarith
    qed
    moreover have "m_quota_left (st' c) \<le> m_quota_left (st c)" if l: "m_limit (st c) \<noteq> 0" "bc_tmp (st c) \<noteq> 0"
      using I l ch u(1,3) [OF l] by simp
    moreover have "st' c = st c" if "c \<notin> on_channels (r # rs)"
      using I A(4) [of c] that by (simp add: count_notin)
    moreover have "on_channels q \<subseteq> on_channels (r # rs)" using I h(2) r1(3) by auto
    moreover have "qb' - outstanding q = qb - outstanding (r # rs)" using I h(2) r1 by (cases fin) (simp_all add: b_def)
    moreover have "mset (map bw_peer (r # rs)) = mset (map bw_peer q) + mset (map bw_peer tm)" using I h(2,3) r1(5) by simp
    ultimately show ?case using I h(2,3) ch ok1 f by (simp split: if_splits)
  qed simp
  then show "qb' - outstanding q = qb - outstanding rs" "\<forall>r \<in> set q. req_ok r"
    "mset (map bw_peer rs) = mset (map bw_peer q) + mset (map bw_peer tm)"
    "\<forall>r \<in> set tm. 0 < bw_assigned r \<and> bw_assigned r \<le> bw_request_size r"
    "\<forall>r \<in> set q. bw_ttl r \<le> 0 \<longrightarrow> bw_assigned r = 0"
    "m_limit (st' c) = m_limit (st c) \<and> bc_tmp (st' c) = bc_tmp (st c) \<and> distribute_quota (st' c) = distribute_quota (st c)"
    "m_limit (st c) \<noteq> 0 \<Longrightarrow> bc_tmp (st c) \<noteq> 0 \<Longrightarrow> m_quota_left (st' c) \<le> m_quota_left (st c) \<and>
       (m_quota_left (st c) - m_quota_left (st' c)) * bc_tmp (st c) \<le> distribute_quota (st c) * weight rs c"
    "c \<notin> on_channels rs \<Longrightarrow> st' c = st c" "on_channels q \<subseteq> on_channels rs"
    by blast+
qed

subsection \<open>Preparing a round\<close>

lemma drop_disconnecting_spec:
  assumes "drop_disconnecting gone st rs qb = (st', q, qb')" "\<forall>r \<in> set rs. 0 \<le> bw_assigned r"
  shows "q = filter (\<lambda>r. \<not> gone (bw_peer r)) rs" "qb' - outstanding q = qb - outstanding rs"
    "m_limit (st' c) = m_limit (st c) \<and> distribute_quota (st' c) = distribute_quota (st c)"
    "m_quota_left (st c) \<le> m_quota_left (st' c)"
    "bc_tmp (st' c) = (if c \<in> on_channels q then 0 else bc_tmp (st c))"
proof -
  have "q = filter (\<lambda>r. \<not> gone (bw_peer r)) rs \<and> qb' - outstanding q = qb - outstanding rs \<and>
    (m_limit (st' c) = m_limit (st c) \<and> distribute_quota (st' c) = distribute_quota (st c)) \<and>
    m_quota_left (st c) \<le> m_quota_left (st' c) \<and> bc_tmp (st' c) = (if c \<in> on_channels q then 0 else bc_tmp (st c))"
    using assms
  proof (induction rs arbitrary: st qb q qb')
    case (Cons r rs)
    show ?case
    proof (cases "gone (bw_peer r)")
      case True
      let ?st = "each_channel (return_quota (bw_assigned r)) st (bw_channel r)"
      have d: "drop_disconnecting gone ?st rs (qb - (bw_request_size r - bw_assigned r)) = (st', q, qb')"
        using Cons.prems(1) True by simp
      have "m_quota_left (st c) \<le> m_quota_left (?st c)"
        using Cons.prems(2) by (simp add: each_channel_apply return_quota_pow)
      moreover have "m_limit (?st c) = m_limit (st c)" "distribute_quota (?st c) = distribute_quota (st c)" "bc_tmp (?st c) = bc_tmp (st c)"
        by (simp_all add: each_channel_apply return_quota_pow)
      ultimately show ?thesis using Cons.IH [OF d] Cons.prems(2) True by auto
    next
      case False
      let ?st = "each_channel (bc_tmp_update (\<lambda>_. 0)) st (bw_channel r)"
      obtain q1 where d: "drop_disconnecting gone ?st rs qb = (st', q1, qb')" "q = r # q1"
        using Cons.prems(1) False by (auto split: prod.splits)
      have "m_limit (?st c) = m_limit (st c)" "distribute_quota (?st c) = distribute_quota (st c)"
        "m_quota_left (?st c) = m_quota_left (st c)" "bc_tmp (?st c) = (if c \<in> set (bw_channel r) then 0 else bc_tmp (st c))"
        by (simp_all add: each_channel_apply tmp_clear_pow count_list_0_iff)
      then show ?thesis using Cons.IH [OF d(1)] Cons.prems(2) False d(2) by auto
    qed
  qed simp
  then show "q = filter (\<lambda>r. \<not> gone (bw_peer r)) rs" "qb' - outstanding q = qb - outstanding rs"
    "m_limit (st' c) = m_limit (st c) \<and> distribute_quota (st' c) = distribute_quota (st c)"
    "m_quota_left (st c) \<le> m_quota_left (st' c)"
    "bc_tmp (st' c) = (if c \<in> on_channels q then 0 else bc_tmp (st c))" by blast+
qed

text \<open>\<open>tally\<close> on the list of its pairs of a priority and a channel.\<close>

abbreviation tally_pairs :: "store \<times> nat list \<Rightarrow> (int \<times> nat) list \<Rightarrow> store \<times> nat list" where
  "tally_pairs \<equiv> foldl (\<lambda>a (p, c). tally_one p a c)"

definition pairs :: "bw_request list \<Rightarrow> (int \<times> nat) list" where
  "pairs rs = concat (map (\<lambda>r. map (Pair (bw_priority r)) (bw_channel r)) rs)"

lemma tally_pairs_eq: "tally a rs = tally_pairs a (pairs rs)"
  by (induction rs arbitrary: a) (simp_all add: tally_def pairs_def foldl_map)

lemma tally_pairs_spec:
  assumes "tally_pairs (st, cs) ps = (st', cs')" "\<forall>(p, c) \<in> set ps. 0 < p \<and> (bc_tmp (st c) = 0 \<longleftrightarrow> c \<notin> set cs) \<and> 0 \<le> bc_tmp (st c)"
    "distinct cs"
  shows "distinct cs' \<and> set cs' = set cs \<union> snd ` set ps \<and>
    st' c = (st c)\<lparr>bc_tmp := bc_tmp (st c) + sum_list (map fst (filter (\<lambda>x. snd x = c) ps))\<rparr>"
  using assms
proof (induction ps arbitrary: st cs)
  case (Cons x ps)
  obtain p d where x: "x = (p, d)" by fastforce
  have d: "0 < p" "bc_tmp (st d) = 0 \<longleftrightarrow> d \<notin> set cs" "0 \<le> bc_tmp (st d)" using Cons.prems(2) x by auto
  let ?st = "st(d := (st d)\<lparr>bc_tmp := bc_tmp (st d) + p\<rparr>)"
  let ?cs = "if bc_tmp (st d) = 0 then cs @ [d] else cs"
  have t: "tally_pairs (?st, ?cs) ps = (st', cs')" using Cons.prems(1) by (simp add: x tally_one_def)
  have "\<forall>(p, c) \<in> set ps. 0 < p \<and> (bc_tmp (?st c) = 0 \<longleftrightarrow> c \<notin> set ?cs) \<and> 0 \<le> bc_tmp (?st c)"
  proof clarify
    fix p' c' assume "(p', c') \<in> set ps"
    then have "0 < p'" "bc_tmp (st c') = 0 \<longleftrightarrow> c' \<notin> set cs" "0 \<le> bc_tmp (st c')" using Cons.prems(2) by auto
    then show "0 < p' \<and> (bc_tmp (?st c') = 0 \<longleftrightarrow> c' \<notin> set ?cs) \<and> 0 \<le> bc_tmp (?st c')"
      using d by (cases "c' = d") auto
  qed
  moreover have "distinct ?cs" using Cons.prems(3) d(2) by auto
  ultimately have "distinct cs' \<and> set cs' = set ?cs \<union> snd ` set ps \<and>
    st' c = (?st c)\<lparr>bc_tmp := bc_tmp (?st c) + sum_list (map fst (filter (\<lambda>x. snd x = c) ps))\<rparr>"
    by (rule Cons.IH [OF t])
  then show ?case using d(2) by (auto simp: x)
qed simp

lemma weight_pairs: "sum_list (map fst (filter (\<lambda>x. snd x = c) (pairs rs))) = weight rs c"
proof -
  have "sum_list (map fst (filter (\<lambda>x. snd x = c) (map (Pair p) cs))) = p * int (count_list cs c)" for p cs
    by (induction cs) (simp_all add: algebra_simps)
  then show ?thesis by (induction rs) (simp_all add: pairs_def)
qed

lemma tally_spec:
  assumes "tally (st, []) rs = (st', cs)" "\<forall>r \<in> set rs. 0 < bw_priority r" "\<forall>c \<in> on_channels rs. bc_tmp (st c) = 0"
  shows "distinct cs" "set cs = on_channels rs" "st' c = (st c)\<lparr>bc_tmp := bc_tmp (st c) + weight rs c\<rparr>"
proof -
  have "distinct cs \<and> set cs = set [] \<union> snd ` set (pairs rs) \<and>
    st' c = (st c)\<lparr>bc_tmp := bc_tmp (st c) + sum_list (map fst (filter (\<lambda>x. snd x = c) (pairs rs)))\<rparr>"
    by (rule tally_pairs_spec [OF assms(1) [unfolded tally_pairs_eq]])
      (use assms(2,3) in \<open>auto simp: pairs_def on_channels_def\<close>)
  moreover have "snd ` set (pairs rs) = on_channels rs" by (auto simp: pairs_def on_channels_def image_iff)
  ultimately show "distinct cs" "set cs = on_channels rs" "st' c = (st c)\<lparr>bc_tmp := bc_tmp (st c) + weight rs c\<rparr>"
    by (simp_all add: weight_pairs)
qed

lemma weight_nonneg: "\<forall>r \<in> set rs. 0 < bw_priority r \<Longrightarrow> 0 \<le> weight rs c"
  by (induction rs) auto

lemma weight_pos: "\<forall>r \<in> set rs. 0 < bw_priority r \<Longrightarrow> c \<in> on_channels rs \<Longrightarrow> 0 < weight rs c"
proof (induction rs)
  case (Cons r rs)
  have w: "0 \<le> weight rs c" using Cons.prems(1) by (simp add: weight_nonneg)
  show ?case
  proof (cases "c \<in> set (bw_channel r)")
    case True
    then have "0 < int (count_list (bw_channel r) c)" by (metis count_list_0_iff of_nat_0_less_iff gr0I)
    then show ?thesis using Cons.prems(1) w by (simp add: add_pos_nonneg)
  qed (use Cons w in auto)
qed simp

lemma refill_spec:
  assumes "distinct cs"
  shows "each_channel (update_quota dt) st cs c = (if c \<in> set cs then update_quota dt (st c) else st c)"
proof -
  have "count_list cs c = (if c \<in> set cs then 1 else 0)" using assms by (induction cs) auto
  then show ?thesis by (simp add: each_channel_apply)
qed

subsection \<open>A round\<close>

text \<open>The assertion in \<^verbatim>\<open>throttle\<close> on the limit, and what it gives.\<close>

definition limit_ok :: "int \<Rightarrow> bool" where
  "limit_ok limit \<longleftrightarrow> 0 \<le> limit \<and> limit < (2 ^ 31 - 1) div 31"

definition chan_ok :: "bandwidth_channel \<Rightarrow> bool" where
  "chan_ok ch \<longleftrightarrow> limit_ok (m_limit ch) \<and> 0 \<le> distribute_quota ch \<and> distribute_quota ch < 2 ^ 31 \<and> 0 \<le> bc_tmp ch"

definition bw_inv :: "store \<Rightarrow> bandwidth_manager \<Rightarrow> bool" where
  "bw_inv st m \<longleftrightarrow> (\<forall>c. chan_ok (st c)) \<and> (\<forall>r \<in> set (m_queue m). req_ok r) \<and> m_queued_bytes m = outstanding (m_queue m) \<and>
     (m_abort m \<longrightarrow> m_queue m = [])"

abbreviation staying :: "(nat \<Rightarrow> bool) \<Rightarrow> bandwidth_manager \<Rightarrow> bw_request list" where
  "staying gone m \<equiv> filter (\<lambda>r. \<not> gone (bw_peer r)) (m_queue m)"

lemma update_quota_spec:
  assumes "chan_ok ch" "0 \<le> dt"
  shows "chan_ok (update_quota dt ch)" "bc_tmp (update_quota dt ch) = bc_tmp ch" "m_limit (update_quota dt ch) = m_limit ch"
    "m_limit ch \<noteq> 0 \<Longrightarrow> min 0 (m_quota_left ch) \<le> m_quota_left (update_quota dt ch) \<and>
       m_quota_left (update_quota dt ch) \<le> 3 * m_limit ch \<and>
       distribute_quota (update_quota dt ch) = max (m_quota_left (update_quota dt ch)) 0"
proof -
  have "0 \<le> (m_limit ch * dt + 500) sdiv 1000"
    using assms mult_nonneg_nonneg [of "m_limit ch" dt] by (simp add: sdiv_nonneg pos_imp_zdiv_nonneg_iff chan_ok_def limit_ok_def)
  then show "chan_ok (update_quota dt ch)" "bc_tmp (update_quota dt ch) = bc_tmp ch" "m_limit (update_quota dt ch) = m_limit ch"
    "m_limit ch \<noteq> 0 \<Longrightarrow> min 0 (m_quota_left ch) \<le> m_quota_left (update_quota dt ch) \<and>
       m_quota_left (update_quota dt ch) \<le> 3 * m_limit ch \<and>
       distribute_quota (update_quota dt ch) = max (m_quota_left (update_quota dt ch)) 0"
    using assms(1) by (auto simp: update_quota_def Let_def chan_ok_def limit_ok_def)
qed

text \<open>The state before \<open>hand_out\<close>, and what it does to the result.\<close>

lemma round_parts:
  assumes inv: "bw_inv st m" and dt: "0 \<le> dt" and u: "update_quotas gone dt st m = (st', m', calls)" and ne: "m_queue m \<noteq> []"
  obtains st3 q qb tm where "hand_out st3 (staying gone m) (outstanding (staying gone m)) = (st', q, qb, tm)"
    "m' = m\<lparr>m_queue := q, m_queued_bytes := qb\<rparr>" "calls = map (\<lambda>r. (bw_peer r, bw_assigned r)) (rev tm)"
    "\<forall>x. chan_ok (st3 x)" "\<forall>x. m_limit (st3 x) = m_limit (st x)"
    "\<forall>c \<in> on_channels (staying gone m). bc_tmp (st3 c) = weight (staying gone m) c \<and> 0 < weight (staying gone m) c \<and>
       (m_limit (st c) \<noteq> 0 \<longrightarrow> min 0 (m_quota_left (st c)) \<le> m_quota_left (st3 c) \<and> m_quota_left (st3 c) \<le> 3 * m_limit (st c) \<and>
          distribute_quota (st3 c) = max (m_quota_left (st3 c)) 0)"
proof -
  have na: "\<not> m_abort m" using inv ne by (auto simp: bw_inv_def)
  define ms where "ms = (if dt > 3000 then 3000 else dt)"
  have ms: "0 \<le> ms" using dt by (simp add: ms_def)
  obtain st1 q1 qb1 where d: "drop_disconnecting gone st (m_queue m) (m_queued_bytes m) = (st1, q1, qb1)" by (metis prod_cases3)
  obtain st2 cs where t: "tally (st1, []) q1 = (st2, cs)" by fastforce
  define st3 where "st3 = each_channel (update_quota ms) st2 cs"
  obtain q4 qb4 tm where h: "hand_out st3 q1 qb1 = (st', q4, qb4, tm)" and m': "m' = m\<lparr>m_queue := q4, m_queued_bytes := qb4\<rparr>"
    and calls: "calls = map (\<lambda>r. (bw_peer r, bw_assigned r)) (rev tm)"
    using u ne na d t by (auto simp: update_quotas_def Let_def ms_def st3_def split: prod.splits)
  have I: "\<forall>c. chan_ok (st c)" "\<forall>r \<in> set (m_queue m). req_ok r" "m_queued_bytes m = outstanding (m_queue m)"
    using inv by (simp_all add: bw_inv_def)
  have as: "\<forall>r \<in> set (m_queue m). 0 \<le> bw_assigned r" using I(2) by (simp add: req_ok_def)
  note D = drop_disconnecting_spec [OF d as]
  have pr: "\<forall>r \<in> set q1. 0 < bw_priority r" using D(1) I(2) by (simp add: req_ok_def)
  have z: "\<forall>c \<in> on_channels q1. bc_tmp (st1 c) = 0" using D(5) by simp
  note T = tally_spec [OF t pr z]
  have ok2: "chan_ok (st2 x)" for x
    using T(3) [of x] D(3,5) [of x] I(1) weight_nonneg [OF pr, of x] by (auto simp: chan_ok_def)
  have s3: "st3 x = (if x \<in> on_channels q1 then update_quota ms (st2 x) else st2 x)" for x
    unfolding st3_def refill_spec [OF T(1)] T(2) ..
  have lim2: "m_limit (st2 x) = m_limit (st x)" for x using T(3) [of x] D(3) [of x] by simp
  show thesis
  proof (rule that)
    show "hand_out st3 (staying gone m) (outstanding (staying gone m)) = (st', q4, qb4, tm)" using h D(1,2) I(3) by simp
    show "\<forall>x. chan_ok (st3 x)" using update_quota_spec(1) [OF ok2 ms] ok2 by (simp add: s3)
    show "\<forall>x. m_limit (st3 x) = m_limit (st x)" using update_quota_spec(3) [OF ok2 ms] lim2 by (simp add: s3)
    have "bc_tmp (st3 c) = weight q1 c \<and> 0 < weight q1 c \<and>
       (m_limit (st c) \<noteq> 0 \<longrightarrow> min 0 (m_quota_left (st c)) \<le> m_quota_left (st3 c) \<and> m_quota_left (st3 c) \<le> 3 * m_limit (st c) \<and>
          distribute_quota (st3 c) = max (m_quota_left (st3 c)) 0)" if c: "c \<in> on_channels q1" for c
    proof -
      have s3c: "st3 c = update_quota ms (st2 c)" using s3 c by simp
      have "bc_tmp (st2 c) = weight q1 c" using T(3) [of c] z c by simp
      moreover have "m_quota_left (st c) \<le> m_quota_left (st2 c)" using T(3) [of c] D(4) [of c] by simp
      ultimately show ?thesis
        using update_quota_spec(2,4) [OF ok2 ms, of c] lim2 [of c] weight_pos [OF pr c] unfolding s3c by auto
    qed
    then show "\<forall>c \<in> on_channels (staying gone m). bc_tmp (st3 c) = weight (staying gone m) c \<and> 0 < weight (staying gone m) c \<and>
       (m_limit (st c) \<noteq> 0 \<longrightarrow> min 0 (m_quota_left (st c)) \<le> m_quota_left (st3 c) \<and> m_quota_left (st3 c) \<le> 3 * m_limit (st c) \<and>
          distribute_quota (st3 c) = max (m_quota_left (st3 c)) 0)" unfolding D(1) by blast
  qed (fact m' calls)+
qed

lemma round_spec:
  assumes inv: "bw_inv st m" and dt: "0 \<le> dt" and u: "update_quotas gone dt st m = (st', m', calls)"
  shows "bw_inv st' m'"
    "mset (map bw_peer (staying gone m)) = mset (map bw_peer (m_queue m')) + mset (map fst calls)"
    "\<forall>(p, n) \<in> set calls. 0 < n"
    "m_queue m \<noteq> [] \<Longrightarrow> \<forall>r \<in> set (m_queue m'). bw_ttl r \<le> 0 \<longrightarrow> bw_assigned r = 0"
    "c \<in> on_channels (staying gone m) \<Longrightarrow> 0 < m_limit (st c) \<Longrightarrow>
       min 0 (m_quota_left (st c)) \<le> m_quota_left (st' c) \<and> m_quota_left (st' c) \<le> 3 * m_limit (st c)"
    "m_limit (st' c) = m_limit (st c)"
proof -
  have "bw_inv st' m' \<and> mset (map bw_peer (staying gone m)) = mset (map bw_peer (m_queue m')) + mset (map fst calls) \<and>
    (\<forall>(p, n) \<in> set calls. 0 < n) \<and> (m_queue m \<noteq> [] \<longrightarrow> (\<forall>r \<in> set (m_queue m'). bw_ttl r \<le> 0 \<longrightarrow> bw_assigned r = 0)) \<and>
    (c \<in> on_channels (staying gone m) \<longrightarrow> 0 < m_limit (st c) \<longrightarrow>
       min 0 (m_quota_left (st c)) \<le> m_quota_left (st' c) \<and> m_quota_left (st' c) \<le> 3 * m_limit (st c)) \<and>
    m_limit (st' c) = m_limit (st c)"
  proof (cases "m_queue m = []")
    case True
    then have "st' = st" "m' = m" "calls = []" using u by (simp_all add: update_quotas_def split: if_splits)
    then show ?thesis using inv True by simp
  next
    case False
    obtain st3 q qb tm where h: "hand_out st3 (staying gone m) (outstanding (staying gone m)) = (st', q, qb, tm)"
      and m': "m' = m\<lparr>m_queue := q, m_queued_bytes := qb\<rparr>" and calls: "calls = map (\<lambda>r. (bw_peer r, bw_assigned r)) (rev tm)"
      and ok3: "\<forall>x. chan_ok (st3 x)" and lim3: "\<forall>x. m_limit (st3 x) = m_limit (st x)"
      and chan: "\<forall>c \<in> on_channels (staying gone m). bc_tmp (st3 c) = weight (staying gone m) c \<and> 0 < weight (staying gone m) c \<and>
       (m_limit (st c) \<noteq> 0 \<longrightarrow> min 0 (m_quota_left (st c)) \<le> m_quota_left (st3 c) \<and> m_quota_left (st3 c) \<le> 3 * m_limit (st c) \<and>
          distribute_quota (st3 c) = max (m_quota_left (st3 c)) 0)"
      by (rule round_parts [OF inv dt u False])
    have r1: "\<forall>r \<in> set (staying gone m). req_ok r" using inv by (simp add: bw_inv_def)
    have rd: "\<forall>x. ready (st3 x)" using ok3 by (simp add: chan_ok_def ready_def)
    note H = hand_out_spec [OF h r1 rd]
    have "chan_ok (st' x)" for x using ok3 [THEN spec, of x] H(6) [of x] by (simp add: chan_ok_def)
    then have "bw_inv st' m'" using H(1,2) False inv by (auto simp: bw_inv_def m')
    moreover have "mset (map bw_peer (staying gone m)) = mset (map bw_peer q) + mset (map fst calls)"
      using H(3) by (simp add: calls comp_def)
    moreover have "\<forall>(p, n) \<in> set calls. 0 < n" using H(4) by (auto simp: calls)
    moreover have "min 0 (m_quota_left (st c)) \<le> m_quota_left (st' c) \<and> m_quota_left (st' c) \<le> 3 * m_limit (st c)"
      if c: "c \<in> on_channels (staying gone m)" "0 < m_limit (st c)"
    proof -
      let ?w = "weight (staying gone m) c"
      note C = chan [THEN bspec, OF c(1)]
      have "m_quota_left (st' c) \<le> m_quota_left (st3 c)" "(m_quota_left (st3 c) - m_quota_left (st' c)) * ?w \<le> distribute_quota (st3 c) * ?w"
        using H(7) [of c] lim3 c(2) C by auto
      then have "m_quota_left (st' c) \<le> m_quota_left (st3 c)" "m_quota_left (st3 c) - m_quota_left (st' c) \<le> distribute_quota (st3 c)"
        using C by (auto intro: mult_right_le_imp_le)
      then show ?thesis using C c(2) by linarith
    qed
    ultimately show ?thesis using H(5) H(6) [of c] lim3 by (simp add: m')
  qed
  then show "bw_inv st' m'"
    "mset (map bw_peer (staying gone m)) = mset (map bw_peer (m_queue m')) + mset (map fst calls)"
    "\<forall>(p, n) \<in> set calls. 0 < n"
    "m_queue m \<noteq> [] \<Longrightarrow> \<forall>r \<in> set (m_queue m'). bw_ttl r \<le> 0 \<longrightarrow> bw_assigned r = 0"
    "c \<in> on_channels (staying gone m) \<Longrightarrow> 0 < m_limit (st c) \<Longrightarrow>
       min 0 (m_quota_left (st c)) \<le> m_quota_left (st' c) \<and> m_quota_left (st' c) \<le> 3 * m_limit (st c)"
    "m_limit (st' c) = m_limit (st c)" by blast+
qed

subsection \<open>Starvation\<close>

text \<open>Every request waits for channel \<open>c\<close>, has got nothing yet, and the sum of the priorities is too large.\<close>

definition starving :: "store \<Rightarrow> bandwidth_manager \<Rightarrow> nat \<Rightarrow> bool" where
  "starving st m c \<longleftrightarrow> 0 < m_limit (st c) \<and> (\<forall>r \<in> set (m_queue m). bw_assigned r = 0 \<and> c \<in> set (bw_channel r) \<and>
     3 * m_limit (st c) * bw_priority r < weight (m_queue m) c)"

lemma hand_out_starved:
  assumes "\<forall>r \<in> set rs. req_ok r \<and> bw_assigned r = 0 \<and> c \<in> set (bw_channel r) \<and> distribute_quota (st c) * bw_priority r < bc_tmp (st c)"
    "\<forall>c. ready (st c)" "m_limit (st c) \<noteq> 0"
  shows "hand_out st rs qb = (st, map (bw_ttl_update (\<lambda>t. t - 1)) rs, qb, [])"
  using assms(1)
proof (induction rs arbitrary: qb)
  case (Cons r rs)
  obtain st1 r1 a where as: "assign_bandwidth st r = (st1, r1, a)" by (metis prod_cases3)
  have r: "req_ok r" "\<forall>c \<in> set (bw_channel r). ready (st c)" "bw_assigned r = 0" using Cons.prems assms(2) by auto
  have c: "c \<in> set (bw_channel r)" "0 \<le> distribute_quota (st c) * bw_priority r" "distribute_quota (st c) * bw_priority r < bc_tmp (st c)"
    using Cons.prems assms(2) r(1) by (auto simp: ready_def req_ok_def)
  note A = assign_bandwidth_spec [OF as r(1,2)]
  have "a \<le> distribute_quota (st c) * bw_priority r div bc_tmp (st c)" using A(5) [OF c(1) assms(3)] c by simp
  also have "\<dots> = 0" using c(2,3) by (rule div_pos_pos_trivial)
  finally have a: "a = 0" using A(1) by simp
  have "st1 x = st x" for x using A(4) [of x] a by simp
  then have "st1 = st" by blast
  moreover have "r1 = r\<lparr>bw_ttl := bw_ttl r - 1\<rparr>" using A(3) a r(3) by simp
  moreover have "bw_request_size r \<noteq> 0" using r by (simp add: req_ok_def)
  ultimately show ?case using Cons.IH [of qb] Cons.prems as a r(3) by simp
qed simp

lemma weight_ttl [simp]: "weight (map (bw_ttl_update f) rs) c = weight rs c"
  by (induction rs) simp_all

lemma starved_round:
  assumes inv: "bw_inv st m" and dt: "0 \<le> dt" and u: "update_quotas (\<lambda>_. False) dt st m = (st', m', calls)" and s: "starving st m c"
  shows "calls = []" "m_queue m' = map (bw_ttl_update (\<lambda>t. t - 1)) (m_queue m)" "starving st' m' c"
proof -
  have "calls = [] \<and> m_queue m' = map (bw_ttl_update (\<lambda>t. t - 1)) (m_queue m)"
  proof (cases "m_queue m = []")
    case True
    then show ?thesis using u by (simp add: update_quotas_def split: if_splits)
  next
    case False
    let ?rs = "m_queue m"
    obtain r0 where "r0 \<in> set ?rs" using False by (cases "m_queue m") auto
    then have c: "c \<in> on_channels ?rs" using s by (auto simp: starving_def on_channels_def)
    obtain st3 q qb tm where h: "hand_out st3 (staying (\<lambda>_. False) m) (outstanding (staying (\<lambda>_. False) m)) = (st', q, qb, tm)"
      and m': "m' = m\<lparr>m_queue := q, m_queued_bytes := qb\<rparr>" and calls: "calls = map (\<lambda>r. (bw_peer r, bw_assigned r)) (rev tm)"
      and ok3: "\<forall>x. chan_ok (st3 x)" and lim3: "\<forall>x. m_limit (st3 x) = m_limit (st x)"
      and ch: "\<forall>c \<in> on_channels (staying (\<lambda>_. False) m). bc_tmp (st3 c) = weight (staying (\<lambda>_. False) m) c \<and> 0 < weight (staying (\<lambda>_. False) m) c \<and>
       (m_limit (st c) \<noteq> 0 \<longrightarrow> min 0 (m_quota_left (st c)) \<le> m_quota_left (st3 c) \<and> m_quota_left (st3 c) \<le> 3 * m_limit (st c) \<and>
          distribute_quota (st3 c) = max (m_quota_left (st3 c)) 0)"
      by (rule round_parts [OF inv dt u False])
    have chan: "bc_tmp (st3 c) = weight ?rs c" "distribute_quota (st3 c) \<le> 3 * m_limit (st c)"
      using ch c s by (auto simp: starving_def)
    have rd: "\<forall>x. ready (st3 x)" using ok3 by (simp add: chan_ok_def ready_def)
    have "\<forall>r \<in> set ?rs. req_ok r \<and> bw_assigned r = 0 \<and> c \<in> set (bw_channel r) \<and> distribute_quota (st3 c) * bw_priority r < bc_tmp (st3 c)"
    proof
      fix r assume r: "r \<in> set ?rs"
      then have rok: "req_ok r" using inv by (simp add: bw_inv_def)
      have "distribute_quota (st3 c) * bw_priority r \<le> 3 * m_limit (st c) * bw_priority r"
        using chan(2) rok by (intro mult_right_mono) (auto simp: req_ok_def)
      also have "\<dots> < weight ?rs c" using s r by (simp add: starving_def)
      finally show "req_ok r \<and> bw_assigned r = 0 \<and> c \<in> set (bw_channel r) \<and> distribute_quota (st3 c) * bw_priority r < bc_tmp (st3 c)"
        using s r rok chan(1) by (simp add: starving_def)
    qed
    then have "hand_out st3 ?rs (outstanding ?rs) = (st3, map (bw_ttl_update (\<lambda>t. t - 1)) ?rs, outstanding ?rs, [])"
      using rd lim3 s by (intro hand_out_starved) (auto simp: starving_def)
    then show ?thesis using h m' calls by simp
  qed
  then show "calls = []" and q: "m_queue m' = map (bw_ttl_update (\<lambda>t. t - 1)) (m_queue m)" by blast+
  show "starving st' m' c" using s round_spec(6) [OF inv dt u, of c] by (auto simp: starving_def q)
qed

subsection \<open>Runs\<close>

text \<open>
  What the session does with the limiter: it changes limits, charges channels for overhead or
  returns quota, requests bandwidth, and calls \<^verbatim>\<open>update_quotas\<close> on every tick.
\<close>

inductive bw_reachable :: "store \<Rightarrow> bandwidth_manager \<Rightarrow> bool" where
  bw_start: "bw_reachable (\<lambda>_. bandwidth_channel_init) (bandwidth_manager_init channel)"
| bw_throttle: "bw_reachable st m \<Longrightarrow> limit_ok limit \<Longrightarrow> bw_reachable (st(c := set_throttle limit (st c))) m"
| bw_use: "bw_reachable st m \<Longrightarrow> 0 \<le> amount \<Longrightarrow> bw_reachable (st(c := use_quota amount (st c))) m"
| bw_return: "bw_reachable st m \<Longrightarrow> 0 \<le> amount \<Longrightarrow> bw_reachable (st(c := return_quota amount (st c))) m"
| bw_req: "bw_reachable st m \<Longrightarrow> 0 < blk \<Longrightarrow> 0 < prio \<Longrightarrow> \<not> is_queued m peer \<Longrightarrow>
    bw_reachable st (fst (request_bandwidth st m peer blk prio chans))"
| bw_update: "bw_reachable st m \<Longrightarrow> 0 \<le> dt \<Longrightarrow> update_quotas gone dt st m = (st', m', calls) \<Longrightarrow> bw_reachable st' m'"
| bw_close: "bw_reachable st m \<Longrightarrow> bw_reachable st (close m)"

lemma outstanding_append [simp]: "outstanding (xs @ ys) = outstanding xs + outstanding ys"
  by (simp add: outstanding_def)

lemma request_inv:
  "bw_inv st m \<Longrightarrow> 0 < blk \<Longrightarrow> 0 < prio \<Longrightarrow> bw_inv st (fst (request_bandwidth st m peer blk prio chans))"
  by (auto simp: bw_inv_def request_bandwidth_def Let_def bw_request_init_def req_ok_def)

lemma bw_reachable_inv: "bw_reachable st m \<Longrightarrow> bw_inv st m"
proof (induction rule: bw_reachable.induct)
  case (bw_update st m dt gone st' m' calls)
  then show ?case using round_spec(1) by blast
next
  case (bw_req st m blk prio peer chans)
  then show ?case by (simp add: request_inv)
qed (auto simp: bw_inv_def bandwidth_channel_init_def bandwidth_manager_init_def chan_ok_def limit_ok_def
    set_throttle_def use_quota_def return_quota_def close_def)

lemma check_queue_iff: "check_queue m \<longleftrightarrow> m_queued_bytes m = outstanding (m_queue m)"
proof -
  have "foldl (\<lambda>queued r. queued + (bw_request_size r - bw_assigned r)) n rs = n + outstanding rs" for n rs
    by (induction rs arbitrary: n) simp_all
  then show ?thesis by (auto simp: check_queue_def)
qed

fun bw_rounds :: "nat \<Rightarrow> int \<Rightarrow> store \<Rightarrow> bandwidth_manager \<Rightarrow> store \<times> bandwidth_manager \<times> (nat \<times> int) list" where
  "bw_rounds 0 dt st m = (st, m, [])"
| "bw_rounds (Suc n) dt st m =
     (let (st, m, calls) = update_quotas (\<lambda>_. False) dt st m; (st, m, more) = bw_rounds n dt st m in (st, m, calls @ more))"

lemma starved_rounds:
  assumes "bw_inv st m" "0 \<le> dt" "starving st m c"
  shows "snd (snd (bw_rounds n dt st m)) = [] \<and> queue_size (fst (snd (bw_rounds n dt st m))) = queue_size m"
  using assms
proof (induction n arbitrary: st m)
  case (Suc n)
  obtain st' m' calls where u: "update_quotas (\<lambda>_. False) dt st m = (st', m', calls)" by (metis prod_cases3)
  note S = starved_round [OF Suc.prems(1,2) u Suc.prems(3)]
  have "bw_inv st' m'" by (rule round_spec(1) [OF Suc.prems(1,2) u])
  from Suc.IH [OF this Suc.prems(2) S(3)] show ?case
    using u S(1,2) by (auto simp: Let_def queue_size_def split: prod.splits)
qed simp

subsection \<open>Properties\<close>

text \<open>A channel with a limit of 1000 bytes per second and one with 1, and requests on them.\<close>

definition demo_store :: store where
  "demo_store = (\<lambda>_. bandwidth_channel_init)(0 := set_throttle 1000 bandwidth_channel_init, 1 := set_throttle 1 bandwidth_channel_init)"

definition demo_queue :: bandwidth_manager where
  "demo_queue = fst (request_bandwidth demo_store (fst (request_bandwidth demo_store (bandwidth_manager_init 0) 7 300 1 [Some 0]))
     8 5000 2 [None, Some 0])"

definition starved_queue :: bandwidth_manager where
  "starved_queue = foldl (\<lambda>m peer. fst (request_bandwidth demo_store m peer 100 1 [Some 1])) (bandwidth_manager_init 0) [1, 2, 3, 4]"

lemma demo_store_reachable: "bw_reachable demo_store (bandwidth_manager_init 0)"
proof -
  have "bw_reachable ((\<lambda>_. bandwidth_channel_init)(0 := set_throttle 1000 bandwidth_channel_init)) (bandwidth_manager_init 0)"
    using bw_throttle [OF bw_start [of 0], of 1000 0] by (simp add: limit_ok_def)
  from bw_throttle [OF this, of 1 1] show ?thesis by (simp add: limit_ok_def demo_store_def)
qed

lemma demo_queue_reachable: "bw_reachable demo_store demo_queue"
  unfolding demo_queue_def
  by (intro bw_req demo_store_reachable) (simp_all add: is_queued_def request_bandwidth_def Let_def bandwidth_manager_init_def
      bw_request_init_def demo_store_def throttle_def set_throttle_def map_filter_simps)

lemma starved_queue_facts: "bw_inv demo_store starved_queue" "starving demo_store starved_queue 1"
proof -
  have "bw_inv demo_store (foldl (\<lambda>m peer. fst (request_bandwidth demo_store m peer 100 1 [Some 1])) m ps)" if "bw_inv demo_store m" for m ps
    using that by (induction ps arbitrary: m) (simp_all add: request_inv)
  then show "bw_inv demo_store starved_queue" unfolding starved_queue_def using bw_reachable_inv [OF demo_store_reachable] .
  show "starving demo_store starved_queue 1" by code_simp
qed

text \<open>C22: In every state the limiter can get into, the assertions of its code hold: \<^verbatim>\<open>m_queued_bytes\<close> is the sum of
  what the queued requests are still waiting for, every queued request has been assigned less than it asked
  for, and the quota to distribute on a channel fits into an \<^verbatim>\<open>int\<close>.\<close>

theorem bandwidth_invariant:
  assumes "bw_reachable st m"
  shows "check_queue m \<and> list_all (\<lambda>r. 0 \<le> bw_assigned r \<and> bw_assigned r < bw_request_size r) (m_queue m) \<and>
    0 \<le> distribute_quota (st c) \<and> distribute_quota (st c) < 2 ^ 31"
  using bw_reachable_inv [OF assms] by (auto simp: bw_inv_def check_queue_iff list_all_iff req_ok_def chan_ok_def)

theorem bandwidth_invariant_witness: "check_queue demo_queue \<and> distribute_quota (demo_store 0) < 2 ^ 31"
  using bandwidth_invariant [OF demo_queue_reachable, of 0] by blast





text \<open>C25: A limit that is low for the number of requests starves all of them: while the saved-up quota times the
  priority of each request is less than the sum of the priorities, the share of each is rounded down to 0, and
  since the time to live only ends requests that have got something, no peer is ever answered.\<close>

theorem low_limit_starves:
  assumes "bw_inv st m" "0 \<le> dt" "starving st m c"
  shows "snd (snd (bw_rounds n dt st m)) = [] \<and> queue_size (fst (snd (bw_rounds n dt st m))) = queue_size m"
  by (rule starved_rounds [OF assms])

theorem low_limit_starves_witness:
  "snd (snd (bw_rounds 1000000 500 demo_store starved_queue)) = [] \<and> queue_size starved_queue = 4"
proof
  show "snd (snd (bw_rounds 1000000 500 demo_store starved_queue)) = []"
    using low_limit_starves [OF starved_queue_facts(1) _ starved_queue_facts(2), of 500 1000000] by simp
  show "queue_size starved_queue = 4" by code_simp
qed

end
