(* ===== verification/Paths.thy ===== *)
theory Paths
  imports Escape_String
begin

text \<open>
  The path functions of \<^verbatim>\<open>src/file.cpp\<close> and the functions of \<^verbatim>\<open>src/torrent_info.cpp\<close> that clean the
  paths of a torrent, as they are compiled for POSIX systems. A \<^verbatim>\<open>std::string\<close> is the list of its
  bytes, which may contain null characters; \<open>cstr\<close> is what a C function sees of it. The constant
  \<^verbatim>\<open>TORRENT_MAX_PATH\<close> depends on the platform and is an argument.
\<close>

subsection \<open>C strings\<close>

definition cstr :: "bytes \<Rightarrow> bytes" where
  "cstr s = takeWhile (\<lambda>c. c \<noteq> 0) s"

text \<open>The last position before a given one where a character is, for \<^verbatim>\<open>strrchr\<close> and \<^verbatim>\<open>std::find\<close> on reverse iterators.\<close>

fun find_last :: "'a list \<Rightarrow> 'a \<Rightarrow> nat \<Rightarrow> nat option" where
  "find_last s c 0 = None"
| "find_last s c (Suc n) = (if s ! n = c then Some n else find_last s c n)"

definition strrchr :: "bytes \<Rightarrow> byte \<Rightarrow> nat option" where
  "strrchr s c = find_last (cstr s) c (length (cstr s))"

subsection \<open>\<^verbatim>\<open>src/file.cpp\<close>\<close>

text \<open>The characters \<^verbatim>\<open>/\<close> and \<^verbatim>\<open>\\<close>.\<close>

abbreviation slash :: byte where
  "slash \<equiv> 0x2F"

abbreviation backslash :: byte where
  "backslash \<equiv> 0x5C"

definition is_sep :: "byte \<Rightarrow> bool" where
  "is_sep c \<longleftrightarrow> c = slash \<or> c = backslash"

function split_loop :: "bytes \<Rightarrow> bytes" where
  "split_loop start =
     (if start = [] then []
      else
        let e = takeWhile (\<lambda>c. c \<noteq> slash) start;
            p = dropWhile (\<lambda>c. c \<noteq> slash) start
        in (if e \<noteq> [] then e @ [0] else []) @ split_loop (drop 1 p))"
  by pat_completeness auto
termination
proof (relation "measure length")
  fix start x xa :: bytes
  assume "start \<noteq> []" and "xa = dropWhile (\<lambda>c. c \<noteq> slash) start"
  moreover have "length (dropWhile (\<lambda>c. c \<noteq> slash) start) \<le> length start"
    by (rule length_dropWhile_le)
  ultimately show "(drop 1 xa, start) \<in> measure length"
    by (cases start) (auto simp del: length_dropWhile_le)
qed simp

declare split_loop.simps [simp del]

definition split_path :: "bytes \<Rightarrow> bytes" where
  "split_path f = (if f = [] then f else split_loop (cstr f) @ [0])"

text \<open>
  A pointer into a string is the memory from there to the end of the string, the terminating null
  character included. The outer result \<open>None\<close> of \<^verbatim>\<open>next_path_element\<close> is a read after that.
\<close>

definition next_path_element :: "bytes \<Rightarrow> bytes option option" where
  "next_path_element p =
     (let p = drop (length (cstr p) + 1) p
      in case p of [] \<Rightarrow> None | c # _ \<Rightarrow> Some (if c = 0 then None else Some p))"

definition extension :: "bytes \<Rightarrow> bytes" where
  "extension f = (case strrchr f (ch CHR ''.'') of None \<Rightarrow> [] | Some e \<Rightarrow> drop e (cstr f))"

definition replace_extension :: "bytes \<Rightarrow> bytes \<Rightarrow> bytes" where
  "replace_extension f ext =
     (case strrchr f (ch CHR ''.'') of
        None \<Rightarrow> f @ [ch CHR ''.'']
      | Some e \<Rightarrow> vec_resize f (e + 1) 0) @ ext"

definition is_root_path :: "bytes \<Rightarrow> bool" where
  "is_root_path f = (if f = [] then False else f = [slash])"

fun find_sep :: "bytes \<Rightarrow> nat \<Rightarrow> nat option" where
  "find_sep f 0 = None"
| "find_sep f (Suc len) = (if is_sep (f ! len) then Some len else find_sep f len)"

text \<open>The number of characters that are left when a separator at the end is ignored.\<close>

definition ignore_sep :: "bytes \<Rightarrow> nat" where
  "ignore_sep f = (if is_sep (f ! (length f - 1)) then length f - 1 else length f)"

definition has_parent_path :: "bytes \<Rightarrow> bool" where
  "has_parent_path f =
     (if f = [] then False
      else if is_root_path f then False
      else find_sep f (ignore_sep f) \<noteq> None)"

definition parent_path :: "bytes \<Rightarrow> bytes" where
  "parent_path f =
     (if f = [] then f
      else if f = [slash] then []
      else
        let len = (case find_sep f (ignore_sep f) of None \<Rightarrow> 0 | Some i \<Rightarrow> i);
            len = (if is_sep (f ! len) then len + 1 else len)
        in take len f)"

definition filename :: "bytes \<Rightarrow> bytes" where
  "filename f =
     (if f = [] then []
      else
        case strrchr f slash of
          None \<Rightarrow> f
        | Some sep \<Rightarrow>
            if sep = length f - 1 then
              (case find_last f slash sep of
                 None \<Rightarrow> take sep f
               | Some i \<Rightarrow> take (sep - (i + 1)) (drop (i + 1) f))
            else drop (sep + 1) (cstr f))"

definition combine_path :: "bytes \<Rightarrow> bytes \<Rightarrow> bytes" where
  "combine_path lhs rhs =
     (if lhs = [] \<or> lhs = str ''.'' then rhs
      else if rhs = [] \<or> rhs = str ''.'' then lhs
      else
        let need_sep = lhs ! (length lhs - 1) \<noteq> slash
        in cstr lhs @ (if need_sep then [slash] else []) @ cstr rhs)"

definition is_complete :: "bytes \<Rightarrow> bool" where
  "is_complete f = (if f = [] then False else f ! 0 = slash)"

subsection \<open>\<^verbatim>\<open>src/torrent_info.cpp\<close>\<close>

definition valid_path_character :: "byte \<Rightarrow> bool" where
  "valid_path_character c = (if 0 \<le> sint c \<and> sint c < 32 then False else True)"

abbreviation underscore :: byte where
  "underscore \<equiv> 0x5F"

text \<open>
  One round of the loop of \<^verbatim>\<open>verify_encoding\<close>: a copied character of some bytes, a character that is
  replaced, or the end of the loop before the end of the string.
\<close>

datatype verify_step = Copy nat | Replace | Break

definition verify_round :: "bool \<Rightarrow> bytes \<Rightarrow> verify_step" where
  "verify_round fix_paths i =
     (if i ! 0 AND 0x80 = 0 then
        (if \<not> fix_paths \<or> valid_path_character (i ! 0) then Copy 1 else Replace)
      else if length i < 2 then Break
      else if i ! 0 AND 0xe0 = 0xc0 \<and> i ! 1 AND 0xc0 = 0x80 then Copy 2
      else if length i < 3 then Break
      else if i ! 0 AND 0xf0 = 0xe0 \<and> i ! 1 AND 0xc0 = 0x80 \<and> i ! 2 AND 0xc0 = 0x80 then Copy 3
      else if length i < 4 then Break
      else if i ! 0 AND 0xf8 = 0xf0 \<and> i ! 1 AND 0xc0 = 0x80 \<and> i ! 2 AND 0xc0 = 0x80
        \<and> i ! 3 AND 0xc0 = 0x80 then Copy 4
      else Replace)"

lemma verify_round_Copy:
  "verify_round f i = Copy n \<Longrightarrow> i \<noteq> [] \<Longrightarrow> 0 < n \<and> n \<le> length i"
  by (auto simp: verify_round_def not_less Suc_le_eq split: if_splits)

function verify_loop :: "bool \<Rightarrow> bytes \<Rightarrow> bytes \<times> bool" where
  "verify_loop fix_paths i =
     (if i = [] then ([], True)
      else
        case verify_round fix_paths i of
          Copy n \<Rightarrow> let (tmp, ok) = verify_loop fix_paths (drop n i) in (take n i @ tmp, ok)
        | Replace \<Rightarrow> let (tmp, ok) = verify_loop fix_paths (drop 1 i) in (underscore # tmp, False)
        | Break \<Rightarrow> ([underscore], False))"
  by pat_completeness auto
termination
  by (relation "measure (\<lambda>(f, i). length i)") (auto dest: verify_round_Copy)

declare verify_loop.simps [simp del]

definition verify_encoding :: "bool \<Rightarrow> bytes \<Rightarrow> bytes \<times> bool" where
  "verify_encoding fix_paths target =
     (let (tmp_path, valid_encoding) = verify_loop fix_paths target
      in (if \<not> valid_encoding then tmp_path else target, valid_encoding))"

definition valid_path_element :: "bytes \<Rightarrow> bool" where
  "valid_path_element element =
     (if element = [] \<or> element = str ''.'' \<or> element = str ''..''
        \<or> element ! 0 = slash \<or> element ! 0 = backslash
        \<or> element ! (length element - 1) = ch CHR '':'' then False
      else True)"

definition trim_path_element :: "nat \<Rightarrow> bytes \<Rightarrow> bytes" where
  "trim_path_element max_path_len element =
     (if length element \<le> max_path_len then element
      else
        let ext = extension element
        in if length ext > 15 then vec_resize element max_path_len 0
           else vec_resize element (max_path_len - length ext) 0 @ ext)"

function sanitize_loop :: "nat \<Rightarrow> bytes \<Rightarrow> bytes \<Rightarrow> bytes option" where
  "sanitize_loop max_path_len new_path e =
     (let pe = cstr e;
          new_path =
            (if \<not> valid_path_element pe then new_path
             else combine_path new_path (trim_path_element max_path_len pe))
      in case next_path_element e of
           None \<Rightarrow> None
         | Some None \<Rightarrow> Some new_path
         | Some (Some e') \<Rightarrow> sanitize_loop max_path_len new_path e')"
  by pat_completeness auto
termination
proof (relation "measure (\<lambda>(_, _, e). length e)")
  fix m :: nat and new_path e pe np x2 and e' :: bytes
  assume "next_path_element e = Some x2" "x2 = Some e'"
  then have "drop (length (cstr e) + 1) e \<noteq> []" "e' = drop (length (cstr e) + 1) e"
    by (auto simp: next_path_element_def Let_def split: list.splits if_splits)
  then show "((m, np, e'), (m, new_path, e)) \<in> measure (\<lambda>(_, _, e). length e)"
    by simp
qed simp

declare sanitize_loop.simps [simp del]

definition sanitize_path :: "nat \<Rightarrow> bytes \<Rightarrow> bytes option" where
  "sanitize_path max_path_len p = sanitize_loop max_path_len [] (split_path p @ [0])"

subsection \<open>C strings: lemmas\<close>

lemma cstr_no_nul [simp]: "0 \<notin> set (cstr s)"
  by (auto simp: cstr_def dest: set_takeWhileD)

lemma cstr_id [simp]: "0 \<notin> set s \<Longrightarrow> cstr s = s"
  by (auto simp: cstr_def takeWhile_eq_all_conv)

lemma cstr_append_nul [simp]: "0 \<notin> set s \<Longrightarrow> cstr (s @ 0 # t) = s"
  by (simp add: cstr_def takeWhile_append)

lemma find_last_None: "find_last s c n = None \<longleftrightarrow> (\<forall>i < n. s ! i \<noteq> c)"
  by (induction n) (auto simp: less_Suc_eq)

lemma find_last_Some:
  "find_last s c n = Some i \<longleftrightarrow> i < n \<and> s ! i = c \<and> (\<forall>j. i < j \<and> j < n \<longrightarrow> s ! j \<noteq> c)"
  by (induction n) (auto simp: less_Suc_eq)

subsection \<open>Paths as lists of elements\<close>

text \<open>The parts of a path between the separators, and the path of a list of parts.\<close>

fun parts :: "bytes \<Rightarrow> bytes list" where
  "parts [] = [[]]"
| "parts (c # cs) =
     (if c = slash then [] # parts cs
      else case parts cs of [] \<Rightarrow> [[c]] | p # ps \<Rightarrow> (c # p) # ps)"

definition elements :: "bytes \<Rightarrow> bytes list" where
  "elements s = filter (\<lambda>e. e \<noteq> []) (parts s)"

fun join :: "bytes list \<Rightarrow> bytes" where
  "join [] = []"
| "join [e] = e"
| "join (e # es) = e @ slash # join es"

lemma parts_not_Nil [simp]: "parts s \<noteq> []"
  by (induction s) (auto split: list.splits)

lemma parts_no_slash: "e \<in> set (parts s) \<Longrightarrow> slash \<notin> set e"
  by (induction s arbitrary: e) (fastforce split: list.splits if_splits)+

lemma parts_subset: "e \<in> set (parts s) \<Longrightarrow> set e \<subseteq> set s"
  by (induction s arbitrary: e) (fastforce split: list.splits if_splits)+

lemma parts_append_slash: "slash \<notin> set e \<Longrightarrow> parts (e @ slash # s) = e # parts s"
  by (induction e) auto

lemma parts_single: "slash \<notin> set e \<Longrightarrow> parts e = [e]"
  by (induction e) auto

lemma parts_join: "es \<noteq> [] \<Longrightarrow> \<forall>e \<in> set es. slash \<notin> set e \<Longrightarrow> parts (join es) = es"
  by (induction es rule: join.induct) (auto simp: parts_single parts_append_slash)

lemma set_join: "set (join es) \<subseteq> (\<Union>e \<in> set es. set e) \<union> {slash}"
  by (induction es rule: join.induct) auto

lemma join_snoc: "es \<noteq> [] \<Longrightarrow> join (es @ [e]) = join es @ slash # e"
  by (induction es rule: join.induct) auto

lemma elements_join:
  "\<forall>e \<in> set es. slash \<notin> set e \<and> e \<noteq> [] \<Longrightarrow> elements (join es) = es"
  by (cases "es = []") (auto simp: elements_def parts_join filter_id_conv)

lemma elements_Nil [simp]: "elements [] = []"
  by (simp add: elements_def)

lemma elements_unfold:
  "elements s =
     (let e = takeWhile (\<lambda>c. c \<noteq> slash) s; p = dropWhile (\<lambda>c. c \<noteq> slash) s
      in (if e \<noteq> [] then [e] else []) @ elements (drop 1 p))"
proof -
  let ?e = "takeWhile (\<lambda>c. c \<noteq> slash) s" and ?p = "dropWhile (\<lambda>c. c \<noteq> slash) s"
  have e: "slash \<notin> set ?e"
    by (auto dest: set_takeWhileD)
  have s: "s = ?e @ ?p"
    by simp
  show ?thesis
  proof (cases ?p)
    case Nil
    then have "elements s = (if ?e \<noteq> [] then [?e] else [])"
      using parts_single [OF e] s by (simp only: elements_def append_Nil2 filter.simps if_True)
    then show ?thesis using Nil by (simp only: Let_def drop_Nil elements_Nil append_Nil2)
  next
    case (Cons c r)
    then have "c = slash"
      using hd_dropWhile [of "\<lambda>c. c \<noteq> slash" s] by simp
    then have "parts s = ?e # parts r"
      using parts_append_slash [OF e, of r] s Cons by simp
    then show ?thesis
      using Cons by (simp add: Let_def elements_def)
  qed
qed

lemma split_loop_elements: "split_loop s = concat (map (\<lambda>e. e @ [0]) (elements s))"
proof (induction s rule: split_loop.induct)
  case (1 start)
  show ?case
  proof (cases "start = []")
    case True
    then show ?thesis by (simp add: split_loop.simps [of "[]"])
  next
    case False
    then show ?thesis
      using "1.IH" [OF False refl refl]
      unfolding split_loop.simps [of start] elements_unfold [of start] Let_def map_append concat_append
      by simp
  qed
qed

lemma elements_ok: "e \<in> set (elements s) \<Longrightarrow> e \<noteq> [] \<and> slash \<notin> set e \<and> set e \<subseteq> set s"
  using parts_no_slash parts_subset unfolding elements_def by force


subsection \<open>Cleaned paths\<close>

lemma extension_length: "length (extension f) \<le> length f"
proof -
  have "length (cstr f) \<le> length f"
    by (simp add: cstr_def length_takeWhile_le)
  then show ?thesis
    by (auto simp: extension_def split: option.splits)
qed

lemma set_extension: "set (extension f) \<subseteq> set f"
  by (auto simp: extension_def cstr_def split: option.splits dest!: in_set_dropD set_takeWhileD)

text \<open>A path whose elements cannot leave the directory that it is relative to.\<close>

definition safe_element :: "nat \<Rightarrow> bytes \<Rightarrow> bool" where
  "safe_element m e \<longleftrightarrow>
     e \<noteq> [] \<and> e \<noteq> str ''.'' \<and> e \<noteq> str ''..'' \<and> 0 \<notin> set e \<and> slash \<notin> set e \<and> e ! 0 \<noteq> backslash \<and> length e \<le> m"

lemma trim_path_element_ok:
  assumes "16 \<le> m" "0 \<notin> set e" "slash \<notin> set e" "valid_path_element e"
  shows "safe_element m (trim_path_element m e)"
proof (cases "length e \<le> m")
  case True
  then show ?thesis
    using assms by (auto simp: safe_element_def trim_path_element_def valid_path_element_def split: if_splits)
next
  case False
  let ?k = "if length (extension e) > 15 then m else m - length (extension e)"
  let ?t = "trim_path_element m e"
  have t: "?t = take ?k e @ (if length (extension e) > 15 then [] else extension e)"
    using False by (simp add: trim_path_element_def vec_resize_def Let_def)
  have k: "0 < ?k" "?k \<le> length e"
    using False assms(1) by auto
  have "length ?t = m"
    using False assms(1) by (simp add: t)
  moreover have "set ?t \<subseteq> set e"
    using set_extension [of e] by (auto simp: t dest: in_set_takeD split: if_splits)
  moreover have "?t ! 0 = e ! 0"
    using k by (simp add: t nth_append)
  moreover have "e ! 0 \<noteq> backslash"
    using assms(4) by (auto simp: valid_path_element_def split: if_splits)
  ultimately show ?thesis
    using assms(1-3) by (auto simp: safe_element_def)
qed

lemma join_last:
  assumes "\<forall>e \<in> set es. safe_element m e" "es \<noteq> []"
  shows "join es \<noteq> [] \<and> join es \<noteq> str ''.'' \<and> last (join es) \<noteq> slash \<and> 0 \<notin> set (join es)"
proof (cases es rule: rev_cases)
  case (snoc fs e)
  have e: "e \<noteq> []" "e \<noteq> str ''.''" "slash \<notin> set e"
    using assms snoc by (auto simp: safe_element_def)
  then have "last e \<noteq> slash"
    using last_in_set by metis
  moreover have "0 \<notin> set (join es)"
    using assms(1) set_join [of es] by (auto simp: safe_element_def)
  ultimately show ?thesis
    using e by (cases "fs = []") (auto simp: snoc join_snoc append_eq_Cons_conv)
qed (use assms in simp)

lemma combine_join:
  assumes "\<forall>e \<in> set es. safe_element m e" "safe_element m t"
  shows "combine_path (join es) t = join (es @ [t])"
proof (cases "es = []")
  case True
  then show ?thesis by (simp add: combine_path_def)
next
  case False
  have "t \<noteq> []" "t \<noteq> str ''.''" "0 \<notin> set t"
    using assms(2) by (simp_all add: safe_element_def)
  then show ?thesis
    using join_last [OF assms(1) False] join_snoc [OF False, of t] last_conv_nth [of "join es"]
    by (simp add: combine_path_def)
qed

lemma sanitize_loop_ok:
  assumes "16 \<le> m" "\<forall>e \<in> set es. safe_element m e"
    "\<forall>e \<in> set fs. e \<noteq> [] \<and> 0 \<notin> set e \<and> slash \<notin> set e"
  shows "sanitize_loop m (join es) (concat (map (\<lambda>e. e @ [0]) fs) @ [0, 0]) =
    Some (join (es @ map (trim_path_element m) (filter valid_path_element fs)))"
  using assms(2,3)
proof (induction fs arbitrary: es)
  case Nil
  then show ?case
    by (simp add: sanitize_loop.simps valid_path_element_def next_path_element_def cstr_def)
next
  case (Cons f fs)
  define es' where "es' = es @ map (trim_path_element m) (filter valid_path_element [f])"
  let ?rest = "concat (map (\<lambda>e. e @ [0]) fs) @ [0, 0]"
  have f: "0 \<notin> set f" "slash \<notin> set f"
    using Cons.prems by auto
  have trim: "safe_element m (trim_path_element m f)" if "valid_path_element f"
    by (rule trim_path_element_ok [OF assms(1) f that])
  then have safe: "\<forall>e \<in> set es'. safe_element m e"
    using Cons.prems(1) by (auto simp: es'_def)
  have np: "(if \<not> valid_path_element f then join es else combine_path (join es) (trim_path_element m f)) = join es'"
    using combine_join [OF Cons.prems(1)] trim by (simp add: es'_def)
  have step: "sanitize_loop m (join es) (f @ 0 # ?rest) =
    (case next_path_element (f @ 0 # ?rest) of None \<Rightarrow> None
     | Some None \<Rightarrow> Some (join es') | Some (Some e') \<Rightarrow> sanitize_loop m (join es') e')"
    unfolding sanitize_loop.simps [of m "join es" "f @ 0 # ?rest"] Let_def cstr_append_nul [OF f(1)] np ..
  have IH: "sanitize_loop m (join es') ?rest = Some (join (es' @ map (trim_path_element m) (filter valid_path_element fs)))"
    using Cons.IH [OF safe] Cons.prems(2) by simp
  have "sanitize_loop m (join es) (f @ 0 # ?rest) =
    Some (join (es' @ map (trim_path_element m) (filter valid_path_element fs)))"
  proof (cases fs)
    case Nil
    then show ?thesis
      unfolding step using f by (simp add: next_path_element_def)
  next
    case (Cons g gs)
    then have "g \<noteq> []" "0 \<notin> set g"
      using Cons.prems(2) by auto
    then obtain c h where "g = c # h" "c \<noteq> 0"
      by (cases g) auto
    then have "next_path_element (f @ 0 # ?rest) = Some (Some ?rest)"
      using f by (simp add: next_path_element_def Cons)
    then show ?thesis
      unfolding step using IH by simp
  qed
  then show ?case by (simp add: es'_def)
qed

lemma sanitize_path_join:
  assumes "16 \<le> m" "p \<noteq> []"
  shows "sanitize_path m p = Some (join (map (trim_path_element m) (filter valid_path_element (elements (cstr p)))))"
proof -
  have "\<forall>e \<in> set (elements (cstr p)). e \<noteq> [] \<and> 0 \<notin> set e \<and> slash \<notin> set e"
    using elements_ok [of _ "cstr p"] cstr_no_nul [of p] by blast
  from sanitize_loop_ok [OF assms(1) _ this, of "[]"] assms(2) show ?thesis
    by (simp add: sanitize_path_def split_path_def split_loop_elements)
qed

lemma sanitized_elements_safe:
  assumes "16 \<le> m" "e \<in> set (map (trim_path_element m) (filter valid_path_element (elements (cstr p))))"
  shows "safe_element m e"
proof -
  obtain f where f: "f \<in> set (elements (cstr p))" "valid_path_element f" "e = trim_path_element m f"
    using assms(2) by auto
  then have "0 \<notin> set f" "slash \<notin> set f"
    using elements_ok [OF f(1)] cstr_no_nul [of p] by auto
  from trim_path_element_ok [OF assms(1) this f(2)] show ?thesis
    by (simp only: f(3))
qed

subsection \<open>Repaired encodings\<close>

lemma verify_loop_cases:
  assumes "i \<noteq> []"
  obtains (Copy) n where "verify_round f i = Copy n" "0 < n" "n \<le> length i"
    "verify_loop f i = (take n i @ fst (verify_loop f (drop n i)), snd (verify_loop f (drop n i)))"
  | (Replace) "verify_round f i = Replace"
    "verify_loop f i = (underscore # fst (verify_loop f (drop 1 i)), False)"
  | (Break) "verify_round f i = Break" "verify_loop f i = ([underscore], False)"
  using assms verify_round_Copy [of f i]
  by (cases "verify_round f i") (auto simp: verify_loop.simps [of f i] split: prod.splits)

text \<open>The characters of the encoding that the loop accepts: one round copies all of them.\<close>

definition well_encoded :: "bool \<Rightarrow> bytes \<Rightarrow> bool" where
  "well_encoded f s \<longleftrightarrow> (\<exists>cs. s = concat cs \<and> (\<forall>c \<in> set cs. c \<noteq> [] \<and> verify_round f c = Copy (length c)))"

lemma verify_round_prefix:
  assumes "verify_round f i = Copy n" "n \<le> length j" "\<forall>k < n. j ! k = i ! k" "i \<noteq> []"
  shows "verify_round f j = Copy n"
proof -
  have "0 < n" using verify_round_Copy [OF assms(1,4)] by simp
  then have z: "j ! 0 = i ! 0" using assms(3) by simp
  consider "i ! 0 AND 0x80 = 0" | "i ! 0 AND 0x80 \<noteq> 0" "n = 2" | "i ! 0 AND 0x80 \<noteq> 0" "n = 3"
    | "i ! 0 AND 0x80 \<noteq> 0" "n = 4"
    using assms(1) by (auto simp: verify_round_def split: if_splits)
  then show ?thesis
  proof cases
    case 1
    then show ?thesis using assms(1) z by (simp add: verify_round_def)
  next
    case 2
    then have "j ! 1 = i ! 1" using assms(3) by simp
    then show ?thesis using assms(1,2) z 2 by (simp add: verify_round_def split: if_splits)
  next
    case 3
    then have "j ! 1 = i ! 1" "j ! 2 = i ! 2" using assms(3) by simp_all
    then show ?thesis using assms(1,2) z 3 by (simp add: verify_round_def split: if_splits)
  next
    case 4
    then have "j ! 1 = i ! 1" "j ! 2 = i ! 2" "j ! 3 = i ! 3" using assms(3) by simp_all
    then show ?thesis using assms(1,2) z 4 by (simp add: verify_round_def split: if_splits)
  qed
qed

lemma verify_round_take:
  "verify_round f i = Copy n \<Longrightarrow> i \<noteq> [] \<Longrightarrow> verify_round f (take n i) = Copy n"
  using verify_round_prefix [of f i n "take n i"] verify_round_Copy [of f i n] by simp

lemma verify_round_append:
  "verify_round f c = Copy (length c) \<Longrightarrow> c \<noteq> [] \<Longrightarrow> verify_round f (c @ s) = Copy (length c)"
  using verify_round_prefix [of f c "length c" "c @ s"] by (simp add: nth_append)

lemma verify_loop_underscore: "verify_round f [underscore] = Copy 1"
  by (simp add: verify_round_def valid_path_character_def)

lemma well_encoded_Nil [simp]: "well_encoded f []"
  unfolding well_encoded_def by (rule exI [of _ "[]"]) simp

lemma well_encoded_append:
  "c \<noteq> [] \<Longrightarrow> verify_round f c = Copy (length c) \<Longrightarrow> well_encoded f s \<Longrightarrow> well_encoded f (c @ s)"
  unfolding well_encoded_def by (metis concat.simps(2) set_ConsD)

lemma verify_loop_output: "well_encoded f (fst (verify_loop f i))"
proof (induction f i rule: verify_loop.induct)
  case (1 f i)
  show ?case
  proof (cases "i = []")
    case False
    then show ?thesis
    proof (cases rule: verify_loop_cases [of i f])
      case (Copy n)
      then show ?thesis
        using 1(1) [OF False Copy(1)] verify_round_take [OF Copy(1) False] False
        by (simp add: well_encoded_append)
    next
      case Replace
      then show ?thesis
        using 1(2) [OF False Replace(1)] well_encoded_append [of "[underscore]" f] verify_loop_underscore
        by simp
    next
      case Break
      then show ?thesis
        using well_encoded_append [of "[underscore]" f "[]"] verify_loop_underscore by simp
    qed
  qed (simp add: verify_loop.simps)
qed

lemma verify_loop_valid: "snd (verify_loop f i) \<Longrightarrow> fst (verify_loop f i) = i"
proof (induction f i rule: verify_loop.induct)
  case (1 f i)
  show ?case
  proof (cases "i = []")
    case False
    then show ?thesis
    proof (cases rule: verify_loop_cases [of i f])
      case (Copy n)
      then show ?thesis
        using 1(1) [OF False Copy(1)] 1(3) by simp
    qed (use 1(3) in simp_all)
  qed (simp add: verify_loop.simps)
qed

lemma verify_loop_well_encoded: "well_encoded f s \<Longrightarrow> snd (verify_loop f s)"
proof -
  assume "well_encoded f s"
  then obtain cs where cs: "s = concat cs" "\<forall>c \<in> set cs. c \<noteq> [] \<and> verify_round f c = Copy (length c)"
    by (auto simp: well_encoded_def)
  have "snd (verify_loop f (concat cs))"
    using cs(2)
  proof (induction cs)
    case Nil
    then show ?case by (simp add: verify_loop.simps)
  next
    case (Cons c cs)
    then have "verify_round f (c @ concat cs) = Copy (length c)"
      using verify_round_append by auto
    then show ?case
      using Cons by (cases "verify_loop f (concat cs)") (simp add: verify_loop.simps [of f "c @ concat cs"])
  qed
  then show ?thesis by (simp add: cs(1))
qed

text \<open>
  What \<^verbatim>\<open>verify_encoding\<close> does to the parts of a path: it may drop parts at the end, and a part that it
  changes contains an underscore.
\<close>

definition repaired :: "bytes \<Rightarrow> bytes \<Rightarrow> bool" where
  "repaired p q \<longleftrightarrow> q = p \<or>
     (underscore \<in> set q \<and> set q \<subseteq> set p \<union> {underscore} \<and> length q \<le> length p \<and> (q ! 0 = p ! 0 \<or> q ! 0 = underscore))"

definition repaired_parts :: "bytes list \<Rightarrow> bytes list \<Rightarrow> bool" where
  "repaired_parts ps qs \<longleftrightarrow> (\<exists>ps1 ps2. ps = ps1 @ ps2 \<and> list_all2 repaired ps1 qs)"

lemma repaired_parts_refl: "repaired_parts ps ps"
proof -
  have "ps = ps @ []" "list_all2 repaired ps ps"
    by (simp_all add: list_all2_refl repaired_def)
  then show ?thesis unfolding repaired_parts_def by blast
qed

lemma parts_Cons:
  "parts (c # cs) = (if c = slash then [] # parts cs else (c # hd (parts cs)) # tl (parts cs))"
  by (cases "parts cs") auto

lemma repaired_Cons: "repaired p q \<Longrightarrow> repaired (c # p) (c # q)"
  by (auto simp: repaired_def)

lemma repaired_replace: "repaired p q \<Longrightarrow> repaired (c # p) (underscore # q)"
  by (auto simp: repaired_def)

lemma repaired_parts_Cons:
  assumes "repaired_parts (parts i) (parts j)" "c \<noteq> slash" "d = c \<or> d = underscore"
  shows "repaired_parts (parts (c # i)) (parts (d # j))"
proof -
  obtain ps1 ps2 where ps: "parts i = ps1 @ ps2" "list_all2 repaired ps1 (parts j)"
    using assms(1) by (auto simp: repaired_parts_def)
  moreover obtain q qs where q: "parts j = q # qs"
    using parts_not_Nil list.exhaust by metis
  moreover obtain p ps where p: "ps1 = p # ps" "repaired p q" "list_all2 repaired ps qs"
    using ps(2) q by (auto simp: list_all2_Cons2)
  ultimately have "list_all2 repaired ((c # p) # ps) (parts (d # j))" "parts (c # i) = ((c # p) # ps) @ ps2"
    using assms(2,3) repaired_Cons repaired_replace by (auto simp: parts_Cons)
  then show ?thesis unfolding repaired_parts_def by blast
qed

lemma repaired_parts_same:
  assumes "repaired_parts (parts i) (parts j)"
  shows "repaired_parts (parts (s @ i)) (parts (s @ j))"
proof (induction s)
  case (Cons c s)
  show ?case
  proof (cases "c = slash")
    case True
    obtain ps1 ps2 where "parts (s @ i) = ps1 @ ps2" "list_all2 repaired ps1 (parts (s @ j))"
      using Cons by (auto simp: repaired_parts_def)
    then have "parts ((c # s) @ i) = ([] # ps1) @ ps2" "list_all2 repaired ([] # ps1) (parts ((c # s) @ j))"
      using True by (simp_all add: repaired_def)
    then show ?thesis
      unfolding repaired_parts_def by blast
  next
    case False
    then show ?thesis
      using repaired_parts_Cons [OF Cons False, of c] by simp
  qed
qed (use assms in simp)

lemma verify_round_Replace: "verify_round f i = Replace \<Longrightarrow> i ! 0 \<noteq> slash"
  by (auto simp: verify_round_def valid_path_character_def split: if_splits)

lemma verify_round_Break: "verify_round f i = Break \<Longrightarrow> i ! 0 \<noteq> slash"
  by (auto simp: verify_round_def split: if_splits)

lemma verify_loop_parts: "repaired_parts (parts i) (parts (fst (verify_loop f i)))"
proof (induction f i rule: verify_loop.induct)
  case (1 f i)
  show ?case
  proof (cases "i = []")
    case True
    then show ?thesis
      using repaired_parts_refl by (simp add: verify_loop.simps)
  next
    case False
    then obtain c s where i: "i = c # s" by (cases i) auto
    from False show ?thesis
    proof (cases rule: verify_loop_cases [of i f])
      case (Copy n)
      then show ?thesis
        using repaired_parts_same [of "drop n i" _ "take n i"] 1(1) [OF False Copy(1)] by simp
    next
      case Replace
      then show ?thesis
        using repaired_parts_Cons [of s _ c underscore] 1(2) [OF False Replace(1)]
          verify_round_Replace [OF Replace(1)] by (simp add: i)
    next
      case Break
      then have "c \<noteq> slash"
        using verify_round_Break by (force simp: i)
      then have "parts i = [c # hd (parts s)] @ tl (parts s)" "list_all2 repaired [c # hd (parts s)] [[underscore]]"
        unfolding i parts_Cons by (auto simp: repaired_def)
      then have "repaired_parts (parts i) [[underscore]]"
        unfolding repaired_parts_def by blast
      then show ?thesis using Break by simp
    qed
  qed
qed

lemma repaired_safe:
  assumes "repaired p q" "safe_element m p"
  shows "safe_element m q"
  using assms by (auto simp: repaired_def safe_element_def)

lemma list_all2_in_set2: "list_all2 R xs ys \<Longrightarrow> y \<in> set ys \<Longrightarrow> \<exists>x \<in> set xs. R x y"
  by (induction rule: list_all2_induct) auto

lemma verify_loop_safe:
  assumes "\<forall>e \<in> set (parts s). safe_element m e" "e \<in> set (parts (fst (verify_loop f s)))"
  shows "safe_element m e"
proof -
  obtain ps1 ps2 where ps: "parts s = ps1 @ ps2" "list_all2 repaired ps1 (parts (fst (verify_loop f s)))"
    using verify_loop_parts [of s f] by (auto simp: repaired_parts_def)
  then obtain p where "p \<in> set ps1" "repaired p e"
    using list_all2_in_set2 [OF ps(2) assms(2)] by blast
  then show ?thesis
    using repaired_safe [of p e m] assms(1) ps(1) by auto
qed

lemma join_relative:
  assumes "\<forall>e \<in> set es. safe_element m e"
  shows "\<not> is_complete (join es)"
proof (cases es)
  case (Cons e fs)
  then have "e \<noteq> []" "slash \<notin> set e"
    using assms by (auto simp: safe_element_def)
  then obtain c g where "e = c # g" "c \<noteq> slash"
    by (cases e) auto
  then show ?thesis
    by (cases fs) (auto simp: Cons is_complete_def)
qed (simp add: is_complete_def)

subsection \<open>Properties\<close>

text \<open>C26: cleaning a path with \<^verbatim>\<open>sanitize_path\<close> keeps exactly the valid elements of the path, in order, each cut to
  the longest name of the platform, so that the result is a relative path none of whose elements is
  empty, \<^verbatim>\<open>.\<close> or \<^verbatim>\<open>..\<close>. It does not return for the empty path, where \<^verbatim>\<open>next_path_element\<close> reads behind
  the end of the string.\<close>
theorem sanitize_path_safe:
  assumes "16 \<le> m"
  shows "(p \<noteq> [] \<longrightarrow> (\<exists>r. sanitize_path m p = Some r \<and>
      elements r = map (trim_path_element m) (filter valid_path_element (elements (cstr p))) \<and>
      join (elements r) = r \<and> \<not> is_complete r \<and> (\<forall>e \<in> set (elements r). safe_element m e)))
    \<and> sanitize_path m [] = None"
proof
  let ?es = "map (trim_path_element m) (filter valid_path_element (elements (cstr p)))"
  have safe: "\<forall>e \<in> set ?es. safe_element m e"
    using sanitized_elements_safe [OF assms] by blast
  then have es: "elements (join ?es) = ?es"
    by (intro elements_join) (auto simp: safe_element_def)
  moreover have "\<not> is_complete (join ?es)"
    by (rule join_relative [OF safe])
  ultimately show "p \<noteq> [] \<longrightarrow> (\<exists>r. sanitize_path m p = Some r \<and> elements r = ?es \<and>
      join (elements r) = r \<and> \<not> is_complete r \<and> (\<forall>e \<in> set (elements r). safe_element m e))"
    using sanitize_path_join [OF assms] safe by auto
  show "sanitize_path m [] = None"
    by (simp add: sanitize_path_def split_path_def sanitize_loop.simps next_path_element_def cstr_def)
qed

theorem sanitize_path_safe_witness:
  "(16::nat) \<le> 255 \<and> sanitize_path 255 (str ''/../a//c:/./b'') = Some (str ''a/b'')
    \<and> (\<exists>r. sanitize_path 255 (str ''/../a//c:/./b'') = Some r \<and> \<not> is_complete r)"
proof -
  have "sanitize_path 255 (str ''/../a//c:/./b'') = Some (str ''a/b'')"
    by code_simp
  moreover have "\<exists>r. sanitize_path 255 (str ''/../a//c:/./b'') = Some r \<and> \<not> is_complete r"
    using sanitize_path_safe [of 255 "str ''/../a//c:/./b''"] by auto
  ultimately show ?thesis by simp
qed



end
