(* ===== verification/File_Storage.thy ===== *)
theory File_Storage
  imports Paths "HOL-Library.Signed_Division" "HOL-Library.Monad_Syntax"
begin

text \<open>
  \<^verbatim>\<open>src/file_storage.cpp\<close> and \<^verbatim>\<open>include/libtorrent/file_storage.hpp\<close>: the list of the files of a torrent,
  their paths and the translation between pieces and files. The result \<open>None\<close> is an exception or an
  access outside a vector. Sizes and offsets are integers that are cut to the width of their bit
  field where the code stores them in one; the sums of \<^verbatim>\<open>size_type\<close> are not cut, since the invariant
  keeps them below \<open>2 ^ 47\<close>. Vectors hold values: moving an entry inside a vector is the copy of
  \<open>ife_copy\<close>, which is the identity on the names that these operations store.
\<close>

subsection \<open>File entries\<close>

record file_entry =
  fe_path :: bytes
  fe_offset :: int
  fe_size :: int
  fe_file_base :: int
  fe_mtime :: int
  fe_filehash :: bytes
  fe_pad_file :: bool
  fe_hidden_attribute :: bool
  fe_executable_attribute :: bool
  fe_symlink_attribute :: bool
  fe_symlink_path :: bytes

definition file_entry_init :: file_entry where
  "file_entry_init =
     \<lparr>fe_path = [], fe_offset = 0, fe_size = 0, fe_file_base = 0, fe_mtime = 0, fe_filehash = replicate 20 0,
      fe_pad_file = False, fe_hidden_attribute = False, fe_executable_attribute = False,
      fe_symlink_attribute = False, fe_symlink_path = []\<rparr>"

record internal_file_entry =
  ife_name :: "bytes option"
  ife_offset :: int
  ife_symlink_index :: int
  ife_size :: int
  ife_name_len :: int
  ife_pad_file :: bool
  ife_hidden_attribute :: bool
  ife_executable_attribute :: bool
  ife_symlink_attribute :: bool
  ife_path_index :: int

text \<open>The signed bit fields of 48, 16 and 10 bits.\<close>

abbreviation bits48 :: "int \<Rightarrow> int" where
  "bits48 \<equiv> signed_take_bit 47"

abbreviation bits16 :: "int \<Rightarrow> int" where
  "bits16 \<equiv> signed_take_bit 15"

abbreviation bits10 :: "int \<Rightarrow> int" where
  "bits10 \<equiv> signed_take_bit 9"

definition internal_file_entry_init :: internal_file_entry where
  "internal_file_entry_init =
     \<lparr>ife_name = None, ife_offset = 0, ife_symlink_index = -1, ife_size = 0, ife_name_len = 0,
      ife_pad_file = False, ife_hidden_attribute = False, ife_executable_attribute = False,
      ife_symlink_attribute = False, ife_path_index = -1\<rparr>"

definition allocate_string_copy :: "bytes option \<Rightarrow> bytes option" where
  "allocate_string_copy s = map_option cstr s"

definition ife_set_name :: "bytes option \<Rightarrow> int \<Rightarrow> internal_file_entry \<Rightarrow> internal_file_entry" where
  "ife_set_name n borrow_chars e =
     (let borrow_chars = (if borrow_chars > 1023 then 1023 else borrow_chars);
          name = (if n = None \<or> map_option cstr n = Some [] then None
                  else if borrow_chars \<noteq> 0 then n else allocate_string_copy n)
      in e\<lparr>ife_name := name, ife_name_len := bits10 borrow_chars\<rparr>)"

text \<open>
  \<^verbatim>\<open>std::string(name, name_len)\<close> throws \<^verbatim>\<open>std::length_error\<close> when the length is negative, since it is
  converted to an unsigned number larger than any string.
\<close>

definition ife_filename :: "internal_file_entry \<Rightarrow> bytes option" where
  "ife_filename e =
     (if ife_name_len e \<noteq> 0 then
        (if ife_name_len e < 0 then None
         else map_option (take (nat (ife_name_len e))) (ife_name e))
      else Some (case ife_name e of None \<Rightarrow> [] | Some n \<Rightarrow> n))"

definition ife_of_entry :: "file_entry \<Rightarrow> internal_file_entry" where
  "ife_of_entry e =
     ife_set_name (Some (fe_path e)) 0
       \<lparr>ife_name = None, ife_offset = bits48 (fe_offset e), ife_symlink_index = -1,
        ife_size = bits48 (fe_size e), ife_name_len = 0, ife_pad_file = fe_pad_file e,
        ife_hidden_attribute = fe_hidden_attribute e,
        ife_executable_attribute = fe_executable_attribute e,
        ife_symlink_attribute = fe_symlink_attribute e, ife_path_index = -1\<rparr>"

definition ife_copy :: "internal_file_entry \<Rightarrow> internal_file_entry option" where
  "ife_copy fe = do { n \<leftarrow> ife_filename fe; Some (ife_set_name (Some n) 0 (fe\<lparr>ife_name := None\<rparr>)) }"

subsection \<open>The storage\<close>

record file_storage =
  m_files :: "internal_file_entry list"
  m_file_hashes :: "bytes option list"
  m_symlinks :: "bytes list"
  m_mtime :: "int list"
  m_file_base :: "int list"
  m_paths :: "bytes list"
  m_name :: bytes
  m_total_size :: int
  m_num_pieces :: int
  m_piece_length :: int

definition file_storage_init :: file_storage where
  "file_storage_init =
     \<lparr>m_files = [], m_file_hashes = [], m_symlinks = [], m_mtime = [], m_file_base = [], m_paths = [],
      m_name = [], m_total_size = 0, m_num_pieces = 0, m_piece_length = 0\<rparr>"

definition is_valid :: "file_storage \<Rightarrow> bool" where
  "is_valid fs \<longleftrightarrow> m_piece_length fs > 0"

definition num_files :: "file_storage \<Rightarrow> nat" where
  "num_files fs = length (m_files fs)"

definition total_size :: "file_storage \<Rightarrow> int" where
  "total_size fs = m_total_size fs"

definition set_num_pieces :: "int \<Rightarrow> file_storage \<Rightarrow> file_storage" where
  "set_num_pieces n fs = fs\<lparr>m_num_pieces := n\<rparr>"

definition set_piece_length :: "int \<Rightarrow> file_storage \<Rightarrow> file_storage" where
  "set_piece_length l fs = fs\<lparr>m_piece_length := l\<rparr>"

definition fs_set_name :: "bytes \<Rightarrow> file_storage \<Rightarrow> file_storage" where
  "fs_set_name n fs = fs\<lparr>m_name := n\<rparr>"

definition piece_size :: "file_storage \<Rightarrow> int \<Rightarrow> int" where
  "piece_size fs index =
     (if index = m_num_pieces fs - 1 then
        let size_except_last = (m_num_pieces fs - 1) * m_piece_length fs
        in total_size fs - size_except_last
      else m_piece_length fs)"

definition update_path_index :: "nat \<Rightarrow> file_storage \<Rightarrow> file_storage option" where
  "update_path_index i fs =
     do {
       let e = m_files fs ! i;
       name \<leftarrow> ife_filename e;
       let parent = parent_path name;
       if parent = [] then Some (fs\<lparr>m_files := (m_files fs)[i := e\<lparr>ife_path_index := -1\<rparr>]\<rparr>)
       else
         let (k, paths) =
           (case find_last (m_paths fs) parent (length (m_paths fs)) of
              None \<Rightarrow> (length (m_paths fs), m_paths fs @ [parent])
            | Some k \<Rightarrow> (k, m_paths fs))
         in Some (fs\<lparr>m_paths := paths,
              m_files := (m_files fs)[i := ife_set_name (Some (filename name)) 0 (e\<lparr>ife_path_index := int k\<rparr>)]\<rparr>)
     }"

definition rename_file :: "nat \<Rightarrow> bytes \<Rightarrow> file_storage \<Rightarrow> file_storage option" where
  "rename_file index new_filename fs =
     (if index < num_files fs then
        update_path_index index
          (fs\<lparr>m_files := (m_files fs)[index := ife_set_name (Some new_filename) 0 (m_files fs ! index)]\<rparr>)
      else None)"

subsection \<open>Pieces and files\<close>

text \<open>
  \<^verbatim>\<open>std::upper_bound\<close> for \<^verbatim>\<open>compare_file_offset\<close>: the first entry whose offset is larger, in a list that is
  sorted by the offsets.
\<close>

definition upper_bound :: "file_storage \<Rightarrow> int \<Rightarrow> nat" where
  "upper_bound fs offset = length (takeWhile (\<lambda>e. \<not> bits48 offset < ife_offset e) (m_files fs))"

definition file_at_offset :: "file_storage \<Rightarrow> int \<Rightarrow> nat option" where
  "file_at_offset fs offset =
     (let file_iter = upper_bound fs offset in if file_iter = 0 then None else Some (file_iter - 1))"

record file_slice =
  fsl_file_index :: nat
  fsl_offset :: int
  fsl_size :: int

definition file_base :: "file_storage \<Rightarrow> nat \<Rightarrow> int" where
  "file_base fs index = (if index \<ge> length (m_file_base fs) then 0 else m_file_base fs ! index)"

function map_block_loop :: "file_storage \<Rightarrow> nat \<Rightarrow> int \<Rightarrow> int \<Rightarrow> file_slice list option" where
  "map_block_loop fs file_iter file_offset sz =
     (if sz \<le> 0 then Some []
      else if file_iter \<ge> num_files fs then None
      else
        let fsize = ife_size (m_files fs ! file_iter)
        in if file_offset < fsize then
             let f = \<lparr>fsl_file_index = file_iter, fsl_offset = file_offset + file_base fs file_iter,
                      fsl_size = min (fsize - file_offset) sz\<rparr>;
                 sz = sz - fsl_size f;
                 file_offset = file_offset + fsl_size f
             in map_option (Cons f) (map_block_loop fs (file_iter + 1) (file_offset - fsize) sz)
           else map_block_loop fs (file_iter + 1) (file_offset - fsize) sz)"
  by pat_completeness auto
termination
  by (relation "measure (\<lambda>(fs, file_iter, _, _). num_files fs - file_iter)") auto

declare map_block_loop.simps [simp del]

definition map_block :: "file_storage \<Rightarrow> int \<Rightarrow> int \<Rightarrow> int \<Rightarrow> file_slice list option" where
  "map_block fs piece offset sz =
     (if m_files fs = [] then Some []
      else
        let target = bits48 (piece * m_piece_length fs + offset);
            file_iter = upper_bound fs target
        in if file_iter = 0 then None
           else map_block_loop fs (file_iter - 1) (target - ife_offset (m_files fs ! (file_iter - 1))) sz)"

record peer_request =
  pr_piece :: int
  pr_start :: int
  pr_length :: int

definition map_file :: "file_storage \<Rightarrow> int \<Rightarrow> int \<Rightarrow> int \<Rightarrow> peer_request" where
  "map_file fs file_index file_offset sz =
     (if file_index < 0 \<or> file_index \<ge> int (num_files fs) then
        \<lparr>pr_piece = m_num_pieces fs, pr_start = 0, pr_length = 0\<rparr>
      else
        let offset = file_offset + ife_offset (m_files fs ! nat file_index)
        in if offset \<ge> total_size fs then \<lparr>pr_piece = m_num_pieces fs, pr_start = 0, pr_length = 0\<rparr>
           else
             \<lparr>pr_piece = offset sdiv m_piece_length fs, pr_start = offset smod m_piece_length fs,
              pr_length = (if offset + sz > total_size fs then total_size fs - offset else sz)\<rparr>)"

subsection \<open>Attributes of the files\<close>

text \<open>\<^verbatim>\<open>sha1_hash\<close> of a pointer to 20 bytes, or of the null pointer.\<close>

definition sha1_hash :: "bytes option \<Rightarrow> bytes" where
  "sha1_hash s = (case s of None \<Rightarrow> replicate 20 0 | Some p \<Rightarrow> take 20 p)"

definition fs_hash :: "file_storage \<Rightarrow> nat \<Rightarrow> bytes" where
  "fs_hash fs index =
     (if index \<ge> length (m_file_hashes fs) then replicate 20 0 else sha1_hash (m_file_hashes fs ! index))"

definition fs_symlink :: "file_storage \<Rightarrow> nat \<Rightarrow> bytes option" where
  "fs_symlink fs index =
     (let i = ife_symlink_index (m_files fs ! index)
      in if 0 \<le> i \<and> i < int (length (m_symlinks fs)) then Some (m_symlinks fs ! nat i) else None)"

definition fs_mtime :: "file_storage \<Rightarrow> nat \<Rightarrow> int" where
  "fs_mtime fs index = (if index \<ge> length (m_mtime fs) then 0 else m_mtime fs ! index)"

definition set_file_base :: "nat \<Rightarrow> int \<Rightarrow> file_storage \<Rightarrow> file_storage option" where
  "set_file_base index off fs =
     (let base = (if length (m_file_base fs) \<le> index then vec_resize (m_file_base fs) index 0 else m_file_base fs)
      in if index < length base then Some (fs\<lparr>m_file_base := base[index := off]\<rparr>) else None)"

definition file_path :: "file_storage \<Rightarrow> nat \<Rightarrow> bytes option" where
  "file_path fs index =
     do {
       let fe = m_files fs ! index;
       name \<leftarrow> ife_filename fe;
       if ife_path_index fe = -1 then Some name
       else if 0 \<le> ife_path_index fe \<and> ife_path_index fe < int (length (m_paths fs)) then
         Some (combine_path (m_paths fs ! nat (ife_path_index fe)) name)
       else None
     }"

definition file_size :: "file_storage \<Rightarrow> nat \<Rightarrow> int" where
  "file_size fs index = ife_size (m_files fs ! index)"

definition at_index :: "file_storage \<Rightarrow> nat \<Rightarrow> file_entry option" where
  "at_index fs index =
     (if index < num_files fs then
        do {
          let ife = m_files fs ! index;
          path \<leftarrow> file_path fs index;
          link \<leftarrow> (if ife_symlink_index ife \<ge> 0 then fs_symlink fs index else Some []);
          Some \<lparr>fe_path = path, fe_offset = ife_offset ife, fe_size = ife_size ife,
                fe_file_base = file_base fs index, fe_mtime = fs_mtime fs index,
                fe_filehash = fs_hash fs index, fe_pad_file = ife_pad_file ife,
                fe_hidden_attribute = ife_hidden_attribute ife,
                fe_executable_attribute = ife_executable_attribute ife,
                fe_symlink_attribute = ife_symlink_attribute ife, fe_symlink_path = link\<rparr>
        }
      else None)"

subsection \<open>Adding files\<close>

text \<open>Storing an attribute of the last file in a vector that may be shorter than the list of files.\<close>

definition set_last_attr :: "'a \<Rightarrow> nat \<Rightarrow> 'a \<Rightarrow> 'a list \<Rightarrow> 'a list" where
  "set_last_attr d n v xs = (if length xs < n then vec_resize xs n d else xs)[n - 1 := v]"

text \<open>The name of the torrent after a file with the given path is added.\<close>

definition torrent_name :: "bytes \<Rightarrow> file_storage \<Rightarrow> bytes" where
  "torrent_name file fs =
     (if \<not> has_parent_path file then file
      else if m_files fs = [] then cstr (split_path file) else m_name fs)"

definition add_file :: "bytes \<Rightarrow> int \<Rightarrow> int \<Rightarrow> int \<Rightarrow> bytes \<Rightarrow> file_storage \<Rightarrow> file_storage option" where
  "add_file file sz flags mtime symlink_path fs =
     do {
       let sz = (if sz < 0 then 0 else sz);
       let e = ife_set_name (Some file) 0 internal_file_entry_init;
       let e = e\<lparr>ife_size := bits48 sz, ife_offset := bits48 (m_total_size fs),
                 ife_pad_file := flags AND 1 \<noteq> 0, ife_hidden_attribute := flags AND 2 \<noteq> 0,
                 ife_executable_attribute := flags AND 4 \<noteq> 0, ife_symlink_attribute := flags AND 8 \<noteq> 0\<rparr>;
       let n = num_files fs + 1;
       let (e, links) =
         (if ife_symlink_attribute e then
            (e\<lparr>ife_symlink_index := bits16 (int (length (m_symlinks fs)))\<rparr>, m_symlinks fs @ [symlink_path])
          else (e, m_symlinks fs));
       let times = (if mtime \<noteq> 0 then set_last_attr 0 n mtime (m_mtime fs) else m_mtime fs);
       fs' \<leftarrow> update_path_index (n - 1)
         (fs\<lparr>m_name := torrent_name file fs, m_files := m_files fs @ [e], m_symlinks := links, m_mtime := times\<rparr>);
       Some (fs'\<lparr>m_total_size := m_total_size fs' + sz\<rparr>)
     }"

definition add_file_entry :: "file_entry \<Rightarrow> bytes option \<Rightarrow> file_storage \<Rightarrow> file_storage option" where
  "add_file_entry ent filehash fs =
     do {
       let e = ife_of_entry ent;
       let e = (if ife_size e < 0 then e\<lparr>ife_size := 0\<rparr> else e);
       let e = e\<lparr>ife_offset := bits48 (m_total_size fs)\<rparr>;
       let n = num_files fs + 1;
       let hashes = (if filehash \<noteq> None then set_last_attr None n filehash (m_file_hashes fs) else m_file_hashes fs);
       let (e, links) =
         (if fe_symlink_path ent \<noteq> [] then
            (e\<lparr>ife_symlink_index := bits16 (int (length (m_symlinks fs)))\<rparr>, m_symlinks fs @ [fe_symlink_path ent])
          else (e, m_symlinks fs));
       let times = (if fe_mtime ent \<noteq> 0 then set_last_attr 0 n (fe_mtime ent) (m_mtime fs) else m_mtime fs);
       let fs' = fs\<lparr>m_name := torrent_name (fe_path ent) fs, m_files := m_files fs @ [e],
                    m_total_size := m_total_size fs + ife_size e, m_file_hashes := hashes,
                    m_symlinks := links, m_mtime := times\<rparr>;
       fs' \<leftarrow> (if fe_file_base ent \<noteq> 0 then set_file_base (n - 1) (fe_file_base ent) fs' else Some fs');
       update_path_index (n - 1) fs'
     }"

subsection \<open>Reordering and padding\<close>

definition move_attr :: "'a \<Rightarrow> nat \<Rightarrow> nat \<Rightarrow> 'a list \<Rightarrow> 'a list" where
  "move_attr d index dst xs =
     (if xs = [] then xs
      else
        let (v, xs) = (if length xs > index then (xs ! index, vec_erase xs index) else (d, xs));
            xs = (if length xs < dst then vec_resize xs dst d else xs)
        in vec_insert xs dst v)"

text \<open>Unlike for the other two vectors, \<^verbatim>\<open>m_file_base\<close> is not extended before the insertion.\<close>

definition move_base :: "nat \<Rightarrow> nat \<Rightarrow> int list \<Rightarrow> int list option" where
  "move_base index dst xs =
     (if xs = [] then Some xs
      else
        let (v, xs) = (if length xs > index then (xs ! index, vec_erase xs index) else (0, xs))
        in if dst \<le> length xs then Some (vec_insert xs dst v) else None)"

definition reorder_file :: "nat \<Rightarrow> nat \<Rightarrow> file_storage \<Rightarrow> file_storage option" where
  "reorder_file index dst fs =
     (if index < num_files fs \<and> dst < num_files fs then
        do {
          base \<leftarrow> move_base index dst (m_file_base fs);
          Some (fs\<lparr>m_files := vec_insert (vec_erase (m_files fs) index) dst (m_files fs ! index),
                   m_mtime := move_attr 0 index dst (m_mtime fs),
                   m_file_hashes := move_attr None index dst (m_file_hashes fs),
                   m_file_base := base\<rparr>)
        }
      else None)"

text \<open>\<^verbatim>\<open>std::max_element\<close> from position \<open>i\<close> on, for \<^verbatim>\<open>compare_file_entry_size\<close>: the first of the largest files.\<close>

definition largest_file :: "file_storage \<Rightarrow> nat \<Rightarrow> nat" where
  "largest_file fs i =
     foldl (\<lambda>best j. if file_size fs best < file_size fs j then j else best) i [i + 1..<num_files fs]"

definition best_fit :: "file_storage \<Rightarrow> nat \<Rightarrow> int \<Rightarrow> nat option" where
  "best_fit fs i pad_size =
     foldl (\<lambda>best j.
         if file_size fs j > pad_size then best
         else case best of
             None \<Rightarrow> Some j
           | Some b \<Rightarrow> if file_size fs j > file_size fs b then Some j else best)
       None [i + 1..<num_files fs]"

definition alignment :: int where
  "alignment = 16 * 1024"

text \<open>Setting the offset of the current file, and \<^verbatim>\<open>vector::insert\<close> before a position that exists.\<close>

definition place :: "nat \<Rightarrow> int \<Rightarrow> file_storage \<Rightarrow> file_storage" where
  "place i off fs = fs\<lparr>m_files := (m_files fs)[i := (m_files fs ! i)\<lparr>ife_offset := bits48 off\<rparr>]\<rparr>"

definition insert_before :: "nat \<Rightarrow> 'a \<Rightarrow> 'a list \<Rightarrow> 'a list" where
  "insert_before i v xs = (if length xs > i then vec_insert xs i v else xs)"

definition insert_pad :: "nat \<Rightarrow> int \<Rightarrow> int \<Rightarrow> nat \<Rightarrow> file_storage \<Rightarrow> file_storage" where
  "insert_pad i off pad_size padding_file fs =
     (let name = str ''.____padding_file/'' @ to_string (word_of_nat padding_file);
          path = combine_path (m_name fs) name;
          e = ife_set_name (Some path) 0
                (internal_file_entry_init\<lparr>ife_size := bits48 pad_size, ife_offset := bits48 off\<rparr>)
      in fs\<lparr>m_files := vec_insert (m_files fs) i (e\<lparr>ife_pad_file := True\<rparr>),
            m_mtime := insert_before i 0 (m_mtime fs),
            m_file_hashes := insert_before i None (m_file_hashes fs),
            m_file_base := insert_before i 0 (m_file_base fs)\<rparr>)"

text \<open>One round of the loop of \<^verbatim>\<open>optimize\<close>, on the storage, the position, the offset and the number of pad files.\<close>

definition optimize_round ::
  "int \<Rightarrow> file_storage \<times> nat \<times> int \<times> nat \<Rightarrow> (file_storage \<times> nat \<times> int \<times> nat) option" where
  "optimize_round pad_file_limit = (\<lambda>(fs, i, off, padding_file).
     let finish = (\<lambda>(fs, i, off, padding_file). (place i off fs, i + 1, off + file_size fs i, padding_file))
     in if off AND (alignment - 1) = 0 then
          let best_match = largest_file fs i
          in if best_match \<noteq> i then
               do { fs \<leftarrow> reorder_file best_match i fs; Some (finish (fs, i, off, padding_file)) }
             else Some (finish (fs, i, off, padding_file))
        else if pad_file_limit \<ge> 0 \<and> file_size fs i > pad_file_limit \<and> \<not> ife_pad_file (m_files fs ! i) then
          let pad_size = alignment - (off AND (alignment - 1))
          in case best_fit fs i pad_size of
               Some best_match \<Rightarrow>
                 do { fs \<leftarrow> reorder_file best_match i fs; Some (finish (fs, i, off, padding_file)) }
             | None \<Rightarrow>
                 Some (finish (insert_pad i off pad_size padding_file fs, i + 1, off + pad_size, padding_file + 1))
        else Some (finish (fs, i, off, padding_file)))"

lemma num_files_reorder: "reorder_file k j fs = Some fs' \<Longrightarrow> num_files fs' = num_files fs"
  by (auto simp: reorder_file_def num_files_def length_vec_erase split: if_splits bind_splits)

lemma num_files_place [simp]: "num_files (place i off fs) = num_files fs"
  by (simp add: place_def num_files_def)

lemma num_files_insert_pad [simp]: "num_files (insert_pad i off ps pf fs) = Suc (num_files fs)"
  by (simp add: insert_pad_def num_files_def Let_def)

lemma optimize_round_progress:
  assumes "optimize_round limit (fs, i, off, pf) = Some (fs', i', off', pf')" "i < num_files fs"
  shows "num_files fs' - i' < num_files fs - i"
  using assms
  by (auto simp: optimize_round_def Let_def num_files_reorder split: if_splits option.splits bind_splits)

function optimize_loop :: "int \<Rightarrow> file_storage \<times> nat \<times> int \<times> nat \<Rightarrow> file_storage option" where
  "optimize_loop pad_file_limit (fs, i, off, padding_file) =
     (if i \<ge> num_files fs then Some (fs\<lparr>m_total_size := off\<rparr>)
      else
        case optimize_round pad_file_limit (fs, i, off, padding_file) of
          None \<Rightarrow> None
        | Some st \<Rightarrow> optimize_loop pad_file_limit st)"
  by pat_completeness auto
termination
proof (relation "measure (\<lambda>(_, fs, i, _). num_files fs - i)")
  fix limit off :: int and fs i pf and st :: "file_storage \<times> nat \<times> int \<times> nat"
  assume "\<not> num_files fs \<le> i" "optimize_round limit (fs, i, off, pf) = Some st"
  then show "((limit, st), limit, fs, i, off, pf) \<in> measure (\<lambda>(_, fs, i, _). num_files fs - i)"
    using optimize_round_progress by (cases st) fastforce
qed simp

declare optimize_loop.simps [simp del]

definition optimize :: "int \<Rightarrow> file_storage \<Rightarrow> file_storage option" where
  "optimize pad_file_limit fs =
     (let pad_file_limit = (if pad_file_limit \<ge> 0 \<and> pad_file_limit < alignment then alignment else pad_file_limit)
      in optimize_loop pad_file_limit (fs, 0, 0, 0))"

subsection \<open>Invariant\<close>

text \<open>
  The entry owns its name, which has no null character; its indices are inside their vectors. A list
  of files is laid out from a start when every offset is the sum of the sizes before it.
\<close>

definition owned :: "internal_file_entry \<Rightarrow> bool" where
  "owned e \<longleftrightarrow> ife_name_len e = 0 \<and> (case ife_name e of None \<Rightarrow> True | Some n \<Rightarrow> n \<noteq> [] \<and> 0 \<notin> set n)"

definition entry_inv :: "file_storage \<Rightarrow> internal_file_entry \<Rightarrow> bool" where
  "entry_inv fs e \<longleftrightarrow> owned e \<and> 0 \<le> ife_size e
     \<and> -1 \<le> ife_path_index e \<and> ife_path_index e < int (length (m_paths fs))
     \<and> -1 \<le> ife_symlink_index e \<and> ife_symlink_index e < int (length (m_symlinks fs))"

definition sizes :: "internal_file_entry list \<Rightarrow> int" where
  "sizes es = sum_list (map ife_size es)"

fun laid_out :: "int \<Rightarrow> internal_file_entry list \<Rightarrow> bool" where
  "laid_out off [] \<longleftrightarrow> True"
| "laid_out off (e # es) \<longleftrightarrow> ife_offset e = off \<and> laid_out (off + ife_size e) es"

text \<open>What does not depend on the order of the files, and the whole invariant.\<close>

definition table_inv :: "file_storage \<Rightarrow> bool" where
  "table_inv fs \<longleftrightarrow> list_all (entry_inv fs) (m_files fs) \<and> length (m_mtime fs) \<le> num_files fs
     \<and> length (m_file_hashes fs) \<le> num_files fs \<and> m_file_base fs = [] \<and> length (m_symlinks fs) < 2 ^ 15"

definition fs_inv :: "file_storage \<Rightarrow> bool" where
  "fs_inv fs \<longleftrightarrow> table_inv fs \<and> laid_out 0 (m_files fs)
     \<and> m_total_size fs = sizes (m_files fs) \<and> m_total_size fs < 2 ^ 47"

lemma sizes_simps [simp]:
  "sizes [] = 0" "sizes (e # es) = ife_size e + sizes es" "sizes (es @ fs) = sizes es + sizes fs"
  by (simp_all add: sizes_def)

lemma laid_out_append: "laid_out off (es @ fs) \<longleftrightarrow> laid_out off es \<and> laid_out (off + sizes es) fs"
  by (induction es arbitrary: off) (auto simp: add.assoc)

lemma sizes_nonneg: "list_all (\<lambda>e. 0 \<le> ife_size e) es \<Longrightarrow> 0 \<le> sizes es"
  by (induction es) auto

lemma bits48_id: "- (2 ^ 47) \<le> v \<Longrightarrow> v < 2 ^ 47 \<Longrightarrow> bits48 v = v"
  by (rule signed_take_bit_int_eq_self)

lemma owned_set_name: "owned (ife_set_name (Some n) 0 e)"
  by (auto simp: owned_def ife_set_name_def Let_def allocate_string_copy_def split: option.splits)

lemma ife_filename_owned: "owned e \<Longrightarrow> ife_filename e = Some (case ife_name e of None \<Rightarrow> [] | Some n \<Rightarrow> n)"
  by (simp add: owned_def ife_filename_def)

lemma ife_copy_owned: "owned e \<Longrightarrow> ife_copy e = Some e"
  by (cases e) (auto simp: ife_copy_def ife_filename_owned ife_set_name_def allocate_string_copy_def owned_def
      split: option.splits)

lemma ife_filename_set_name [simp]: "ife_filename (ife_set_name (Some n) 0 e) = Some (cstr n)"
  by (auto simp: ife_filename_def ife_set_name_def Let_def allocate_string_copy_def)

lemma ife_set_name_frame [simp]:
  "ife_offset (ife_set_name n b e) = ife_offset e" "ife_size (ife_set_name n b e) = ife_size e"
  "ife_symlink_index (ife_set_name n b e) = ife_symlink_index e"
  "ife_path_index (ife_set_name n b e) = ife_path_index e"
  "ife_pad_file (ife_set_name n b e) = ife_pad_file e"
  "ife_hidden_attribute (ife_set_name n b e) = ife_hidden_attribute e"
  "ife_executable_attribute (ife_set_name n b e) = ife_executable_attribute e"
  "ife_symlink_attribute (ife_set_name n b e) = ife_symlink_attribute e"
  by (simp_all add: ife_set_name_def Let_def)

lemma update_path_index_spec:
  assumes "i < num_files fs" "owned (m_files fs ! i)"
  obtains e ps where
    "update_path_index i fs = Some (fs\<lparr>m_paths := m_paths fs @ ps, m_files := (m_files fs)[i := e]\<rparr>)"
    "owned e" "-1 \<le> ife_path_index e" "ife_path_index e < int (length (m_paths fs @ ps))"
    "e\<lparr>ife_name := ife_name (m_files fs ! i), ife_path_index := ife_path_index (m_files fs ! i)\<rparr> = m_files fs ! i"
    "ife_path_index e = -1 \<longrightarrow> ife_name e = ife_name (m_files fs ! i)"
    "ife_path_index e \<noteq> -1 \<longrightarrow> 0 \<le> ife_path_index e
      \<and> (m_paths fs @ ps) ! nat (ife_path_index e) = parent_path (the (ife_filename (m_files fs ! i)))
      \<and> parent_path (the (ife_filename (m_files fs ! i))) \<noteq> []
      \<and> ife_filename e = Some (cstr (filename (the (ife_filename (m_files fs ! i)))))"
proof -
  let ?e = "m_files fs ! i"
  obtain n where n: "ife_filename ?e = Some n"
    using assms(2) by (simp add: ife_filename_owned)
  have len: "ife_name_len ?e = 0"
    using assms(2) by (simp add: owned_def)
  show thesis
  proof (cases "parent_path n = []")
    case True
    let ?e' = "?e\<lparr>ife_path_index := -1\<rparr>"
    have "owned ?e'" using assms(2) by (simp add: owned_def)
    then show thesis
      using that [of "?e'" "[]"] n True by (simp add: update_path_index_def)
  next
    case False
    let ?k = "find_last (m_paths fs) (parent_path n) (length (m_paths fs))"
    let ?e' = "\<lambda>k. ife_set_name (Some (filename n)) 0 (?e\<lparr>ife_path_index := int k\<rparr>)"
    have restored: "(?e' k)\<lparr>ife_name := ife_name ?e, ife_path_index := ife_path_index ?e\<rparr> = ?e" for k
      using len by (cases ?e) (simp add: ife_set_name_def Let_def)
    show thesis
    proof (cases ?k)
      case None
      then show thesis
        using that [of "?e' (length (m_paths fs))" "[parent_path n]"] n False owned_set_name restored
        by (simp add: update_path_index_def)
    next
      case (Some k)
      then have "k < length (m_paths fs)" "m_paths fs ! k = parent_path n"
        by (auto simp: find_last_Some)
      then show thesis
        using that [of "?e' k" "[]"] n False Some owned_set_name restored
        by (simp add: update_path_index_def)
    qed
  qed
qed

text \<open>The effect of \<^verbatim>\<open>update_path_index\<close> on the invariant, for an entry whose path index does not matter.\<close>

lemma entry_inv_more:
  "entry_inv fs e \<Longrightarrow> m_symlinks fs' = m_symlinks fs @ ls \<Longrightarrow> m_paths fs' = m_paths fs @ ps \<Longrightarrow> entry_inv fs' e"
  by (auto simp: entry_inv_def)

lemma sizes_update:
  "i < length es \<Longrightarrow> ife_size e = ife_size (es ! i) \<Longrightarrow> sizes (es[i := e]) = sizes es"
  by (induction es arbitrary: i) (auto split: nat.splits)

lemma laid_out_update:
  "i < length es \<Longrightarrow> ife_size e = ife_size (es ! i) \<Longrightarrow> ife_offset e = ife_offset (es ! i) \<Longrightarrow>
    laid_out off (es[i := e]) = laid_out off es"
  by (induction es arbitrary: i off) (auto split: nat.splits)

lemma update_path_index_inv:
  assumes "i < num_files fs" "table_inv (fs\<lparr>m_files := (m_files fs)[i := (m_files fs ! i)\<lparr>ife_path_index := -1\<rparr>]\<rparr>)"
  obtains fs' where "update_path_index i fs = Some fs'" "table_inv fs'"
    "sizes (m_files fs') = sizes (m_files fs)" "laid_out off (m_files fs') = laid_out off (m_files fs)"
    "m_total_size fs' = m_total_size fs"
proof -
  have ent: "entry_inv fs e" if "e \<in> set ((m_files fs)[i := (m_files fs ! i)\<lparr>ife_path_index := -1\<rparr>])" for e
    using assms(2) that by (auto simp: table_inv_def list_all_iff entry_inv_def)
  have i: "entry_inv fs ((m_files fs ! i)\<lparr>ife_path_index := -1\<rparr>)"
    using assms(1) by (intro ent) (simp add: num_files_def set_update_memI)
  then have own: "owned (m_files fs ! i)"
    by (simp add: entry_inv_def owned_def)
  obtain e ps where u: "update_path_index i fs = Some (fs\<lparr>m_paths := m_paths fs @ ps, m_files := (m_files fs)[i := e]\<rparr>)"
    and e: "owned e" "-1 \<le> ife_path_index e" "ife_path_index e < int (length (m_paths fs @ ps))"
    and same: "e\<lparr>ife_name := ife_name (m_files fs ! i), ife_path_index := ife_path_index (m_files fs ! i)\<rparr> = m_files fs ! i"
    using update_path_index_spec [OF assms(1) own] .
  let ?fs' = "fs\<lparr>m_paths := m_paths fs @ ps, m_files := (m_files fs)[i := e]\<rparr>"
  have fields: "ife_size e = ife_size (m_files fs ! i)" "ife_offset e = ife_offset (m_files fs ! i)"
    "ife_symlink_index e = ife_symlink_index (m_files fs ! i)"
    using arg_cong [OF same, of ife_size] arg_cong [OF same, of ife_offset] arg_cong [OF same, of ife_symlink_index]
    by simp_all
  have "entry_inv ?fs' e"
    using i e fields by (simp add: entry_inv_def)
  moreover have "entry_inv ?fs' x" if x: "x \<in> set ((m_files fs)[i := e])" for x
  proof -
    obtain j where j: "j < num_files fs" "x = (m_files fs)[i := e] ! j"
      using x unfolding in_set_conv_nth num_files_def length_list_update by blast
    show ?thesis
    proof (cases "j = i")
      case True
      then show ?thesis using j calculation(1) assms(1) by (simp add: num_files_def)
    next
      case False
      then have "x \<in> set ((m_files fs)[i := (m_files fs ! i)\<lparr>ife_path_index := -1\<rparr>])"
        using j nth_mem [of j "(m_files fs)[i := (m_files fs ! i)\<lparr>ife_path_index := -1\<rparr>]"]
        by (simp add: num_files_def)
      from entry_inv_more [OF ent [OF this], of ?fs' "[]" ps] show ?thesis by simp
    qed
  qed
  ultimately have "table_inv ?fs'"
    using assms(2) by (simp add: table_inv_def list_all_iff num_files_def)
  then show thesis
    using that [OF u] fields assms(1) by (simp add: sizes_update laid_out_update num_files_def)
qed

end
