(* ===== verification/File_Layout.thy ===== *)
theory File_Layout
  imports File_Storage
begin

text \<open>
  The invariant of \<^verbatim>\<open>file_storage\<close> under the operations that add and rename files, the translation of
  blocks to slices of files and back, and the paths of the files.
\<close>

subsection \<open>Operations keep the invariant\<close>

lemma set_last_attr_length: "length (set_last_attr d n v xs) = max (length xs) n"
  by (simp add: set_last_attr_def)

lemma bits16_id: "0 \<le> v \<Longrightarrow> v < 2 ^ 15 \<Longrightarrow> bits16 v = v"
  by (rule signed_take_bit_int_eq_self) auto

lemma table_inv_snoc:
  assumes "table_inv fs" "entry_inv fs' e" "m_files fs' = m_files fs @ [e]"
    "m_symlinks fs' = m_symlinks fs @ ls" "m_paths fs' = m_paths fs" "length (m_symlinks fs') < 2 ^ 15"
    "length (m_mtime fs') \<le> Suc (num_files fs)" "length (m_file_hashes fs') \<le> Suc (num_files fs)"
    "m_file_base fs' = []"
  shows "table_inv fs'"
proof -
  have "entry_inv fs' x" if "entry_inv fs x" for x
    using entry_inv_more [OF that assms(4)] assms(5) by simp
  then show ?thesis
    using assms by (auto simp: table_inv_def list_all_iff num_files_def)
qed

lemma update_last_inv:
  assumes "table_inv fs" "m_files fs = es @ [e]" "ife_path_index e = -1"
  obtains fs' where "update_path_index (length es) fs = Some fs'" "table_inv fs'"
    "sizes (m_files fs') = sizes (m_files fs)" "laid_out 0 (m_files fs') = laid_out 0 (m_files fs)"
    "m_total_size fs' = m_total_size fs"
proof -
  have "e\<lparr>ife_path_index := -1\<rparr> = e"
    using assms(3) by (cases e) simp
  then have "fs\<lparr>m_files := (m_files fs)[length es := (m_files fs ! length es)\<lparr>ife_path_index := -1\<rparr>]\<rparr> = fs"
    using assms(2) by (cases fs) simp
  moreover have "length es < num_files fs"
    using assms(2) by (simp add: num_files_def)
  ultimately show thesis
    using update_path_index_inv [of "length es" fs 0 thesis] assms(1) that by simp
qed

text \<open>The storage of \<^verbatim>\<open>add_file\<close> right before its call of \<^verbatim>\<open>update_path_index\<close>, when nothing overflows.\<close>

definition new_entry :: "bytes \<Rightarrow> int \<Rightarrow> int \<Rightarrow> file_storage \<Rightarrow> internal_file_entry" where
  "new_entry p s flags fs = (ife_set_name (Some p) 0 internal_file_entry_init)\<lparr>ife_size := s,
     ife_offset := m_total_size fs, ife_pad_file := flags AND 1 \<noteq> 0, ife_hidden_attribute := flags AND 2 \<noteq> 0,
     ife_executable_attribute := flags AND 4 \<noteq> 0, ife_symlink_attribute := flags AND 8 \<noteq> 0,
     ife_symlink_index := (if flags AND 8 \<noteq> 0 then int (length (m_symlinks fs)) else -1)\<rparr>"

definition appended :: "bytes \<Rightarrow> int \<Rightarrow> int \<Rightarrow> int \<Rightarrow> bytes \<Rightarrow> file_storage \<Rightarrow> file_storage" where
  "appended p s flags mtime link fs = fs\<lparr>m_name := torrent_name p fs, m_files := m_files fs @ [new_entry p s flags fs],
     m_symlinks := m_symlinks fs @ (if flags AND 8 \<noteq> 0 then [link] else []),
     m_mtime := (if mtime \<noteq> 0 then set_last_attr 0 (Suc (num_files fs)) mtime (m_mtime fs) else m_mtime fs)\<rparr>"

lemma new_entry_simps [simp]:
  "ife_size (new_entry p s flags fs) = s" "ife_offset (new_entry p s flags fs) = m_total_size fs"
  "ife_path_index (new_entry p s flags fs) = -1" "owned (new_entry p s flags fs)"
  "ife_symlink_index (new_entry p s flags fs) = (if flags AND 8 \<noteq> 0 then int (length (m_symlinks fs)) else -1)"
  "ife_name_len (new_entry p s flags fs) = 0"
  using owned_set_name [of p internal_file_entry_init]
  by (simp_all add: new_entry_def internal_file_entry_init_def owned_def)

lemma fs_inv_nonneg: "fs_inv fs \<Longrightarrow> 0 \<le> m_total_size fs"
  by (auto simp: fs_inv_def table_inv_def list_all_iff entry_inv_def intro!: sizes_nonneg)

lemma add_file_appended:
  assumes "fs_inv fs" "m_total_size fs + max sz 0 < 2 ^ 47" "length (m_symlinks fs) < 2 ^ 15 - 1"
  shows "add_file p sz flags mtime link fs =
    do { fs' \<leftarrow> update_path_index (num_files fs) (appended p (max sz 0) flags mtime link fs);
         Some (fs'\<lparr>m_total_size := m_total_size fs' + max sz 0\<rparr>) }"
proof -
  have "(if sz < 0 then 0 else sz) = max sz 0" by simp
  moreover have "bits48 (max sz 0) = max sz 0" "bits48 (m_total_size fs) = m_total_size fs"
    "bits16 (int (length (m_symlinks fs))) = int (length (m_symlinks fs))"
    using assms(2,3) fs_inv_nonneg [OF assms(1)] by (auto intro!: bits48_id bits16_id)
  moreover have "e = e\<lparr>ife_symlink_index := -1\<rparr>" if "ife_symlink_index e = -1" for e
    using that by (cases e) simp
  ultimately show ?thesis
    by (auto simp: add_file_def appended_def new_entry_def internal_file_entry_init_def ife_set_name_def Let_def)
qed

lemma add_file_inv:
  assumes "fs_inv fs" "m_total_size fs + max sz 0 < 2 ^ 47" "length (m_symlinks fs) < 2 ^ 15 - 1"
  obtains fs' where "add_file p sz flags mtime link fs = Some fs'" "fs_inv fs'"
proof -
  let ?s = "max sz 0"
  let ?e = "new_entry p ?s flags fs" and ?fs1 = "appended p ?s flags mtime link fs"
  have inv: "table_inv fs" "laid_out 0 (m_files fs)" "m_total_size fs = sizes (m_files fs)"
    using assms(1) by (auto simp: fs_inv_def)
  have t1: "table_inv ?fs1"
    by (rule table_inv_snoc [OF inv(1), of ?fs1 ?e "if flags AND 8 \<noteq> 0 then [link] else []"])
      (use assms(3) inv(1) in \<open>auto simp: appended_def entry_inv_def set_last_attr_length table_inv_def num_files_def\<close>)
  have "m_files ?fs1 = m_files fs @ [?e]" by (simp add: appended_def)
  from update_last_inv [OF t1 this]
  obtain fs' where fs': "update_path_index (num_files fs) ?fs1 = Some fs'" "table_inv fs'"
    "sizes (m_files fs') = sizes (m_files ?fs1)" "laid_out 0 (m_files fs') = laid_out 0 (m_files ?fs1)"
    "m_total_size fs' = m_total_size ?fs1"
    unfolding num_files_def by auto
  have "table_inv (fs'\<lparr>m_total_size := t\<rparr>)" for t
    using fs'(2) by (simp add: table_inv_def entry_inv_def num_files_def list_all_iff)
  moreover have "laid_out 0 (m_files fs')" "sizes (m_files fs') = m_total_size fs + ?s" "m_total_size fs' = m_total_size fs"
    using fs'(3-5) inv by (simp_all add: appended_def laid_out_append)
  ultimately have "fs_inv (fs'\<lparr>m_total_size := m_total_size fs' + ?s\<rparr>)"
    using assms(2) by (simp add: fs_inv_def)
  then show thesis
    using that add_file_appended [OF assms] fs'(1) by simp
qed

lemma add_file_entry_inv:
  assumes "fs_inv fs" "fe_size ent < 2 ^ 47" "- (2 ^ 47) \<le> fe_size ent"
    "m_total_size fs + max (fe_size ent) 0 < 2 ^ 47"
    "length (m_symlinks fs) < 2 ^ 15 - 1" "fe_file_base ent = 0"
  obtains fs' where "add_file_entry ent filehash fs = Some fs'" "fs_inv fs'"
proof -
  define e where "e = (let e = ife_of_entry ent; e = (if ife_size e < 0 then e\<lparr>ife_size := 0\<rparr> else e)
    in e\<lparr>ife_offset := m_total_size fs\<rparr>)"
  define e' where
    "e' = (if fe_symlink_path ent \<noteq> [] then e\<lparr>ife_symlink_index := int (length (m_symlinks fs))\<rparr> else e)"
  define links where "links = (if fe_symlink_path ent \<noteq> [] then [fe_symlink_path ent] else [])"
  define fs1 where "fs1 = fs\<lparr>m_name := torrent_name (fe_path ent) fs, m_files := m_files fs @ [e'],
    m_total_size := m_total_size fs + ife_size e,
    m_file_hashes := (if filehash \<noteq> None then set_last_attr None (num_files fs + 1) filehash (m_file_hashes fs) else m_file_hashes fs),
    m_symlinks := m_symlinks fs @ links,
    m_mtime := (if fe_mtime ent \<noteq> 0 then set_last_attr 0 (num_files fs + 1) (fe_mtime ent) (m_mtime fs) else m_mtime fs)\<rparr>"
  have inv: "table_inv fs" "laid_out 0 (m_files fs)" "m_total_size fs = sizes (m_files fs)"
    using assms(1) by (auto simp: fs_inv_def)
  have nonneg: "0 \<le> m_total_size fs"
    using inv by (auto simp: table_inv_def list_all_iff entry_inv_def intro!: sizes_nonneg)
  have cut: "bits48 (fe_size ent) = fe_size ent" "bits48 (m_total_size fs) = m_total_size fs"
    "bits16 (int (length (m_symlinks fs))) = int (length (m_symlinks fs))"
    using assms(2-5) nonneg by (auto intro!: bits48_id bits16_id)
  have add: "add_file_entry ent filehash fs = update_path_index (num_files fs) fs1"
    using cut assms(6) by (simp add: add_file_entry_def fs1_def e'_def e_def links_def Let_def)
  have e': "ife_size e' = max (fe_size ent) 0" "ife_offset e' = m_total_size fs" "ife_path_index e' = -1" "owned e'"
    "ife_symlink_index e' = (if fe_symlink_path ent \<noteq> [] then int (length (m_symlinks fs)) else -1)"
    "ife_size e' = ife_size e"
    using owned_set_name [of "fe_path ent"] cut
    by (simp_all add: e'_def e_def ife_of_entry_def owned_def Let_def)
  have t1: "table_inv fs1"
    by (rule table_inv_snoc [OF inv(1), of fs1 e' links])
      (use assms(5) inv(1) e' in \<open>auto simp: fs1_def entry_inv_def links_def set_last_attr_length table_inv_def num_files_def\<close>)
  have "m_files fs1 = m_files fs @ [e']" by (simp add: fs1_def)
  from update_last_inv [OF t1 this e'(3)]
  obtain fs' where fs': "update_path_index (num_files fs) fs1 = Some fs'" "table_inv fs'"
    "sizes (m_files fs') = sizes (m_files fs1)" "laid_out 0 (m_files fs') = laid_out 0 (m_files fs1)"
    "m_total_size fs' = m_total_size fs1"
    unfolding num_files_def by blast
  have "fs_inv fs'"
    using fs' inv e' assms(4) by (simp add: fs_inv_def fs1_def laid_out_append)
  then show thesis
    using that add fs'(1) by simp
qed

lemma rename_file_inv:
  assumes "fs_inv fs" "i < num_files fs"
  obtains fs' where "rename_file i new fs = Some fs'" "fs_inv fs'"
proof -
  let ?e = "ife_set_name (Some new) 0 (m_files fs ! i)"
  let ?fs1 = "fs\<lparr>m_files := (m_files fs)[i := ?e]\<rparr>"
  have i: "i < length (m_files fs)" "m_files fs ! i \<in> set (m_files fs)"
    using assms(2) by (auto simp: num_files_def)
  have "entry_inv fs (?e\<lparr>ife_path_index := -1\<rparr>)"
    using owned_set_name [of new "m_files fs ! i"] assms(1) i
    by (auto simp: fs_inv_def table_inv_def list_all_iff entry_inv_def owned_def)
  then have "table_inv (?fs1\<lparr>m_files := (m_files ?fs1)[i := (m_files ?fs1 ! i)\<lparr>ife_path_index := -1\<rparr>]\<rparr>)"
    using assms(1) i set_update_subset_insert [of "m_files fs" i "?e\<lparr>ife_path_index := -1\<rparr>"]
    by (fastforce simp: fs_inv_def table_inv_def list_all_iff entry_inv_def num_files_def)
  moreover have "i < num_files ?fs1"
    using assms(2) by (simp add: num_files_def)
  ultimately obtain fs' where fs': "update_path_index i ?fs1 = Some fs'" "table_inv fs'"
    "sizes (m_files fs') = sizes (m_files ?fs1)" "laid_out 0 (m_files fs') = laid_out 0 (m_files ?fs1)"
    "m_total_size fs' = m_total_size ?fs1"
    using update_path_index_inv [of i ?fs1 0 thesis] by blast
  have "fs_inv fs'"
    using fs' assms(1) i by (simp add: fs_inv_def sizes_update laid_out_update)
  then show thesis
    using that fs'(1) assms(2) by (simp add: rename_file_def)
qed

subsection \<open>Blocks and slices\<close>

text \<open>The bytes of a slice, for the contents of the files, and what a list of slices promises.\<close>

definition slice_bytes :: "'a list list \<Rightarrow> file_slice \<Rightarrow> 'a list" where
  "slice_bytes data s = take (nat (fsl_size s)) (drop (nat (fsl_offset s)) (data ! fsl_file_index s))"

definition slice_ok :: "file_storage \<Rightarrow> file_slice \<Rightarrow> bool" where
  "slice_ok fs s \<longleftrightarrow> fsl_file_index s < num_files fs \<and> 0 \<le> fsl_offset s \<and> 0 < fsl_size s
     \<and> fsl_offset s + fsl_size s \<le> file_size fs (fsl_file_index s)"

lemma take_drop_append:
  assumes "length xs \<le> n"
  shows "take k (drop n (xs @ ys)) = take k (drop (n - length xs) ys)"
  using assms by simp

lemma map_block_loop_spec:
  assumes "list_all (\<lambda>e. 0 \<le> ife_size e) (m_files fs)" "m_file_base fs = []"
    "map (\<lambda>d. int (length d)) data = map ife_size (m_files fs)"
    "0 \<le> sz" "sz = 0 \<or> (0 \<le> fo \<and> fo + sz \<le> sizes (drop i (m_files fs)))"
  shows "\<exists>sl. map_block_loop fs i fo sz = Some sl \<and> list_all (slice_ok fs) sl
    \<and> concat (map (slice_bytes data) sl) = take (nat sz) (drop (nat fo) (concat (drop i data)))
    \<and> (\<forall>s \<in> set sl. i \<le> fsl_file_index s) \<and> sorted_wrt (<) (map fsl_file_index sl)"
  using assms(4,5)
proof (induction "num_files fs - i" arbitrary: i fo sz)
  case 0
  then have "sz = 0" by (auto simp: num_files_def)
  then show ?case by (simp add: map_block_loop.simps)
next
  case (Suc n)
  show ?case
  proof (cases "sz = 0")
    case True
    then show ?thesis by (simp add: map_block_loop.simps)
  next
    case False
    let ?e = "m_files fs ! i" and ?d = "data ! i"
    have len: "length data = num_files fs"
      using arg_cong [OF assms(3), of length] by (simp add: num_files_def)
    have i: "i < num_files fs" and n: "n = num_files fs - Suc i" using Suc.hyps(2) by simp_all
    have drops: "drop i (m_files fs) = ?e # drop (Suc i) (m_files fs)" "drop i data = ?d # drop (Suc i) data"
      using i len by (simp_all add: num_files_def Cons_nth_drop_Suc)
    have size: "int (length ?d) = ife_size ?e"
      using arg_cong [OF assms(3), of "\<lambda>xs. xs ! i"] i len by (simp add: num_files_def)
    have fo: "0 \<le> fo" "fo + sz \<le> ife_size ?e + sizes (drop (Suc i) (m_files fs))" "0 < sz"
      using Suc.prems False drops by auto
    show ?thesis
    proof (cases "fo < ife_size ?e")
      case True
      define w where "w = min (ife_size ?e - fo) sz"
      define f where "f = \<lparr>fsl_file_index = i, fsl_offset = fo, fsl_size = w\<rparr>"
      have w: "0 < w" "w \<le> sz" "fo + w \<le> ife_size ?e" "sz - w = 0 \<or> fo + w = ife_size ?e"
        using True fo by (auto simp: w_def)
      have "0 \<le> sz - w" "sz - w = 0 \<or> (0 \<le> fo + w - ife_size ?e \<and> fo + w - ife_size ?e + (sz - w) \<le> sizes (drop (Suc i) (m_files fs)))"
        using w fo by auto
      from Suc.hyps(1) [OF n this] obtain sl where sl: "map_block_loop fs (Suc i) (fo + w - ife_size ?e) (sz - w) = Some sl"
        "list_all (slice_ok fs) sl"
        "concat (map (slice_bytes data) sl) = take (nat (sz - w)) (drop (nat (fo + w - ife_size ?e)) (concat (drop (Suc i) data)))"
        "\<forall>s \<in> set sl. Suc i \<le> fsl_file_index s" "sorted_wrt (<) (map fsl_file_index sl)"
        by blast
      have "map_block_loop fs i fo sz = Some (f # sl)"
        using True i sl(1) fo(3) by (simp add: map_block_loop.simps [of fs i fo sz] Let_def f_def w_def file_base_def assms(2))
      moreover have "slice_ok fs f"
        using w i fo by (simp add: slice_ok_def f_def file_size_def)
      moreover have "slice_bytes data f @ concat (map (slice_bytes data) sl) = take (nat sz) (drop (nat fo) (concat (drop i data)))"
      proof -
        have "nat fo + nat w \<le> length ?d" using w(3) size fo(1) w(1) by linarith
        moreover have "nat (sz - w) = 0 \<or> length ?d = nat fo + nat w \<and> fo + w - ife_size ?e = 0"
          using w size fo(1) by auto
        moreover have "nat sz = nat w + nat (sz - w)" using w by simp
        ultimately show ?thesis
          by (auto simp: slice_bytes_def f_def sl(3) drops(2) take_add)
      qed
      ultimately show ?thesis
        using sl(2,4,5) by (intro exI [of _ "f # sl"]) (auto simp: f_def Suc_le_eq)
    next
      case False
      have "0 \<le> sz" "sz = 0 \<or> (0 \<le> fo - ife_size ?e \<and> fo - ife_size ?e + sz \<le> sizes (drop (Suc i) (m_files fs)))"
        using False fo by auto
      from Suc.hyps(1) [OF n this] obtain sl where sl: "map_block_loop fs (Suc i) (fo - ife_size ?e) sz = Some sl"
        "list_all (slice_ok fs) sl"
        "concat (map (slice_bytes data) sl) = take (nat sz) (drop (nat (fo - ife_size ?e)) (concat (drop (Suc i) data)))"
        "\<forall>s \<in> set sl. Suc i \<le> fsl_file_index s" "sorted_wrt (<) (map fsl_file_index sl)"
        by blast
      have "map_block_loop fs i fo sz = Some sl"
        using False i sl(1) fo(3) by (simp add: map_block_loop.simps [of fs i fo sz])
      moreover have "nat (fo - ife_size ?e) = nat fo - length ?d" "length ?d \<le> nat fo"
        using size False by linarith+
      ultimately show ?thesis
        using sl by (intro exI [of _ sl]) (auto simp: drops(2))
    qed
  qed
qed

lemma laid_out_nth:
  "laid_out off es \<Longrightarrow> i < length es \<Longrightarrow> ife_offset (es ! i) = off + sizes (take i es)"
proof (induction es arbitrary: off i)
  case (Cons e es)
  then show ?case by (cases i) auto
qed simp

lemma laid_out_sorted:
  assumes "laid_out off es" "list_all (\<lambda>e. 0 \<le> ife_size e) es" "i \<le> j" "j < length es"
  shows "ife_offset (es ! i) \<le> ife_offset (es ! j)"
proof -
  have "take j es = take i es @ take (j - i) (drop i es)"
    using assms(3) by (metis le_add_diff_inverse take_add)
  moreover have "list_all (\<lambda>e. 0 \<le> ife_size e) (take (j - i) (drop i es))"
    using assms(2) by (auto simp: list_all_iff dest: in_set_takeD in_set_dropD)
  ultimately show ?thesis
    using laid_out_nth [OF assms(1)] assms(3,4) sizes_nonneg by fastforce
qed

text \<open>
  The file at an offset: the last one that starts at or before it. It contains the offset unless it is
  the last file.
\<close>

lemma upper_bound_spec:
  assumes "fs_inv fs" "m_files fs \<noteq> []" "0 \<le> off" "off \<le> m_total_size fs"
  obtains i where "upper_bound fs off = Suc i" "i < num_files fs" "ife_offset (m_files fs ! i) \<le> off"
    "\<forall>j. i < j \<and> j < num_files fs \<longrightarrow> off < ife_offset (m_files fs ! j)"
proof -
  let ?es = "m_files fs" and ?P = "\<lambda>e. \<not> bits48 off < ife_offset e"
  define u where "u = length (takeWhile ?P ?es)"
  have off: "bits48 off = off"
    using assms by (intro bits48_id) (auto simp: fs_inv_def)
  have lay: "laid_out 0 ?es" "list_all (\<lambda>e. 0 \<le> ife_size e) ?es"
    using assms(1) by (auto simp: fs_inv_def table_inv_def list_all_iff entry_inv_def)
  then have "ife_offset (?es ! 0) = 0"
    using laid_out_nth [of 0 ?es 0] assms(2) by simp
  then have "?P (hd ?es)"
    using assms(2,3) off by (simp add: hd_conv_nth)
  then have u: "0 < u" "u \<le> num_files fs"
    using assms(2) length_takeWhile_le [of ?P ?es] by (auto simp: u_def num_files_def takeWhile_eq_Nil_iff)
  have "u - 1 < length (takeWhile ?P ?es)"
    using u(1) by (simp add: u_def)
  from set_takeWhileD [OF nth_mem [OF this]] takeWhile_nth [OF this] have "?P (?es ! (u - 1))"
    by simp
  moreover have "off < ife_offset (?es ! j)" if "u \<le> j" "j < num_files fs" for j
  proof -
    have "\<not> ?P (?es ! u)"
      using nth_length_takeWhile [of ?P ?es] that by (simp add: u_def num_files_def)
    then show ?thesis
      using laid_out_sorted [OF lay, of u j] that off by (simp add: num_files_def)
  qed
  moreover have "upper_bound fs off = u"
    by (simp add: upper_bound_def u_def)
  ultimately show thesis
    using that [of "u - 1"] u off by (cases u) (auto simp: Suc_le_eq)
qed

lemma int_sum_list: "int (sum_list xs) = sum_list (map int xs)"
  by (induction xs) auto

lemma map_block_spec:
  assumes "fs_inv fs" "0 \<le> off" "0 \<le> sz" "off + sz \<le> m_total_size fs" "off = piece * m_piece_length fs + offset"
    "map (\<lambda>d. int (length d)) data = map ife_size (m_files fs)"
  shows "\<exists>sl. map_block fs piece offset sz = Some sl \<and> list_all (slice_ok fs) sl
    \<and> concat (map (slice_bytes data) sl) = take (nat sz) (drop (nat off) (concat data))
    \<and> sorted_wrt (<) (map fsl_file_index sl)"
proof (cases "m_files fs = []")
  case True
  then have "data = []" using assms(6) by simp
  then show ?thesis
    using True assms(1,3,4) by (simp add: map_block_def)
next
  case False
  have off: "bits48 off = off"
    using assms by (intro bits48_id) (auto simp: fs_inv_def)
  have lay: "laid_out 0 (m_files fs)" "list_all (\<lambda>e. 0 \<le> ife_size e) (m_files fs)" "m_file_base fs = []"
    and total: "m_total_size fs = sizes (m_files fs)"
    using assms(1) by (auto simp: fs_inv_def table_inv_def list_all_iff entry_inv_def)
  obtain i where i: "upper_bound fs off = Suc i" "i < num_files fs" "ife_offset (m_files fs ! i) \<le> off"
    using upper_bound_spec [OF assms(1) False assms(2)] assms(3,4) by auto
  let ?fo = "off - ife_offset (m_files fs ! i)"
  have before: "ife_offset (m_files fs ! i) = sizes (take i (m_files fs))"
    using laid_out_nth [OF lay(1)] i(2) by (simp add: num_files_def)
  have "m_total_size fs = sizes (take i (m_files fs)) + sizes (drop i (m_files fs))"
    using total sizes_simps(3) [of "take i (m_files fs)" "drop i (m_files fs)"] by simp
  then have "?fo + sz \<le> sizes (drop i (m_files fs))"
    using assms(4) before by simp
  then obtain sl where sl: "map_block_loop fs i ?fo sz = Some sl" "list_all (slice_ok fs) sl"
    "concat (map (slice_bytes data) sl) = take (nat sz) (drop (nat ?fo) (concat (drop i data)))"
    "sorted_wrt (<) (map fsl_file_index sl)"
    using map_block_loop_spec [OF lay(2,3) assms(6,3), of ?fo i] i(3) by auto
  have "int (length (concat (take i data))) = sizes (take i (m_files fs))"
    using arg_cong [OF assms(6), of "\<lambda>xs. sum_list (take i xs)"]
    by (simp add: sizes_def take_map length_concat int_sum_list comp_def)
  then have "nat off = length (concat (take i data)) + nat ?fo"
    using before i(3) assms(2) by linarith
  moreover have "concat data = concat (take i data) @ concat (drop i data)"
    by (metis append_take_drop_id concat_append)
  ultimately have "drop (nat off) (concat data) = drop (nat ?fo) (concat (drop i data))"
    by simp
  then show ?thesis
    using sl i(1) off False assms(5) by (simp add: map_block_def)
qed

lemma laid_out_next:
  assumes "laid_out off es" "list_all (\<lambda>e. 0 \<le> ife_size e) es" "i < j" "j < length es"
  shows "ife_offset (es ! i) + ife_size (es ! i) \<le> ife_offset (es ! j)"
proof -
  have "ife_offset (es ! Suc i) = ife_offset (es ! i) + ife_size (es ! i)"
    using laid_out_nth [OF assms(1), of "Suc i"] laid_out_nth [OF assms(1), of i] assms(3,4)
    by (simp add: take_Suc_conv_app_nth)
  then show ?thesis
    using laid_out_sorted [OF assms(1,2), of "Suc i" j] assms(3,4) by simp
qed

lemma upper_bound_inside:
  assumes "fs_inv fs" "i < num_files fs" "0 \<le> fo" "fo < file_size fs i"
  shows "upper_bound fs (ife_offset (m_files fs ! i) + fo) = Suc i
    \<and> 0 \<le> ife_offset (m_files fs ! i) \<and> ife_offset (m_files fs ! i) + file_size fs i \<le> m_total_size fs"
proof -
  let ?o = "ife_offset (m_files fs ! i)"
  have lay: "laid_out 0 (m_files fs)" "list_all (\<lambda>e. 0 \<le> ife_size e) (m_files fs)"
    and total: "m_total_size fs = sizes (m_files fs)"
    using assms(1) by (auto simp: fs_inv_def table_inv_def list_all_iff entry_inv_def)
  have i: "i < length (m_files fs)" using assms(2) by (simp add: num_files_def)
  have "?o = sizes (take i (m_files fs))"
    using laid_out_nth [OF lay(1)] i by simp
  moreover have "sizes (m_files fs) = sizes (take i (m_files fs)) + ife_size (m_files fs ! i) + sizes (drop (Suc i) (m_files fs))"
    using id_take_nth_drop [OF i] sizes_simps by (metis add.assoc)
  moreover have "0 \<le> sizes (take i (m_files fs))" "0 \<le> sizes (drop (Suc i) (m_files fs))"
    using lay(2) by (intro sizes_nonneg; unfold list_all_iff; blast dest: in_set_takeD in_set_dropD)+
  ultimately have o: "0 \<le> ?o" "?o + file_size fs i \<le> m_total_size fs"
    by (auto simp: total file_size_def)
  have "m_files fs \<noteq> []" "0 \<le> ?o + fo" "?o + fo \<le> m_total_size fs"
    using o assms(3,4) i by auto
  from upper_bound_spec [OF assms(1) this]
  obtain k where k: "upper_bound fs (?o + fo) = Suc k" "k < num_files fs"
    "ife_offset (m_files fs ! k) \<le> ?o + fo" "\<forall>j. k < j \<and> j < num_files fs \<longrightarrow> ?o + fo < ife_offset (m_files fs ! j)"
    by blast
  have "\<not> i < k"
    using laid_out_next [OF lay, of i k] k(2,3) assms(4) by (auto simp: file_size_def num_files_def)
  moreover have "\<not> k < i"
    using k(4) assms(2,3) by force
  ultimately show ?thesis
    using k(1) o by auto
qed

lemma map_file_map_block:
  assumes "fs_inv fs" "i < num_files fs" "0 \<le> fo" "0 < sz" "fo + sz \<le> file_size fs i" "0 < m_piece_length fs"
  defines "r \<equiv> map_file fs (int i) fo sz"
  shows "map_block fs (pr_piece r) (pr_start r) (pr_length r) =
      Some [\<lparr>fsl_file_index = i, fsl_offset = fo, fsl_size = sz\<rparr>]
    \<and> 0 \<le> pr_start r \<and> pr_start r < m_piece_length fs \<and> 0 \<le> pr_piece r
    \<and> pr_piece r * m_piece_length fs + pr_start r + sz \<le> m_total_size fs"
proof -
  let ?o = "ife_offset (m_files fs ! i)"
  have u: "upper_bound fs (?o + fo) = Suc i" "0 \<le> ?o" "?o + file_size fs i \<le> m_total_size fs"
    using upper_bound_inside [OF assms(1-3)] assms(4,5) by auto
  have r: "r = \<lparr>pr_piece = (fo + ?o) div m_piece_length fs, pr_start = (fo + ?o) mod m_piece_length fs, pr_length = sz\<rparr>"
    using assms(2-6) u by (auto simp: r_def map_file_def total_size_def signed_divide_int_def signed_modulo_int_def sgn_if Let_def)
  then have off: "pr_piece r * m_piece_length fs + pr_start r = ?o + fo"
    by simp
  have "bits48 (?o + fo) = ?o + fo"
    using u assms by (intro bits48_id) (auto simp: fs_inv_def)
  moreover have "m_files fs \<noteq> []" "m_file_base fs = []"
    using assms(1,2) by (auto simp: num_files_def fs_inv_def table_inv_def)
  ultimately have "map_block fs (pr_piece r) (pr_start r) (pr_length r) = map_block_loop fs i fo sz"
    using off u(1) r by (simp add: map_block_def add.commute [of fo ?o])
  also have "\<dots> = Some [\<lparr>fsl_file_index = i, fsl_offset = fo, fsl_size = sz\<rparr>]"
  proof -
    have "min (ife_size (m_files fs ! i) - fo) sz = sz" "fo < ife_size (m_files fs ! i)"
      using assms(4,5) by (auto simp: file_size_def)
    then show ?thesis
      using assms(2-4) \<open>m_file_base fs = []\<close>
      by (simp add: map_block_loop.simps [of fs i fo sz] map_block_loop.simps [of fs "Suc i" _ 0] file_base_def Let_def)
  qed
  finally show ?thesis
    using off u assms(3-6) r by (auto simp: pos_imp_zdiv_nonneg_iff)
qed

subsection \<open>Pieces\<close>

lemma sum_piece_sizes:
  assumes "0 < m_piece_length fs" "0 < m_total_size fs"
    "m_num_pieces fs = (m_total_size fs + m_piece_length fs - 1) div m_piece_length fs"
  shows "(\<Sum>i \<in> {0..<m_num_pieces fs}. piece_size fs i) = m_total_size fs
    \<and> (\<forall>i. 0 \<le> i \<and> i < m_num_pieces fs \<longrightarrow> 0 < piece_size fs i \<and> piece_size fs i \<le> m_piece_length fs)"
proof -
  let ?n = "m_num_pieces fs" and ?l = "m_piece_length fs" and ?t = "m_total_size fs"
  have n: "0 < ?n" "(?n - 1) * ?l < ?t" "?t \<le> ?n * ?l"
  proof -
    show "0 < ?n"
      using assms by (simp add: pos_imp_zdiv_pos_iff)
    have "?t + ?l - 1 = ?n * ?l + (?t + ?l - 1) mod ?l"
      by (simp add: assms(3))
    moreover have "0 \<le> (?t + ?l - 1) mod ?l" "(?t + ?l - 1) mod ?l < ?l"
      using assms(1) by simp_all
    ultimately show "(?n - 1) * ?l < ?t" "?t \<le> ?n * ?l"
      by (simp_all add: algebra_simps)
  qed
  have last: "piece_size fs (?n - 1) = ?t - (?n - 1) * ?l"
    by (simp add: piece_size_def total_size_def)
  have other: "piece_size fs i = ?l" if "i < ?n - 1" for i
    using that by (simp add: piece_size_def)
  have "{0..<?n} = insert (?n - 1) {0..<?n - 1}"
    using n(1) by auto
  then have "(\<Sum>i \<in> {0..<?n}. piece_size fs i) = piece_size fs (?n - 1) + (\<Sum>i \<in> {0..<?n - 1}. ?l)"
    using other by simp
  also have "\<dots> = ?t"
    using n(1) last by simp
  finally have "(\<Sum>i \<in> {0..<?n}. piece_size fs i) = ?t" .
  moreover have "0 < piece_size fs i \<and> piece_size fs i \<le> ?l" if "0 \<le> i" "i < ?n" for i
  proof (cases "i = ?n - 1")
    case True
    then show ?thesis using last n by (simp add: left_diff_distrib)
  next
    case False
    then show ?thesis using other [of i] that assms(1) by simp
  qed
  ultimately show ?thesis by blast
qed

subsection \<open>Paths\<close>

text \<open>
  The paths that come back unchanged: no null character, no backslash and no separator at the end, and
  the last element is not \<^verbatim>\<open>.\<close>.
\<close>

definition plain_path :: "bytes \<Rightarrow> bool" where
  "plain_path p \<longleftrightarrow> p \<noteq> [] \<and> 0 \<notin> set p \<and> backslash \<notin> set p \<and> last p \<noteq> slash \<and> last (parts p) \<noteq> str ''.''"

lemma find_sep_None: "find_sep f n = None \<longleftrightarrow> (\<forall>i < n. \<not> is_sep (f ! i))"
  by (induction n) (auto simp: less_Suc_eq)

lemma find_sep_Some:
  "find_sep f n = Some i \<longleftrightarrow> i < n \<and> is_sep (f ! i) \<and> (\<forall>j. i < j \<and> j < n \<longrightarrow> \<not> is_sep (f ! j))"
  by (induction n) (auto simp: less_Suc_eq)

lemma parts_append: "parts (a @ slash # b) = parts a @ parts b"
proof (induction a)
  case (Cons c a)
  then show ?case by (cases "parts a") auto
qed simp

lemma last_parts: "slash \<notin> set b \<Longrightarrow> last (parts (a @ slash # b)) = b"
  by (simp add: parts_append parts_single)

lemma plain_path_cases:
  assumes "plain_path p"
  obtains (name) "slash \<notin> set p"
  | (dir) a b where "p = a @ slash # b" "slash \<notin> set b" "b \<noteq> []" "b \<noteq> str ''.''"
proof (cases "slash \<in> set p")
  case True
  then obtain a b where p: "p = a @ slash # b" "slash \<notin> set b"
    using split_list_last by metis
  moreover have "b \<noteq> []"
    using assms p by (auto simp: plain_path_def)
  moreover have "b \<noteq> str ''.''"
    using assms p last_parts by (auto simp: plain_path_def)
  ultimately show thesis using dir by blast
qed (use name in blast)

lemma plain_path_parts:
  assumes "plain_path p"
  shows "if slash \<in> set p then parent_path p \<noteq> [] \<and> combine_path (parent_path p) (cstr (filename p)) = p
    else parent_path p = []"
  using assms
proof (cases rule: plain_path_cases)
  case name
  then have "\<not> is_sep (p ! i)" if "i < length p" for i
    using assms that by (metis is_sep_def nth_mem plain_path_def)
  moreover have "p \<noteq> []" using assms by (simp add: plain_path_def)
  ultimately have "find_sep p (ignore_sep p) = None" "\<not> is_sep (p ! 0)"
    by (auto simp: find_sep_None ignore_sep_def)
  then show ?thesis
    using name by (simp add: parent_path_def)
next
  case (dir a b)
  have sep: "\<not> is_sep (p ! j)" if "length a < j" "j < length p" for j
  proof -
    have "p ! j \<in> set b"
      using that by (simp add: dir nth_append nth_Cons')
    then show ?thesis
      using assms dir by (auto simp: is_sep_def plain_path_def)
  qed
  have len: "length a < length p - 1" "p ! length a = slash" "p \<noteq> [slash]"
    using dir by (cases b; auto)+
  then have "ignore_sep p = length p"
    using sep [of "length p - 1"] by (simp add: ignore_sep_def)
  moreover have "find_sep p (length p) = Some (length a)"
    using sep len by (auto simp: find_sep_Some is_sep_def)
  ultimately have parent: "parent_path p = a @ [slash]"
    using len dir by (auto simp: parent_path_def is_sep_def Let_def)
  have nul: "0 \<notin> set p" using assms by (simp add: plain_path_def)
  have "strrchr p slash = Some (length a)"
    using nul sep len dir(2) by (auto simp: strrchr_def find_last_Some is_sep_def)
  then have "filename p = b"
    using nul len dir by (simp add: filename_def)
  moreover have "0 \<notin> set a" "0 \<notin> set b"
    using nul dir by auto
  ultimately show ?thesis
    using parent dir by (simp add: combine_path_def)
qed

subsection \<open>Looking up files\<close>

lemma file_path_frame:
  assumes "m_files fs' ! j = m_files fs ! j" "m_paths fs' = m_paths fs @ ps" "entry_inv fs (m_files fs ! j)"
  shows "file_path fs' j = file_path fs j"
  using assms by (auto simp: file_path_def entry_inv_def ife_filename_owned nth_append nat_less_iff Let_def)

lemma fs_symlink_frame:
  assumes "m_files fs' ! j = m_files fs ! j" "m_symlinks fs' = m_symlinks fs @ ls" "entry_inv fs (m_files fs ! j)"
  shows "fs_symlink fs' j = fs_symlink fs j"
  using assms by (auto simp: fs_symlink_def entry_inv_def nth_append nat_less_iff Let_def)

lemma at_index_frame:
  assumes "j < num_files fs" "j < num_files fs'" "m_files fs' ! j = m_files fs ! j"
    "m_paths fs' = m_paths fs @ ps" "m_symlinks fs' = m_symlinks fs @ ls" "entry_inv fs (m_files fs ! j)"
    "fs_mtime fs' j = fs_mtime fs j" "fs_hash fs' j = fs_hash fs j" "m_file_base fs' = m_file_base fs"
  shows "at_index fs' j = at_index fs j"
proof -
  have "file_base fs' j = file_base fs j"
    using assms(9) by (simp add: file_base_def)
  then show ?thesis
    using assms file_path_frame [OF assms(3,4,6)] fs_symlink_frame [OF assms(3,5,6)]
    by (simp add: at_index_def Let_def)
qed

lemma fs_mtime_set_last:
  assumes "m_mtime fs' = set_last_attr 0 (Suc n) v (m_mtime fs)" "length (m_mtime fs) \<le> n"
  shows "fs_mtime fs' j = (if j = n then v else fs_mtime fs j)"
  using assms by (auto simp: fs_mtime_def set_last_attr_def nth_vec_resize nth_list_update)

text \<open>The path of an entry after \<^verbatim>\<open>update_path_index\<close>.\<close>

lemma update_path_index_path:
  assumes "i < num_files fs" "ife_name_len (m_files fs ! i) = 0" "ife_name (m_files fs ! i) = Some p" "plain_path p"
    "update_path_index i fs = Some fs'"
  shows "file_path fs' i = Some p
    \<and> (\<exists>ps e. fs' = fs\<lparr>m_paths := m_paths fs @ ps, m_files := (m_files fs)[i := e]\<rparr>
      \<and> e\<lparr>ife_name := ife_name (m_files fs ! i), ife_path_index := ife_path_index (m_files fs ! i)\<rparr> = m_files fs ! i)"
proof -
  have own: "owned (m_files fs ! i)" and name: "ife_filename (m_files fs ! i) = Some p"
    using assms(2-4) by (auto simp: owned_def plain_path_def ife_filename_def)
  obtain e ps where u: "update_path_index i fs = Some (fs\<lparr>m_paths := m_paths fs @ ps, m_files := (m_files fs)[i := e]\<rparr>)"
    and e: "owned e" "-1 \<le> ife_path_index e" "ife_path_index e < int (length (m_paths fs @ ps))"
    and same: "e\<lparr>ife_name := ife_name (m_files fs ! i), ife_path_index := ife_path_index (m_files fs ! i)\<rparr> = m_files fs ! i"
    and root: "ife_path_index e = -1 \<longrightarrow> ife_name e = ife_name (m_files fs ! i)"
    and dir: "ife_path_index e \<noteq> -1 \<longrightarrow> 0 \<le> ife_path_index e
      \<and> (m_paths fs @ ps) ! nat (ife_path_index e) = parent_path (the (ife_filename (m_files fs ! i)))
      \<and> parent_path (the (ife_filename (m_files fs ! i))) \<noteq> []
      \<and> ife_filename e = Some (cstr (filename (the (ife_filename (m_files fs ! i)))))"
    using update_path_index_spec [OF assms(1) own] .
  have fs': "fs' = fs\<lparr>m_paths := m_paths fs @ ps, m_files := (m_files fs)[i := e]\<rparr>"
    using u assms(5) by simp
  have "file_path fs' i = Some p"
  proof (cases "ife_path_index e = -1")
    case True
    then have "ife_filename e = Some p"
      using root e(1) assms(3) by (simp add: owned_def ife_filename_def)
    then show ?thesis
      using True assms(1) by (simp add: fs' file_path_def num_files_def)
  next
    case False
    then show ?thesis
      using dir False plain_path_parts [OF assms(4)] assms(1) e(3) name
      by (auto simp: fs' file_path_def num_files_def split: if_splits)
  qed
  then show ?thesis
    using fs' same by blast
qed

lemma file_path_total [simp]: "file_path (fs\<lparr>m_total_size := t\<rparr>) j = file_path fs j"
  by (cases "ife_filename (m_files fs ! j)") (simp_all add: file_path_def Let_def)

lemma add_file_at:
  assumes "fs_inv fs" "0 \<le> sz" "m_total_size fs + sz < 2 ^ 47" "length (m_symlinks fs) < 2 ^ 15 - 1" "plain_path p"
    "add_file p sz flags mtime link fs = Some fs'"
  shows "at_index fs' (num_files fs) = Some \<lparr>fe_path = p, fe_offset = m_total_size fs, fe_size = sz,
      fe_file_base = 0, fe_mtime = mtime, fe_filehash = replicate 20 0, fe_pad_file = flags AND 1 \<noteq> 0,
      fe_hidden_attribute = flags AND 2 \<noteq> 0, fe_executable_attribute = flags AND 4 \<noteq> 0,
      fe_symlink_attribute = flags AND 8 \<noteq> 0, fe_symlink_path = (if flags AND 8 \<noteq> 0 then link else [])\<rparr>
    \<and> (\<forall>j < num_files fs. at_index fs' j = at_index fs j)"
proof -
  let ?n = "num_files fs"
  define fs1 where "fs1 = appended p sz flags mtime link fs"
  define e where "e = new_entry p sz flags fs"
  obtain fs2 where u: "update_path_index ?n fs1 = Some fs2" and fs': "fs' = fs2\<lparr>m_total_size := m_total_size fs2 + sz\<rparr>"
    using add_file_appended [OF assms(1) _ assms(4), of sz] assms(2,3,6) by (auto simp: fs1_def split: bind_splits)
  have table: "list_all (entry_inv fs) (m_files fs)" "length (m_mtime fs) \<le> ?n" "length (m_file_hashes fs) \<le> ?n" "m_file_base fs = []"
    using assms(1) by (auto simp: fs_inv_def table_inv_def)
  have p: "p \<noteq> []" "0 \<notin> set p"
    using assms(5) by (auto simp: plain_path_def)
  have e: "ife_name e = Some p" "ife_name_len e = 0"
    using p by (simp_all add: e_def new_entry_def ife_set_name_def allocate_string_copy_def)
  have n: "?n < num_files fs1" "m_files fs1 ! ?n = e"
    by (simp_all add: fs1_def appended_def num_files_def e_def)
  obtain ps x where path: "file_path fs2 ?n = Some p"
    and fs2: "fs2 = fs1\<lparr>m_paths := m_paths fs1 @ ps, m_files := (m_files fs1)[?n := x]\<rparr>"
    and x: "x\<lparr>ife_name := ife_name e, ife_path_index := ife_path_index e\<rparr> = e"
    using update_path_index_path [OF n(1) _ _ assms(5) u] e n(2) by auto
  have files: "m_files fs' = m_files fs @ [x]"
    by (simp add: fs' fs2 fs1_def appended_def num_files_def)
  have tables: "m_paths fs' = m_paths fs @ ps" "m_file_base fs' = []" "m_file_hashes fs' = m_file_hashes fs"
    "m_symlinks fs' = m_symlinks fs @ (if flags AND 8 \<noteq> 0 then [link] else [])"
    by (simp_all add: fs' fs2 fs1_def appended_def table(4))
  have mtime: "fs_mtime fs' j = (if j = ?n then mtime else fs_mtime fs j)" if "j \<le> ?n" for j
    using fs_mtime_set_last [of fs' ?n mtime fs j] table(2) that
    by (cases "mtime = 0") (simp_all add: fs' fs2 fs1_def appended_def fs_mtime_def)
  have "at_index fs' j = at_index fs j" if "j < ?n" for j
  proof (rule at_index_frame [OF that _ _ tables(1,4)])
    show "entry_inv fs (m_files fs ! j)"
      using table(1) that by (simp add: list_all_length num_files_def)
    show "fs_mtime fs' j = fs_mtime fs j" using mtime that by simp
  qed (use that files tables table(4) in \<open>simp_all add: num_files_def nth_append fs_hash_def\<close>)
  moreover have "at_index fs' ?n = Some \<lparr>fe_path = p, fe_offset = m_total_size fs, fe_size = sz,
      fe_file_base = 0, fe_mtime = mtime, fe_filehash = replicate 20 0, fe_pad_file = flags AND 1 \<noteq> 0,
      fe_hidden_attribute = flags AND 2 \<noteq> 0, fe_executable_attribute = flags AND 4 \<noteq> 0,
      fe_symlink_attribute = flags AND 8 \<noteq> 0, fe_symlink_path = (if flags AND 8 \<noteq> 0 then link else [])\<rparr>"
  proof -
    have "file_path fs' ?n = Some p"
      using path by (simp add: fs')
    moreover have "ife_offset x = m_total_size fs" "ife_size x = sz"
      "ife_symlink_index x = (if flags AND 8 \<noteq> 0 then int (length (m_symlinks fs)) else -1)"
      "ife_pad_file x = (flags AND 1 \<noteq> 0)" "ife_hidden_attribute x = (flags AND 2 \<noteq> 0)"
      "ife_executable_attribute x = (flags AND 4 \<noteq> 0)" "ife_symlink_attribute x = (flags AND 8 \<noteq> 0)"
      using arg_cong [OF x, of ife_offset] arg_cong [OF x, of ife_size] arg_cong [OF x, of ife_symlink_index]
        arg_cong [OF x, of ife_pad_file] arg_cong [OF x, of ife_hidden_attribute]
        arg_cong [OF x, of ife_executable_attribute] arg_cong [OF x, of ife_symlink_attribute]
      by (simp_all add: e_def) (simp_all add: new_entry_def)
    moreover have "m_files fs' ! ?n = x" "?n < num_files fs'"
      using files by (simp_all add: num_files_def)
    ultimately show ?thesis
      using tables table mtime [of ?n]
      by (simp add: at_index_def fs_symlink_def file_base_def fs_hash_def Let_def)
  qed
  ultimately show ?thesis by blast
qed

end
