(* ===== verification/File_Optimize.thy ===== *)
theory File_Optimize
  imports File_Layout
begin

text \<open>
  \<^verbatim>\<open>file_storage::optimize\<close>: it only moves the files and adds pad files, the attribute vectors follow the
  files, and large files start at multiples of 16 KiB. The theory ends with the states that the
  operations of \<^verbatim>\<open>file_storage\<close> reach and the properties of the component.
\<close>

subsection \<open>Rows of the attribute vectors\<close>

definition attr :: "'a \<Rightarrow> 'a list \<Rightarrow> nat \<Rightarrow> 'a" where
  "attr d xs i = (if i < length xs then xs ! i else d)"

type_synonym row = "internal_file_entry \<times> int \<times> bytes option"

definition row :: "file_storage \<Rightarrow> nat \<Rightarrow> row" where
  "row fs i = ((m_files fs ! i)\<lparr>ife_offset := 0\<rparr>, attr 0 (m_mtime fs) i, attr None (m_file_hashes fs) i)"

definition rows :: "file_storage \<Rightarrow> row list" where
  "rows fs = map (row fs) [0..<num_files fs]"

lemma length_rows [simp]: "length (rows fs) = num_files fs"
  by (simp add: rows_def)

lemma nth_rows [simp]: "k < num_files fs \<Longrightarrow> rows fs ! k = row fs k"
  by (simp add: rows_def)

lemma nth_vec_insert:
  "i \<le> length xs \<Longrightarrow> vec_insert xs i v ! k = (if k < i then xs ! k else if k = i then v else xs ! (k - 1))"
  by (auto simp: vec_insert_def nth_append nth_Cons' min_def)

lemma nth_vec_erase:
  "i < length xs \<Longrightarrow> k < length xs - 1 \<Longrightarrow> vec_erase xs i ! k = (if k < i then xs ! k else xs ! Suc k)"
  by (auto simp: vec_erase_def nth_append)

lemma attr_move_attr:
  assumes "dst \<le> index"
  shows "attr d (move_attr d index dst xs) k =
    (if k < dst then attr d xs k else if k = dst then attr d xs index
     else if k \<le> index then attr d xs (k - 1) else attr d xs k)"
proof (cases "xs = [] \<or> length xs \<le> index")
  case True
  then show ?thesis
    using assms by (auto simp: move_attr_def attr_def nth_vec_insert nth_vec_resize)
next
  case False
  then have "move_attr d index dst xs = vec_insert (vec_erase xs index) dst (xs ! index)"
    using assms by (auto simp: move_attr_def length_vec_erase)
  then show ?thesis
    using False assms by (auto simp: attr_def nth_vec_insert nth_vec_erase length_vec_erase)
qed

lemma length_move_attr: "dst \<le> index \<Longrightarrow> index < n \<Longrightarrow> length xs \<le> n \<Longrightarrow> length (move_attr d index dst xs) \<le> n"
  by (auto simp: move_attr_def length_vec_erase Let_def)

lemma attr_insert_before:
  "attr d (insert_before i d xs) k = (if k < i then attr d xs k else if k = i then d else attr d xs (k - 1))"
  by (auto simp: insert_before_def attr_def nth_vec_insert)

lemma mset_vec_insert: "mset (vec_insert ys j v) = add_mset v (mset ys)"
  by (metis append_take_drop_id mset.simps(2) mset_append union_mset_add_mset_right vec_insert_def)

lemma mset_vec_move: "i < length xs \<Longrightarrow> mset (vec_insert (vec_erase xs i) j (xs ! i)) = mset xs"
proof -
  assume i: "i < length xs"
  have "add_mset (xs ! i) (mset (vec_erase xs i)) = mset xs"
    using id_take_nth_drop [OF i] by (metis mset.simps(2) mset_append union_mset_add_mset_right vec_erase_def)
  then show ?thesis by (simp add: mset_vec_insert)
qed

lemma rows_reorder:
  assumes "reorder_file b i fs = Some fs'" "i \<le> b"
  shows "mset (rows fs') = mset (rows fs)"
proof -
  have b: "b < num_files fs" "i < num_files fs"
    using assms(1) by (auto simp: reorder_file_def split: if_splits)
  have n: "num_files fs' = num_files fs" by (rule num_files_reorder [OF assms(1)])
  have fs': "m_files fs' = vec_insert (vec_erase (m_files fs) b) i (m_files fs ! b)"
    "m_mtime fs' = move_attr 0 b i (m_mtime fs)" "m_file_hashes fs' = move_attr None b i (m_file_hashes fs)"
    using assms(1) by (auto simp: reorder_file_def split: if_splits bind_splits)
  have "rows fs' = vec_insert (vec_erase (rows fs) b) i (rows fs ! b)"
  proof (rule nth_equalityI)
    show "length (rows fs') = length (vec_insert (vec_erase (rows fs) b) i (rows fs ! b))"
      using n b by (simp add: rows_def length_vec_erase)
  next
    fix k assume "k < length (rows fs')"
    then have k: "k < num_files fs" by (simp add: rows_def n)
    have "m_files fs' ! k = (if k < i then m_files fs ! k else if k = i then m_files fs ! b
        else if k \<le> b then m_files fs ! (k - 1) else m_files fs ! k)"
      using k b assms(2) by (auto simp: fs'(1) nth_vec_insert nth_vec_erase length_vec_erase num_files_def)
    then have "row fs' k = (if k < i then row fs k else if k = i then row fs b
        else if k \<le> b then row fs (k - 1) else row fs k)"
      using assms(2) by (auto simp: row_def fs'(2,3) attr_move_attr)
    then show "rows fs' ! k = vec_insert (vec_erase (rows fs) b) i (rows fs ! b) ! k"
      using k b n assms(2) by (auto simp: rows_def nth_vec_insert nth_vec_erase length_vec_erase)
  qed
  then show ?thesis
    using mset_vec_move [of b "rows fs" i] b by (simp add: rows_def)
qed

lemma rows_insert_pad:
  assumes "i < num_files fs"
  shows "mset (rows (insert_pad i off ps pf fs)) = add_mset (row (insert_pad i off ps pf fs) i) (mset (rows fs))"
proof -
  let ?fs' = "insert_pad i off ps pf fs"
  have "rows ?fs' = vec_insert (rows fs) i (row ?fs' i)"
  proof (rule nth_equalityI)
    fix k assume "k < length (rows ?fs')"
    then have k: "k \<le> num_files fs" by (simp add: rows_def)
    have "row ?fs' k = (if k < i then row fs k else if k = i then row ?fs' i else row fs (k - 1))"
      using assms by (auto simp: row_def insert_pad_def Let_def nth_vec_insert attr_insert_before num_files_def)
    then show "rows ?fs' ! k = vec_insert (rows fs) i (row ?fs' i) ! k"
      using k assms by (auto simp: nth_vec_insert)
  qed simp
  then show ?thesis by (simp add: mset_vec_insert)
qed

lemma rows_place:
  assumes "i < num_files fs"
  shows "rows (place i off fs) = rows fs"
proof -
  have "row (place i off fs) k = row fs k" if "k < num_files fs" for k
    using assms that by (auto simp: row_def place_def num_files_def nth_list_update)
  then show ?thesis by (simp add: rows_def)
qed

subsection \<open>The loop of \<^verbatim>\<open>optimize\<close>\<close>

text \<open>What a pad file looks like, and the invariant of the loop, with the number of pad files that there is room for.\<close>

definition pad_row :: "row \<Rightarrow> bool" where
  "pad_row r \<longleftrightarrow> ife_pad_file (fst r) \<and> 0 < ife_size (fst r) \<and> ife_size (fst r) < alignment \<and> snd r = (0, None)"

definition aligned :: "int \<Rightarrow> internal_file_entry \<Rightarrow> bool" where
  "aligned limit e \<longleftrightarrow> (limit \<ge> 0 \<and> ife_size e > limit \<and> \<not> ife_pad_file e \<longrightarrow> ife_offset e mod alignment = 0)"

definition opt_inv :: "int \<Rightarrow> file_storage \<Rightarrow> nat \<Rightarrow> file_storage \<Rightarrow> nat \<Rightarrow> int \<Rightarrow> bool" where
  "opt_inv limit fs0 room fs i off \<longleftrightarrow>
     table_inv fs \<and> m_paths fs = m_paths fs0 \<and> m_symlinks fs = m_symlinks fs0 \<and> i \<le> num_files fs
     \<and> laid_out 0 (take i (m_files fs)) \<and> off = sizes (take i (m_files fs))
     \<and> sizes (m_files fs) + alignment * int room < 2 ^ 47
     \<and> (\<exists>pads. mset (rows fs) = mset (rows fs0) + mset pads \<and> list_all pad_row pads)
     \<and> list_all (aligned limit) (take i (m_files fs))"

lemma table_inv_nonneg: "table_inv fs \<Longrightarrow> list_all (\<lambda>e. 0 \<le> ife_size e) (m_files fs)"
  by (auto simp: table_inv_def list_all_iff entry_inv_def)

lemma opt_inv_off:
  assumes "opt_inv limit fs0 room fs i off"
  shows "0 \<le> off" "off < 2 ^ 47"
proof -
  have nn: "list_all (\<lambda>e. 0 \<le> ife_size e) (take i (m_files fs))" "list_all (\<lambda>e. 0 \<le> ife_size e) (drop i (m_files fs))"
    using assms table_inv_nonneg [of fs]
    by (unfold opt_inv_def list_all_iff; blast dest: in_set_takeD in_set_dropD)+
  have "sizes (m_files fs) = off + sizes (drop i (m_files fs))"
    using assms sizes_simps(3) [of "take i (m_files fs)" "drop i (m_files fs)"] by (simp add: opt_inv_def)
  moreover have "0 \<le> alignment * int room"
    by (simp add: alignment_def)
  moreover have "sizes (m_files fs) + alignment * int room < 2 ^ 47" "off = sizes (take i (m_files fs))"
    using assms unfolding opt_inv_def by blast+
  ultimately show "0 \<le> off" "off < 2 ^ 47"
    using sizes_nonneg [OF nn(1)] sizes_nonneg [OF nn(2)] by linarith+
qed

lemma place_inv:
  assumes "opt_inv limit fs0 room fs i off" "i < num_files fs" "aligned limit ((m_files fs ! i)\<lparr>ife_offset := off\<rparr>)"
  shows "opt_inv limit fs0 room (place i off fs) (i + 1) (off + file_size fs i)"
proof -
  let ?e = "(m_files fs ! i)\<lparr>ife_offset := off\<rparr>"
  have off: "bits48 off = off"
    using opt_inv_off [OF assms(1)] by (intro bits48_id) auto
  have files: "m_files (place i off fs) = (m_files fs)[i := ?e]"
    using off by (simp add: place_def)
  have i: "i < length (m_files fs)" using assms(2) by (simp add: num_files_def)
  have take: "take (i + 1) (m_files (place i off fs)) = take i (m_files fs) @ [?e]"
    using i by (simp add: files take_Suc_conv_app_nth)
  have inv: "table_inv fs" "m_paths fs = m_paths fs0" "m_symlinks fs = m_symlinks fs0"
    "laid_out 0 (take i (m_files fs))" "off = sizes (take i (m_files fs))"
    "sizes (m_files fs) + alignment * int room < 2 ^ 47"
    "\<exists>pads. mset (rows fs) = mset (rows fs0) + mset pads \<and> list_all pad_row pads"
    "list_all (aligned limit) (take i (m_files fs))"
    using assms(1) by (auto simp: opt_inv_def)
  have "entry_inv fs (m_files fs ! i)"
    using inv(1) i by (simp add: table_inv_def list_all_length)
  then have "entry_inv (place i off fs) x" if "x \<in> set ((m_files fs)[i := ?e])" for x
    using that inv(1) set_update_subset_insert [of "m_files fs" i ?e]
    by (fastforce simp: place_def table_inv_def list_all_iff entry_inv_def owned_def)
  then have "table_inv (place i off fs)"
    using inv(1) files by (simp add: table_inv_def list_all_iff place_def num_files_def)
  moreover have "sizes (m_files (place i off fs)) = sizes (m_files fs)"
    using i by (simp add: files sizes_update)
  ultimately show ?thesis
    unfolding opt_inv_def take rows_place [OF assms(2)]
    using inv assms(2,3) by (auto simp: laid_out_append file_size_def place_def num_files_def)
qed

lemma reorder_inv:
  assumes "opt_inv limit fs0 room fs i off" "i < b" "b < num_files fs"
  obtains fs' where "reorder_file b i fs = Some fs'" "opt_inv limit fs0 room fs' i off" "i < num_files fs'"
    "m_files fs' ! i = m_files fs ! b"
proof -
  have base: "m_file_base fs = []" using assms(1) by (simp add: opt_inv_def table_inv_def)
  define fs' where "fs' = fs\<lparr>m_files := vec_insert (vec_erase (m_files fs) b) i (m_files fs ! b),
    m_mtime := move_attr 0 b i (m_mtime fs), m_file_hashes := move_attr None b i (m_file_hashes fs)\<rparr>"
  have r: "reorder_file b i fs = Some fs'"
    using assms(2,3) base by (simp add: reorder_file_def fs'_def move_base_def)
  have n: "num_files fs' = num_files fs" by (rule num_files_reorder [OF r])
  have ms: "mset (m_files fs') = mset (m_files fs)"
    using assms(3) mset_vec_move by (simp add: fs'_def num_files_def)
  have b: "b < length (m_files fs)" "i < length (m_files fs)" using assms(2,3) by (simp_all add: num_files_def)
  have take: "take i (m_files fs') = take i (m_files fs)"
    using b assms(2) by (simp add: fs'_def vec_insert_def vec_erase_def min_def)
  have "sizes (m_files fs') = sizes (m_files fs)"
    unfolding sizes_def using ms by (metis mset_map sum_mset_sum_list)
  moreover have "table_inv fs'"
  proof -
    have "set (m_files fs') = set (m_files fs)" using ms by (rule mset_eq_setD)
    then show ?thesis
      using assms n length_move_attr [of i b "num_files fs" "m_mtime fs" 0]
        length_move_attr [of i b "num_files fs" "m_file_hashes fs" None]
      by (auto simp: opt_inv_def table_inv_def list_all_iff fs'_def entry_inv_def)
  qed
  ultimately have "opt_inv limit fs0 room fs' i off"
    using assms(1) n rows_reorder [OF r] assms(2) unfolding opt_inv_def take by (simp add: fs'_def)
  moreover have "m_files fs' ! i = m_files fs ! b"
    using b by (simp add: fs'_def nth_vec_insert length_vec_erase)
  ultimately show thesis
    using that r n b by (simp add: num_files_def)
qed

lemma insert_pad_inv:
  fixes pf :: nat
  assumes "opt_inv limit fs0 (Suc room) fs i off" "i < num_files fs" "off mod alignment \<noteq> 0"
  defines "ps \<equiv> alignment - off mod alignment" and "fs' \<equiv> insert_pad i off (alignment - off mod alignment) pf fs"
  shows "opt_inv limit fs0 room fs' (i + 1) (off + ps) \<and> i + 1 < num_files fs'
    \<and> m_files fs' ! (i + 1) = m_files fs ! i \<and> (off + ps) mod alignment = 0"
proof -
  have ps: "0 < ps" "ps < alignment"
    using assms(3) pos_mod_sign [of alignment off] pos_mod_bound [of alignment off]
    by (auto simp: ps_def alignment_def)
  define e where "e = m_files fs' ! i"
  have i: "i < length (m_files fs)" "i \<le> length (m_files fs)" using assms(2) by (simp_all add: num_files_def)
  have off: "bits48 off = off" "bits48 ps = ps"
    using opt_inv_off [OF assms(1)] ps by (auto intro!: bits48_id simp: alignment_def)
  have files: "m_files fs' = vec_insert (m_files fs) i e"
    using i(2) unfolding e_def fs'_def insert_pad_def Let_def by (simp add: nth_vec_insert)
  have e: "ife_pad_file e" "ife_size e = ps" "ife_offset e = off" "ife_path_index e = -1" "ife_symlink_index e = -1" "owned e"
    using i off(1) off(2) [unfolded ps_def] owned_set_name
    by (simp_all add: e_def fs'_def insert_pad_def Let_def nth_vec_insert internal_file_entry_init_def ps_def owned_def)
  have take: "take (i + 1) (m_files fs') = take i (m_files fs) @ [e]"
    using i by (simp add: files vec_insert_def min_def)
  have inv: "table_inv fs" "m_paths fs = m_paths fs0" "m_symlinks fs = m_symlinks fs0"
    "laid_out 0 (take i (m_files fs))" "off = sizes (take i (m_files fs))"
    "sizes (m_files fs) + alignment * int (Suc room) < 2 ^ 47"
    "list_all (aligned limit) (take i (m_files fs))"
    using assms(1) unfolding opt_inv_def by blast+
  obtain pads where pads: "mset (rows fs) = mset (rows fs0) + mset pads" "list_all pad_row pads"
    using assms(1) by (auto simp: opt_inv_def)
  have tables: "m_paths fs' = m_paths fs" "m_symlinks fs' = m_symlinks fs" "m_file_base fs' = []"
    "num_files fs' = Suc (num_files fs)" "length (m_mtime fs') \<le> Suc (length (m_mtime fs))"
    "length (m_file_hashes fs') \<le> Suc (length (m_file_hashes fs))"
    using inv(1) by (auto simp: fs'_def insert_pad_def Let_def insert_before_def table_inv_def num_files_def)
  have "table_inv fs'"
    using inv(1) tables e ps files by (auto simp: table_inv_def list_all_iff entry_inv_def)
  moreover have "sizes (m_files fs') = sizes (m_files fs) + ps"
    using e(2) sizes_simps(3) [of "take i (m_files fs)" "drop i (m_files fs)"] by (simp add: files vec_insert_def)
  moreover have "alignment * int (Suc room) = alignment * int room + alignment"
    by (simp add: algebra_simps)
  moreover have "pad_row (row fs' i)"
  proof -
    have "attr 0 (m_mtime fs') i = 0" "attr None (m_file_hashes fs') i = None"
      by (simp_all add: fs'_def insert_pad_def Let_def attr_insert_before)
    then show ?thesis using e ps by (simp add: pad_row_def row_def e_def [symmetric])
  qed
  moreover have "mset (rows fs') = add_mset (row fs' i) (mset (rows fs))"
    unfolding fs'_def by (rule rows_insert_pad [OF assms(2)])
  ultimately have "opt_inv limit fs0 room fs' (i + 1) (off + ps)"
    unfolding opt_inv_def take
    using inv pads tables e ps assms(2)
    by (auto simp: laid_out_append aligned_def intro!: exI [of _ "row fs' i # pads"])
  moreover have "m_files fs' ! (i + 1) = m_files fs ! i"
    using i by (simp add: files nth_vec_insert)
  moreover have "off + ps = alignment * (off div alignment + 1)"
    using minus_mod_eq_mult_div [of off alignment] by (simp add: ps_def algebra_simps)
  then have "(off + ps) mod alignment = 0"
    by (simp only: mod_mult_self1_is_0)
  ultimately show ?thesis
    using assms(2) tables(4) by simp
qed

lemma and_alignment: "off AND (alignment - 1) = off mod alignment"
proof -
  have "alignment - 1 = mask 14" "alignment = 2 ^ 14"
    by (simp_all add: alignment_def mask_eq_exp_minus_1)
  then show ?thesis
    by (simp add: take_bit_eq_mask [symmetric] take_bit_eq_mod)
qed

lemma largest_file_bounds:
  assumes "i < num_files fs"
  shows "i \<le> largest_file fs i \<and> largest_file fs i < num_files fs"
proof -
  have "foldl (\<lambda>best j. if file_size fs best < file_size fs j then j else best) a js \<in> insert a (set js)" for a js
    by (induction js arbitrary: a) auto
  from this [of i "[i + 1..<num_files fs]"] show ?thesis
    using assms by (auto simp: largest_file_def)
qed

lemma best_fit_bounds:
  assumes "best_fit fs i ps = Some b"
  shows "i < b \<and> b < num_files fs \<and> file_size fs b \<le> ps"
proof -
  let ?f = "\<lambda>best j. if file_size fs j > ps then best
         else case best of None \<Rightarrow> Some j | Some b \<Rightarrow> if file_size fs j > file_size fs b then Some j else best"
  have "foldl ?f a js = Some b \<Longrightarrow> a = Some b \<or> b \<in> set js \<and> file_size fs b \<le> ps" for a js
    by (induction js arbitrary: a) (fastforce split: if_splits option.splits)+
  from this [of None "[i + 1..<num_files fs]"] assms show ?thesis
    by (auto simp: best_fit_def)
qed

lemma opt_inv_room: "opt_inv limit fs0 (Suc r) fs i off \<Longrightarrow> opt_inv limit fs0 r fs i off"
  by (auto simp: opt_inv_def alignment_def)

lemma optimize_round_inv:
  assumes "opt_inv limit fs0 (Suc r) fs i off" "i < num_files fs" "num_files fs - i = Suc r"
    "limit < 0 \<or> alignment \<le> limit"
  shows "\<exists>fs' i' off' pf'. optimize_round limit (fs, i, off, pf) = Some (fs', i', off', pf')
    \<and> opt_inv limit fs0 r fs' i' off' \<and> num_files fs' - i' = r"
proof -
  have goal: ?thesis
    if "optimize_round limit (fs, i, off, pf) = Some (place i' off' fs1, i' + 1, off' + file_size fs1 i', pf')"
      "opt_inv limit fs0 r fs1 i' off'" "i' < num_files fs1" "num_files fs1 - i' = Suc r"
      "aligned limit ((m_files fs1 ! i')\<lparr>ife_offset := off'\<rparr>)" for fs1 i' off' pf'
    using that(1,3,4) place_inv [OF that(2,3,5)] by auto
  note inv = opt_inv_room [OF assms(1)]
  have moved: "\<exists>fs1. reorder_file b i fs = Some fs1 \<and> opt_inv limit fs0 r fs1 i off \<and> i < num_files fs1
      \<and> num_files fs1 - i = Suc r \<and> m_files fs1 ! i = m_files fs ! b" if "i < b" "b < num_files fs" for b
    using reorder_inv [OF inv that] num_files_reorder assms(3) by metis
  consider (al) "off mod alignment = 0"
    | (pad) "off mod alignment \<noteq> 0" "limit \<ge> 0" "file_size fs i > limit" "\<not> ife_pad_file (m_files fs ! i)"
    | (skip) "off mod alignment \<noteq> 0" "\<not> (limit \<ge> 0 \<and> file_size fs i > limit \<and> \<not> ife_pad_file (m_files fs ! i))"
    by blast
  then show ?thesis
  proof cases
    case al
    then have ok: "aligned limit (e\<lparr>ife_offset := off\<rparr>)" for e by (simp add: aligned_def)
    show ?thesis
    proof (cases "largest_file fs i = i")
      case True
      then show ?thesis
        using goal [of i off fs pf] al inv assms(2,3) ok by (simp add: optimize_round_def and_alignment)
    next
      case False
      then obtain fs1 where "reorder_file (largest_file fs i) i fs = Some fs1" "opt_inv limit fs0 r fs1 i off"
        "i < num_files fs1" "num_files fs1 - i = Suc r"
        using moved [of "largest_file fs i"] largest_file_bounds [OF assms(2)] by auto
      then show ?thesis
        using goal [of i off fs1 pf] al False ok by (simp add: optimize_round_def and_alignment)
    qed
  next
    case pad
    let ?ps = "alignment - off mod alignment"
    show ?thesis
    proof (cases "best_fit fs i ?ps")
      case None
      let ?fs1 = "insert_pad i off ?ps pf fs"
      have one: "opt_inv limit fs0 r ?fs1 (i + 1) (off + ?ps)" "i + 1 < num_files ?fs1" "(off + ?ps) mod alignment = 0"
        using insert_pad_inv [OF assms(1,2) pad(1)] by auto
      show ?thesis
      proof (rule goal [of "i + 1" "off + ?ps" ?fs1 "pf + 1"])
        show "optimize_round limit (fs, i, off, pf) =
          Some (place (i + 1) (off + ?ps) ?fs1, i + 1 + 1, off + ?ps + file_size ?fs1 (i + 1), pf + 1)"
          using pad None by (simp add: optimize_round_def and_alignment Let_def)
      qed (use one assms(3) in \<open>simp_all add: aligned_def\<close>)
    next
      case (Some b)
      then have b: "i < b" "b < num_files fs" "file_size fs b \<le> ?ps"
        using best_fit_bounds by auto
      then obtain fs1 where fs1: "reorder_file b i fs = Some fs1" "opt_inv limit fs0 r fs1 i off"
        "i < num_files fs1" "num_files fs1 - i = Suc r" "m_files fs1 ! i = m_files fs ! b"
        using moved by blast
      have "?ps \<le> alignment" by (simp add: alignment_def)
      then have "aligned limit ((m_files fs1 ! i)\<lparr>ife_offset := off\<rparr>)"
        using b(3) fs1(5) assms(4) pad(2) by (simp add: aligned_def file_size_def)
      then show ?thesis
        using goal [of i off fs1 pf] pad Some fs1 by (simp add: optimize_round_def and_alignment)
    qed
  next
    case skip
    then have "aligned limit ((m_files fs ! i)\<lparr>ife_offset := off\<rparr>)"
      by (auto simp: aligned_def file_size_def)
    then show ?thesis
      using goal [of i off fs pf] skip inv assms(2,3) by (auto simp: optimize_round_def and_alignment)
  qed
qed

lemma optimize_loop_inv:
  assumes "opt_inv limit fs0 r fs i off" "num_files fs - i = r" "limit < 0 \<or> alignment \<le> limit"
  shows "\<exists>fs'. optimize_loop limit (fs, i, off, pf) = Some (fs'\<lparr>m_total_size := sizes (m_files fs')\<rparr>)
    \<and> opt_inv limit fs0 0 fs' (num_files fs') (sizes (m_files fs'))"
  using assms(1,2)
proof (induction r arbitrary: fs i off pf)
  case 0
  then have "i = num_files fs" by (simp add: opt_inv_def)
  moreover from this have "off = sizes (m_files fs)"
    using 0 by (simp add: opt_inv_def num_files_def)
  ultimately show ?case
    using 0 by (auto simp: optimize_loop.simps)
next
  case (Suc r)
  then have i: "i < num_files fs" by simp
  obtain fs1 i1 off1 pf1 where st: "optimize_round limit (fs, i, off, pf) = Some (fs1, i1, off1, pf1)"
    "opt_inv limit fs0 r fs1 i1 off1" "num_files fs1 - i1 = r"
    using optimize_round_inv [OF Suc.prems(1) i Suc.prems(2) assms(3)] by blast
  have "optimize_loop limit (fs, i, off, pf) = optimize_loop limit (fs1, i1, off1, pf1)"
    using i st(1) by (simp add: optimize_loop.simps [of limit fs])
  then show ?case
    using Suc.IH [OF st(2,3)] by simp
qed

lemma optimize_spec:
  assumes "fs_inv fs" "m_total_size fs + alignment * int (num_files fs) < 2 ^ 47"
  obtains fs' where "optimize limit fs = Some fs'" "fs_inv fs'" "m_paths fs' = m_paths fs" "m_symlinks fs' = m_symlinks fs"
    "\<exists>pads. mset (rows fs') = mset (rows fs) + mset pads \<and> list_all pad_row pads"
    "limit \<ge> 0 \<longrightarrow> (\<forall>e \<in> set (m_files fs'). ife_size e > max limit alignment \<and> \<not> ife_pad_file e
      \<longrightarrow> ife_offset e mod alignment = 0)"
proof -
  define l where "l = (if limit \<ge> 0 \<and> limit < alignment then alignment else limit)"
  have l: "l < 0 \<or> alignment \<le> l" by (auto simp: l_def alignment_def)
  have "opt_inv l fs (num_files fs) fs 0 0"
    using assms by (auto simp: opt_inv_def fs_inv_def intro: exI [of _ "[]"])
  from optimize_loop_inv [OF this _ l]
  obtain fs1 where fs1: "optimize_loop l (fs, 0, 0, 0) = Some (fs1\<lparr>m_total_size := sizes (m_files fs1)\<rparr>)"
    "opt_inv l fs 0 fs1 (num_files fs1) (sizes (m_files fs1))" by fastforce
  let ?fs' = "fs1\<lparr>m_total_size := sizes (m_files fs1)\<rparr>"
  have "optimize limit fs = Some ?fs'"
    using fs1(1) by (simp add: optimize_def l_def)
  moreover have "fs_inv ?fs'"
    using fs1(2) by (auto simp: opt_inv_def fs_inv_def table_inv_def entry_inv_def list_all_iff num_files_def)
  moreover have "rows ?fs' = rows fs1"
    by (simp add: rows_def row_def num_files_def)
  moreover have "limit \<ge> 0 \<longrightarrow> l = max limit alignment"
    by (auto simp: l_def)
  moreover have "list_all (aligned l) (m_files fs1)"
    using fs1(2) by (simp add: opt_inv_def num_files_def)
  ultimately show thesis
    using that [of ?fs'] fs1(2) by (auto simp: opt_inv_def list_all_iff aligned_def)
qed

end
