(* ===== verification/File_Claims.thy ===== *)
theory File_Claims
  imports File_Optimize "HOL-Library.Code_Target_Numeral"
begin

text \<open>
  The states that the operations of \<^verbatim>\<open>file_storage\<close> reach, and the properties of the component: the
  layout of the files, the translation between pieces and files, the lookup of files and their paths,
  and the effect of \<^verbatim>\<open>optimize\<close>.
\<close>

subsection \<open>Reachable states\<close>

text \<open>
  The bit fields bound what may be added: a total size below \<open>2 ^ 47\<close> and fewer than \<open>2 ^ 15\<close> symbolic
  links.
\<close>

inductive fs_reachable :: "file_storage \<Rightarrow> bool" where
  init: "fs_reachable file_storage_init"
| add: "fs_reachable fs \<Longrightarrow> m_total_size fs + max sz 0 < 2 ^ 47 \<Longrightarrow> length (m_symlinks fs) < 2 ^ 15 - 1 \<Longrightarrow>
    add_file p sz flags mtime link fs = Some fs' \<Longrightarrow> fs_reachable fs'"
| add_entry: "fs_reachable fs \<Longrightarrow> - (2 ^ 47) \<le> fe_size ent \<Longrightarrow> fe_size ent < 2 ^ 47 \<Longrightarrow>
    m_total_size fs + max (fe_size ent) 0 < 2 ^ 47 \<Longrightarrow> length (m_symlinks fs) < 2 ^ 15 - 1 \<Longrightarrow>
    add_file_entry ent filehash fs = Some fs' \<Longrightarrow> fs_reachable fs'"
| rename: "fs_reachable fs \<Longrightarrow> rename_file i p fs = Some fs' \<Longrightarrow> fs_reachable fs'"
| base: "fs_reachable fs \<Longrightarrow> i < num_files fs \<Longrightarrow> set_file_base i off fs = Some fs' \<Longrightarrow> fs_reachable fs'"
| optimize: "fs_reachable fs \<Longrightarrow> m_total_size fs + alignment * int (num_files fs) < 2 ^ 47 \<Longrightarrow>
    optimize limit fs = Some fs' \<Longrightarrow> fs_reachable fs'"
| pieces: "fs_reachable fs \<Longrightarrow> fs_reachable (set_num_pieces n fs)"
| piece_length: "fs_reachable fs \<Longrightarrow> fs_reachable (set_piece_length l fs)"
| name: "fs_reachable fs \<Longrightarrow> fs_reachable (fs_set_name nm fs)"

lemma set_file_base_fails:
  assumes "fs_inv fs" "i < num_files fs"
  shows "set_file_base i off fs = None"
  using assms by (simp add: set_file_base_def fs_inv_def table_inv_def)

lemma add_file_entry_base:
  assumes "fs_inv fs" "fe_file_base ent \<noteq> 0"
  shows "add_file_entry ent filehash fs = None"
  using assms by (auto simp: add_file_entry_def Let_def set_file_base_def fs_inv_def table_inv_def split: prod.splits)

lemma fs_inv_frame:
  "fs_inv (set_num_pieces n fs) = fs_inv fs" "fs_inv (set_piece_length l fs) = fs_inv fs" "fs_inv (fs_set_name nm fs) = fs_inv fs"
  by (simp_all add: fs_inv_def table_inv_def entry_inv_def num_files_def list_all_iff
      set_num_pieces_def set_piece_length_def fs_set_name_def)

lemma fs_reachable_inv: "fs_reachable fs \<Longrightarrow> fs_inv fs"
proof (induction rule: fs_reachable.induct)
  case init
  then show ?case by (simp add: file_storage_init_def fs_inv_def table_inv_def)
next
  case (add fs sz p flags mtime link fs')
  then show ?case using add_file_inv [OF add.IH add.hyps(2,3)] by (metis option.inject)
next
  case (add_entry fs ent filehash fs')
  then show ?case
    using add_file_entry_inv [OF add_entry.IH add_entry.hyps(3,2,4,5)] add_file_entry_base [OF add_entry.IH]
    by (metis option.distinct(1) option.inject)
next
  case (rename fs i p fs')
  then have "i < num_files fs" by (auto simp: rename_file_def split: if_splits)
  then show ?case using rename_file_inv [OF rename.IH] rename.hyps(2) by (metis option.inject)
next
  case (base fs i off fs')
  then show ?case using set_file_base_fails by simp
next
  case (optimize fs limit fs')
  then show ?case using optimize_spec [OF optimize.IH optimize.hyps(2)] by (metis option.inject)
qed (simp_all add: fs_inv_frame)

lemma at_index_total:
  assumes "fs_inv fs" "i < num_files fs"
  shows "\<exists>e. at_index fs i = Some e \<and> fe_offset e = ife_offset (m_files fs ! i) \<and> fe_size e = ife_size (m_files fs ! i)
    \<and> fe_pad_file e = ife_pad_file (m_files fs ! i)"
proof -
  have "entry_inv fs (m_files fs ! i)"
    using assms by (simp add: fs_inv_def table_inv_def list_all_length num_files_def)
  then show ?thesis
    using assms(2)
    by (auto simp: at_index_def file_path_def fs_symlink_def entry_inv_def ife_filename_owned Let_def)
qed

subsection \<open>Files as they are shown\<close>

text \<open>What \<^verbatim>\<open>at\<close> returns for a file, its offset apart, is a function of its row.\<close>

definition shown :: "file_storage \<Rightarrow> nat \<Rightarrow> file_entry option" where
  "shown fs i = map_option (\<lambda>e. e\<lparr>fe_offset := 0\<rparr>) (at_index fs i)"

definition view :: "bytes list \<Rightarrow> bytes list \<Rightarrow> row \<Rightarrow> file_entry option" where
  "view paths links = (\<lambda>(e, t, h). shown (file_storage_init\<lparr>m_files := [e], m_mtime := [t], m_file_hashes := [h],
     m_paths := paths, m_symlinks := links\<rparr>) 0)"

lemma ife_filename_offset [simp]: "ife_filename (e\<lparr>ife_offset := off\<rparr>) = ife_filename e"
  by (simp add: ife_filename_def)

lemma shown_view:
  assumes "m_file_base fs = []" "i < num_files fs"
  shows "shown fs i = view (m_paths fs) (m_symlinks fs) (row fs i)"
proof -
  let ?e = "m_files fs ! i"
  let ?v = "file_storage_init\<lparr>m_files := [?e\<lparr>ife_offset := 0\<rparr>], m_mtime := [attr 0 (m_mtime fs) i],
    m_file_hashes := [attr None (m_file_hashes fs) i], m_paths := m_paths fs, m_symlinks := m_symlinks fs\<rparr>"
  have "file_path ?v 0 = file_path fs i"
    by (cases "ife_filename ?e") (simp_all add: file_path_def Let_def)
  moreover have "fs_symlink ?v 0 = fs_symlink fs i"
    by (simp add: fs_symlink_def Let_def)
  moreover have "fs_mtime ?v 0 = fs_mtime fs i" "fs_hash ?v 0 = fs_hash fs i" "file_base ?v 0 = file_base fs i"
    using assms(1) by (simp_all add: fs_mtime_def fs_hash_def attr_def sha1_hash_def file_base_def file_storage_init_def)
  moreover have "num_files ?v = 1" "m_files ?v ! 0 = ?e\<lparr>ife_offset := 0\<rparr>"
    by (simp_all add: num_files_def)
  ultimately have "shown ?v 0 = shown fs i"
    using assms(2)
    by (cases "file_path fs i"; cases "fs_symlink fs i") (auto simp: shown_def at_index_def Let_def)
  then show ?thesis
    by (simp add: view_def row_def)
qed

lemma shown_rows:
  assumes "m_file_base fs = []"
  shows "mset (map (shown fs) [0..<num_files fs]) = image_mset (view (m_paths fs) (m_symlinks fs)) (mset (rows fs))"
proof -
  have "map (shown fs) [0..<num_files fs] = map (view (m_paths fs) (m_symlinks fs)) (rows fs)"
    using shown_view [OF assms] by (simp add: rows_def)
  then show ?thesis by (simp only: mset_map)
qed

subsection \<open>Properties\<close>

text \<open>C28: in every state of a \<^verbatim>\<open>file_storage\<close> the files lie one after the other from offset 0 to the total size, all
  indices into the tables of paths and links are valid, every file can be looked up, and adding a
  file or optimizing the order returns as long as the total size fits in 47 bits. The table of file
  bases stays empty: \<^verbatim>\<open>set_file_base\<close> always writes behind the end of its vector.\<close>
theorem file_storage_invariant:
  assumes "fs_reachable fs"
  shows "fs_inv fs \<and> (\<forall>i < num_files fs. at_index fs i \<noteq> None \<and> set_file_base i off fs = None)
    \<and> (m_total_size fs + max sz 0 < 2 ^ 47 \<and> length (m_symlinks fs) < 2 ^ 15 - 1
        \<longrightarrow> add_file p sz flags mtime link fs \<noteq> None)
    \<and> (m_total_size fs + alignment * int (num_files fs) < 2 ^ 47 \<longrightarrow> optimize limit fs \<noteq> None)"
proof -
  note inv = fs_reachable_inv [OF assms]
  have "add_file p sz flags mtime link fs \<noteq> None"
    if "m_total_size fs + max sz 0 < 2 ^ 47 \<and> length (m_symlinks fs) < 2 ^ 15 - 1"
    using add_file_inv [OF inv, of sz] that by (metis option.distinct(1))
  moreover have "optimize limit fs \<noteq> None" if "m_total_size fs + alignment * int (num_files fs) < 2 ^ 47"
    using optimize_spec [OF inv that] by (metis option.distinct(1))
  ultimately show ?thesis
    using inv at_index_total [OF inv] set_file_base_fails [OF inv] by fastforce
qed

text \<open>Storages for the witnesses: one file, and a second, larger one, with pieces of 16 bytes.\<close>

definition example1 :: file_storage where
  "example1 = the (add_file (str ''t/a'') 10 0 7 [] file_storage_init)"

definition example2 :: file_storage where
  "example2 = set_num_pieces 2501 (set_piece_length 16 (the (add_file (str ''t/b'') 40000 4 0 [] example1)))"

lemma the_Some: "x \<noteq> None \<Longrightarrow> x = Some (the x)"
  by simp

lemma example1_reachable: "fs_reachable example1"
proof (rule fs_reachable.add [OF fs_reachable.init])
  have "add_file (str ''t/a'') 10 0 7 [] file_storage_init \<noteq> None" by code_simp
  from the_Some [OF this] show "add_file (str ''t/a'') 10 0 7 [] file_storage_init = Some example1"
    by (simp only: example1_def)
qed (simp_all add: file_storage_init_def)

lemma example2_reachable: "fs_reachable example2"
  unfolding example2_def
proof (intro fs_reachable.pieces fs_reachable.piece_length, rule fs_reachable.add [OF example1_reachable])
  have "add_file (str ''t/b'') 40000 4 0 [] example1 \<noteq> None" by code_simp
  from the_Some [OF this] show "add_file (str ''t/b'') 40000 4 0 [] example1 = Some (the (add_file (str ''t/b'') 40000 4 0 [] example1))" .
  have "m_total_size example1 = 10" by code_simp
  then show "m_total_size example1 + max 40000 0 < 2 ^ 47" by simp
  have "m_symlinks example1 = []" by code_simp
  then show "length (m_symlinks example1) < 2 ^ 15 - 1" by simp
qed

theorem file_storage_invariant_witness:
  "fs_reachable example2 \<and> fs_inv example2 \<and> num_files example2 = 2 \<and> m_total_size example2 = 40010
    \<and> set_file_base 1 5 example2 = None"
proof -
  have n: "num_files example2 = 2" "m_total_size example2 = 40010" by code_simp+
  have "fs_inv example2 \<and> (\<forall>i < num_files example2. at_index example2 i \<noteq> None \<and> set_file_base i 5 example2 = None)"
    using file_storage_invariant [OF example2_reachable] by blast
  then show ?thesis using n example2_reachable by simp
qed

text \<open>C29: \<^verbatim>\<open>map_block\<close> of a block inside the torrent returns slices of the files, in order and none of them empty,
  that lie inside their files and hold together exactly the bytes of the block, for any contents of
  the files.\<close>
theorem map_block_bytes:
  assumes "fs_reachable fs" "off = piece * m_piece_length fs + offset" "0 \<le> off" "0 \<le> sz" "off + sz \<le> total_size fs"
    "map (\<lambda>d. int (length d)) data = map ife_size (m_files fs)"
  shows "\<exists>slices. map_block fs piece offset sz = Some slices
    \<and> concat (map (slice_bytes data) slices) = take (nat sz) (drop (nat off) (concat data))
    \<and> list_all (slice_ok fs) slices \<and> sorted_wrt (<) (map fsl_file_index slices)"
  using map_block_spec [OF fs_reachable_inv [OF assms(1)] assms(3,4) _ assms(2,6)] assms(5)
  by (auto simp: total_size_def)

theorem map_block_bytes_witness:
  "\<exists>slices. map_block example2 0 3 20 = Some slices \<and> list_all (slice_ok example2) slices
    \<and> concat (map (slice_bytes [replicate 10 False, replicate 40000 True]) slices) = replicate 7 False @ replicate 13 True"
proof -
  let ?d = "[replicate 10 False, replicate 40000 True]"
  have "m_piece_length example2 = 16" "total_size example2 = 40010" "map ife_size (m_files example2) = [10, 40000]"
    by code_simp+
  then obtain slices where "map_block example2 0 3 20 = Some slices" "list_all (slice_ok example2) slices"
    "concat (map (slice_bytes ?d) slices) = take (nat 20) (drop (nat 3) (concat ?d))"
    using map_block_bytes [OF example2_reachable, of 3 0 3 20 ?d] by auto
  then show ?thesis by auto
qed



text \<open>C31: a file that was added is found again with all its attributes, behind the files that were there, and the
  other files are found unchanged; this holds for the paths without null characters and backslashes
  that do not end in a separator or in the element \<^verbatim>\<open>.\<close>.\<close>
theorem add_file_lookup:
  assumes "fs_reachable fs" "0 \<le> sz" "m_total_size fs + sz < 2 ^ 47" "length (m_symlinks fs) < 2 ^ 15 - 1" "plain_path p"
  shows "\<exists>fs'. add_file p sz flags mtime link fs = Some fs'
    \<and> at_index fs' (num_files fs) = Some \<lparr>fe_path = p, fe_offset = m_total_size fs, fe_size = sz,
      fe_file_base = 0, fe_mtime = mtime, fe_filehash = replicate 20 0, fe_pad_file = flags AND 1 \<noteq> 0,
      fe_hidden_attribute = flags AND 2 \<noteq> 0, fe_executable_attribute = flags AND 4 \<noteq> 0,
      fe_symlink_attribute = flags AND 8 \<noteq> 0, fe_symlink_path = (if flags AND 8 \<noteq> 0 then link else [])\<rparr>
    \<and> (\<forall>j < num_files fs. at_index fs' j = at_index fs j)"
proof -
  note inv = fs_reachable_inv [OF assms(1)]
  obtain fs' where "add_file p sz flags mtime link fs = Some fs'"
    using add_file_inv [OF inv, of sz p flags mtime link] assms(2-4) by auto
  then show ?thesis
    using add_file_at [OF inv assms(2-5)] by blast
qed

theorem add_file_lookup_witness:
  "\<exists>fs'. add_file (str ''t/d/c'') 30 8 9 (str ''a'') example2 = Some fs'
    \<and> map_option fe_path (at_index fs' 2) = Some (str ''t/d/c'') \<and> at_index fs' 0 = at_index example2 0"
proof -
  have n: "num_files example2 = 2" "m_total_size example2 = 40010" "m_symlinks example2 = []" by code_simp+
  have "plain_path (str ''t/d/c'')" by code_simp
  from add_file_lookup [OF example2_reachable _ _ _ this, of 30 8 9 "str ''a''"] n show ?thesis
    by (auto simp: n)
qed

text \<open>C32: \<^verbatim>\<open>optimize\<close> returns, keeps every file with its path, size, attributes, modification time and hash, adds
  nothing but pad files of less than 16 KiB, and leaves the files one after the other. If a limit for
  padding is given, every file that is larger than it (and than 16 KiB) and is not a pad file starts
  at a multiple of 16 KiB.\<close>
theorem optimize_layout:
  assumes "fs_reachable fs" "m_total_size fs + alignment * int (num_files fs) < 2 ^ 47"
  shows "\<exists>fs' pads. optimize limit fs = Some fs' \<and> laid_out 0 (m_files fs') \<and> total_size fs' = sizes (m_files fs')
    \<and> mset (map (shown fs') [0..<num_files fs']) = mset (map (shown fs) [0..<num_files fs]) + mset (map Some pads)
    \<and> (\<forall>e \<in> set pads. fe_pad_file e \<and> 0 < fe_size e \<and> fe_size e < 16384)
    \<and> (limit \<ge> 0 \<longrightarrow> (\<forall>e \<in> set (m_files fs'). ife_size e > max limit 16384 \<and> \<not> ife_pad_file e
      \<longrightarrow> ife_offset e mod 16384 = 0))"
proof -
  note inv = fs_reachable_inv [OF assms(1)]
  obtain fs' where o: "optimize limit fs = Some fs'" "fs_inv fs'" "m_paths fs' = m_paths fs" "m_symlinks fs' = m_symlinks fs"
    "\<exists>pads. mset (rows fs') = mset (rows fs) + mset pads \<and> list_all pad_row pads"
    "limit \<ge> 0 \<longrightarrow> (\<forall>e \<in> set (m_files fs'). ife_size e > max limit alignment \<and> \<not> ife_pad_file e
      \<longrightarrow> ife_offset e mod alignment = 0)"
    using optimize_spec [OF inv assms(2)] by blast
  let ?v = "view (m_paths fs) (m_symlinks fs)"
  obtain pads where pads: "mset (rows fs') = mset (rows fs) + mset pads" "list_all pad_row pads"
    using o(5) by blast
  have base: "m_file_base fs = []" "m_file_base fs' = []"
    using inv o(2) by (simp_all add: fs_inv_def table_inv_def)
  have shown: "mset (map (shown fs') [0..<num_files fs']) = mset (map (shown fs) [0..<num_files fs]) + mset (map ?v pads)"
    unfolding shown_rows [OF base(1)] shown_rows [OF base(2)] using o(3,4) pads(1) by simp
  have pad: "\<exists>e. ?v r = Some e \<and> fe_pad_file e \<and> 0 < fe_size e \<and> fe_size e < 16384" if r: "r \<in> set pads" for r
  proof -
    have "r \<in># mset (rows fs')" using r pads(1) by simp
    then obtain i where i: "i < num_files fs'" "r = row fs' i"
      by (auto simp: rows_def)
    have "pad_row (row fs' i)" using r i(2) pads(2) by (simp add: list_all_iff)
    moreover have "?v r = shown fs' i"
      using shown_view [OF base(2) i(1)] o(3,4) i(2) by simp
    ultimately show ?thesis
      using at_index_total [OF o(2) i(1)] by (auto simp: shown_def pad_row_def row_def alignment_def)
  qed
  have "map ?v pads = map Some (map (the \<circ> ?v) pads)"
    "\<forall>e \<in> set (map (the \<circ> ?v) pads). fe_pad_file e \<and> 0 < fe_size e \<and> fe_size e < 16384"
    using pad by fastforce+
  then obtain qs where qs: "map ?v pads = map Some qs" "\<forall>e \<in> set qs. fe_pad_file e \<and> 0 < fe_size e \<and> fe_size e < 16384"
    by blast
  have "laid_out 0 (m_files fs')" "total_size fs' = sizes (m_files fs')"
    using o(2) by (simp_all add: fs_inv_def total_size_def)
  then show ?thesis
    using o(1,6) shown [unfolded qs(1)] qs(2) unfolding alignment_def by auto
qed

theorem optimize_layout_witness:
  "\<exists>fs'. optimize 0 example2 = Some fs' \<and> map ife_size (m_files fs') = [40000, 10]
    \<and> laid_out 0 (m_files fs') \<and> map (fs_mtime fs') [0, 1] = [0, 7]"
proof -
  have n: "num_files example2 = 2" "m_total_size example2 = 40010" by code_simp+
  obtain fs' where "optimize 0 example2 = Some fs'" "laid_out 0 (m_files fs')"
    using optimize_layout [OF example2_reachable, of 0] n by (auto simp: alignment_def)
  moreover have "map_option (\<lambda>fs. map ife_size (m_files fs)) (optimize 0 example2) = Some [40000, 10]"
    "map_option (\<lambda>fs. map (fs_mtime fs) [0, 1]) (optimize 0 example2) = Some [0, 7]"
    by code_simp+
  ultimately show ?thesis by simp
qed

lemma bits10_mod: "bits10 b = (b + 512) mod 1024 - 512"
  by (simp add: signed_take_bit_eq_take_bit_shift take_bit_eq_mod)

text \<open>C33: what goes wrong with names. A borrowed name of 512 characters or more does not fit in the signed bit field
  for its length and makes \<^verbatim>\<open>filename\<close> throw, although \<^verbatim>\<open>set_name\<close> allows 1023; a path whose last separator
  is a backslash comes back as a different path; and a file of \<open>2 ^ 47\<close> bytes is stored with a negative
  size but counted in full.\<close>
theorem name_limits:
  "(512 \<le> b \<longrightarrow> ife_filename (ife_set_name n b e) = None)
    \<and> (0 < b \<and> b \<le> 511 \<and> length s = nat b \<and> 0 \<notin> set s \<longrightarrow> ife_filename (ife_set_name (Some (s @ rest)) b e) = Some s)
    \<and> map_option fe_path (do { fs \<leftarrow> add_file (str ''t'' @ [backslash] @ str ''a'') 10 0 0 [] file_storage_init; at_index fs 0 })
        = Some (str ''t'' @ [backslash] @ str ''/t'' @ [backslash] @ str ''a'')
    \<and> map_option (\<lambda>fs. (file_size fs 0, total_size fs)) (add_file (str ''t'') (2 ^ 47) 0 0 [] file_storage_init)
        = Some (- (2 ^ 47), 2 ^ 47)"
proof (intro conjI)
  have "bits10 (min b 1023) < 0" if "512 \<le> b"
  proof -
    have "(min b 1023 + 512) mod 1024 = (min b 1023 - 512 + 1024) mod 1024"
      by (rule arg_cong [of _ _ "\<lambda>x. x mod 1024"]) simp
    also have "\<dots> = (min b 1023 - 512) mod 1024"
      by (rule mod_add_self2)
    also have "\<dots> = min b 1023 - 512"
      using that by (intro mod_pos_pos_trivial) auto
    finally show ?thesis by (simp add: bits10_mod)
  qed
  moreover have "ife_name_len (ife_set_name n b e) = bits10 (min b 1023)"
    unfolding ife_set_name_def Let_def by (simp add: min_def)
  ultimately have "ife_name_len (ife_set_name n b e) < 0" if "512 \<le> b"
    using that by (simp only:)
  then show "512 \<le> b \<longrightarrow> ife_filename (ife_set_name n b e) = None"
    by (auto simp: ife_filename_def)
  show "0 < b \<and> b \<le> 511 \<and> length s = nat b \<and> 0 \<notin> set s \<longrightarrow> ife_filename (ife_set_name (Some (s @ rest)) b e) = Some s"
  proof
    assume b: "0 < b \<and> b \<le> 511 \<and> length s = nat b \<and> 0 \<notin> set s"
    then have "bits10 b = b" "cstr (s @ rest) \<noteq> []" "\<not> 1023 < b"
      by (cases s; auto simp: bits10_mod cstr_def)+
    then show "ife_filename (ife_set_name (Some (s @ rest)) b e) = Some s"
      using b by (simp add: ife_filename_def ife_set_name_def)
  qed
qed code_simp+

theorem name_limits_witness:
  "ife_filename (ife_set_name (Some (replicate 600 97)) 600 internal_file_entry_init) = None
    \<and> ife_filename (ife_set_name (Some (str ''ab/'')) 2 internal_file_entry_init) = Some (str ''ab'')"
  using name_limits [of 600 "Some (replicate 600 97)" internal_file_entry_init]
    name_limits [where b = 2 and s = "str ''ab''" and rest = "str ''/''" and e = internal_file_entry_init] by simp

end
