(* ===== verification/Spec2Isabelle.thy ===== *)
theory Spec2Isabelle
  imports Picker_Claims Picker_Choice Escape_String IP_Filter Bencode Lazy_Agree Packet_Map Bandwidth File_Claims
begin

text \<open>
  A verification development for libtorrent (rasterbar) 0.16.9, the BitTorrent library under
  \<^verbatim>\<open>src/libtorrent-rasterbar-0.16.9\<close>. File names below are relative to that directory; the other files
  of the repository are administration scripts.

  \<^bold>\<open>The program.\<close> A session owns torrents, a torrent owns a piece picker, the description of its files
  and its connections to peers. A connection asks the piece picker which blocks to request, tells it
  which blocks it has requested and received, and announces the pieces of its peer as a bit field. A
  rate limiter decides how many bytes a connection may transfer. The description of a torrent is read
  from and written to bencoded data, its paths are cleaned before they are used, its files are
  translated to pieces and blocks, and addresses of peers are checked against the filters of the session. The development models
  the parts of this that are sequential code over data: the bit field, the piece picker, the string
  codecs, bencoding, the filters, the rate limiter, the paths and the file storage.

  \<^bold>\<open>Conventions.\<close> A class is a record, a pointer that may be null an option, a vector a list and an
  iterator a position in it. Integers keep their width as words where the code relies on
  wrap-around; other integers are mathematical, and the invariants bound them. A result \<open>None\<close> of an
  operation is an exception or an access outside the memory that the code owns; that it does not occur is
  proved, not assumed. Loops are recursive functions with a proof of termination. Random choices and
  the contents of uninitialised memory are arguments, and the theorems hold for all of them. The
  assertions of the sources (\<^verbatim>\<open>TORRENT_ASSERT\<close>, \<^verbatim>\<open>check_invariant\<close>) are predicates to be proved.

  \<^bold>\<open>Prelude\<close>: operations of \<^verbatim>\<open>std::vector\<close> and shared lemmas on lists and multisets.

  \<^bold>\<open>Bitfield\<close>: \<^verbatim>\<open>include/libtorrent/bitfield.hpp\<close>, with its buffer of bytes. The locale \<open>bit_sequence\<close>
  states what its clients rely on and is interpreted for the operations; the bit field refines a list
  of booleans.

  \<^bold>\<open>The piece picker\<close>, \<^verbatim>\<open>src/piece_picker.cpp\<close> and its header, in several theories.
  \<open>Piece_Picker\<close> has the data, the list of downloads and the buckets of equal priority in \<^verbatim>\<open>m_pieces\<close>;
  \<open>Picker_Ops\<close> the operations that change the state; \<open>Picker_Pick\<close> the choice of blocks, \<^verbatim>\<open>pick_pieces\<close> and its
  helpers. \<open>Picker_Loops\<close> and \<open>Picker_Buckets\<close> prove that the shifting loops of \<^verbatim>\<open>add\<close>, \<^verbatim>\<open>remove\<close> and \<^verbatim>\<open>update\<close>
  rotate the buckets. \<open>Picker_Inv\<close> and \<open>Picker_Blocks\<close> define the invariant, \<open>Picker_Preserve\<close>,
  \<open>Picker_Marks\<close>, \<open>Picker_Abort\<close> and \<open>Picker_Rebuild\<close> show that every operation keeps it, and
  \<open>Picker_State\<close> has the inductive relation of the reachable states and the translation of
  \<^verbatim>\<open>check_invariant\<close>. \<open>Picker_View\<close> abstracts the availability of the pieces (locale \<open>refcounts\<close>, with its
  interpretation). \<open>Picker_Claims\<close> and \<open>Picker_Choice\<close> hold the properties: the invariant and the order of
  the pieces in every reachable state, no dereference of an end iterator, the effect of the operations
  on availability, priorities and counters, and that the picked blocks exist, are wanted, are not too
  many and not too few. One assertion of \<^verbatim>\<open>check_invariant\<close> does not hold in all reachable states, the
  number of missing regions is not maintained, and \<^verbatim>\<open>pick_pieces\<close> can return a block twice; this is proved
  with concrete runs.

  \<^bold>\<open>Escape_String\<close>: the codecs of \<^verbatim>\<open>src/escape_string.cpp\<close>. The locale \<open>codec\<close> states a round trip and is
  interpreted for URL, hexadecimal and base 32 encoding and for bencoding; base 64 is compared with a decoder
  written from the RFC.

  \<^bold>\<open>IP_Filter\<close>: the range filters of \<^verbatim>\<open>include/libtorrent/ip_filter.hpp\<close> over the locale \<open>addr_space\<close>,
  interpreted for IPv4, IPv6 and port numbers. A rule changes exactly the addresses of its range.

  \<^bold>\<open>Bencode\<close>: \<^verbatim>\<open>include/libtorrent/bencode.hpp\<close> with the type \<^verbatim>\<open>entry\<close>. The decoder has as fuel the length of its
  input, which is proved to be enough: every call consumes at least one character.

  \<^bold>\<open>The lazy decoder\<close>, \<^verbatim>\<open>src/lazy_bdecode.cpp\<close> with \<^verbatim>\<open>include/libtorrent/lazy_entry.hpp\<close>, through which all
  bencoded input from the network goes. \<open>Lazy_Bdecode\<close> has the loop with its stack, the entries as positions
  in the buffer, the accessors and the conversion to \<^verbatim>\<open>entry\<close>; \<open>Lazy_Safe\<close> shows that nothing outside the buffer
  is read on input without overlong numbers, and what goes wrong with them; \<open>Lazy_Agree\<close> that the lazy decoder
  and \<^verbatim>\<open>bdecode\<close> agree on encoded entries, and that names are found. The loop needs no fuel: every round uses up an
  item of the limit or pops the stack.

  \<^bold>\<open>Bandwidth\<close>: \<^verbatim>\<open>src/bandwidth_limit.cpp\<close>, \<^verbatim>\<open>src/bandwidth_queue_entry.cpp\<close> and
  \<^verbatim>\<open>src/bandwidth_manager.cpp\<close>. Requests share channels through pointers, so the channels are in a store.
  No round hands out more than the quota of a channel, the queue and its counter agree, and no request
  is lost; at very low limits requests can starve.

  \<^bold>\<open>Paths\<close>: the path functions of \<^verbatim>\<open>src/file.cpp\<close> and the cleaning of paths in \<^verbatim>\<open>src/torrent_info.cpp\<close>, as
  compiled for POSIX systems. A cleaned path cannot leave the directory it is relative to.

  \<^bold>\<open>The file storage\<close>, \<^verbatim>\<open>src/file_storage.cpp\<close> and its header. \<open>File_Storage\<close> has the data, the operations and
  the invariant; \<open>File_Layout\<close> shows that adding and renaming files keep it, that \<^verbatim>\<open>map_block\<close> returns the
  bytes of a block and that files are found again; \<open>File_Optimize\<close> has the invariant of the loop of \<^verbatim>\<open>optimize\<close>;
  \<open>File_Claims\<close> has the reachable states and the properties. The bit fields of 48, 16 and 10 bits are
  cut as in the code, and what that breaks is proved too.

  \<^bold>\<open>Not modelled.\<close> The session, torrents, peer connections, trackers, the DHT, uTP and the disk thread are
  driven by callbacks of boost.asio and by threads, and keep little state of their own that could be stated
  without the network. Wide-character overloads and Windows variants are compiled out on POSIX
  systems. Vendored code (\<^verbatim>\<open>mpi.c\<close>, \<^verbatim>\<open>GeoIP.c\<close>, \<^verbatim>\<open>puff.cpp\<close>, \<^verbatim>\<open>ConvertUTF.cpp\<close>), bindings, examples and tests
  are left out. The HTTP and URL parsers and some small containers are pure code that
  could be added in the same style.
\<close>

end
